(* ===== verification/VS_Prelude.thy ===== *)
theory VS_Prelude
  imports Main "HOL-Library.Multiset" "HOL-Library.Monad_Syntax" "HOL-Library.Code_Target_Nat"
begin

text \<open>
  The prelude of the development: the collections of rewrite rules the component theories
  share, checked access to arrays, the monadic left fold that models a bounded C++ loop, and
  generic facts about lists, slices and fixed-stride blocks.

  Conventions. A C++ computation that may read or write outside an array is modelled in the
  option monad: \<open>None\<close> is undefined behaviour. A thrown exception is a value
  \<open>Inl e\<close> of a sum type. A \<open>for\<close> loop over a container is \<open>foldM\<close>
  (when its body may fail) or a recursion over the list.
\<close>

named_theorems vs_defs
named_theorems checked_simps

section \<open>Checked array access\<close>

text \<open>An array read, an array write and a block read; \<open>None\<close> when out of range.\<close>

definition rd :: "'a list \<Rightarrow> nat \<Rightarrow> 'a option" where
  "rd xs i = (if i < length xs then Some (xs ! i) else None)"

definition wr :: "'a list \<Rightarrow> nat \<Rightarrow> 'a \<Rightarrow> 'a list option" where
  "wr xs i v = (if i < length xs then Some (xs[i := v]) else None)"

definition rd_range :: "'a list \<Rightarrow> nat \<Rightarrow> nat \<Rightarrow> 'a list option" where
  "rd_range xs off n = (if off + n \<le> length xs then Some (take n (drop off xs)) else None)"

lemma rd_Some [checked_simps]: "i < length xs \<Longrightarrow> rd xs i = Some (xs ! i)"
  by (simp add: rd_def)

lemma wr_Some [checked_simps]: "i < length xs \<Longrightarrow> wr xs i v = Some (xs[i := v])"
  by (simp add: wr_def)

lemma rd_range_Some [checked_simps]:
  "off + n \<le> length xs \<Longrightarrow> rd_range xs off n = Some (take n (drop off xs))"
  by (simp add: rd_range_def)

lemma rd_eq_Some: "rd xs i = Some v \<longleftrightarrow> i < length xs \<and> v = xs ! i"
  by (auto simp: rd_def)

lemma wr_eq_Some: "wr xs i v = Some ys \<longleftrightarrow> i < length xs \<and> ys = xs[i := v]"
  by (auto simp: wr_def)

lemma rd_range_eq_Some:
  "rd_range xs off n = Some ys \<longleftrightarrow> off + n \<le> length xs \<and> ys = take n (drop off xs)"
  by (auto simp: rd_range_def)

section \<open>Loops whose body may fail\<close>

fun foldM :: "('s \<Rightarrow> 'a \<Rightarrow> 's option) \<Rightarrow> 's \<Rightarrow> 'a list \<Rightarrow> 's option" where
  "foldM f s [] = Some s"
| "foldM f s (x # xs) = (case f s x of None \<Rightarrow> None | Some s' \<Rightarrow> foldM f s' xs)"

text \<open>
  Total correctness of a loop: an invariant indexed by the processed prefix that every
  iteration re-establishes gives a result, and the invariant for the whole list.
\<close>

lemma foldM_rule:
  assumes "P [] s"
    and "\<And>ys x zs s. xs = ys @ x # zs \<Longrightarrow> P ys s \<Longrightarrow> \<exists>s'. f s x = Some s' \<and> P (ys @ [x]) s'"
  shows "\<exists>s'. foldM f s xs = Some s' \<and> P xs s'"
proof -
  have "xs = pre @ rest \<Longrightarrow> P pre s \<Longrightarrow> \<exists>s'. foldM f s rest = Some s' \<and> P xs s'" for pre rest s
  proof (induction rest arbitrary: pre s)
    case Nil
    then show ?case by simp
  next
    case (Cons x rest)
    then obtain s' where s': "f s x = Some s'" "P (pre @ [x]) s'"
      using assms(2) by blast
    have "xs = (pre @ [x]) @ rest" using Cons.prems(1) by simp
    from Cons.IH [OF this s'(2)] s'(1) show ?case by simp
  qed
  from this [of "[]" xs s] assms(1) show ?thesis by simp
qed

text \<open>Partial correctness: a relation every successful iteration keeps.\<close>

lemma foldM_preserves:
  assumes "foldM f s xs = Some s'" and "P s"
    and "\<And>s x s'. x \<in> set xs \<Longrightarrow> P s \<Longrightarrow> f s x = Some s' \<Longrightarrow> P s'"
  shows "P s'"
  using assms
proof (induction xs arbitrary: s)
  case Nil
  then show ?case by simp
next
  case (Cons x xs)
  then obtain t where "f s x = Some t" "foldM f t xs = Some s'"
    by (auto split: option.splits)
  with Cons show ?case by (metis list.set_intros)
qed

lemma foldM_append:
  "foldM f s (xs @ ys) = (case foldM f s xs of None \<Rightarrow> None | Some s' \<Rightarrow> foldM f s' ys)"
  by (induction xs arbitrary: s) (auto split: option.splits)

text \<open>A counting loop whose states are known.\<close>

lemma foldM_upt:
  assumes "\<And>k. k < n \<Longrightarrow> f (s k) k = Some (s (Suc k))"
  shows "foldM f (s 0) [0..<n] = Some (s n)"
  using assms
proof (induction n)
  case (Suc n)
  then show ?case by (simp add: foldM_append)
qed simp

section \<open>Fixed-stride blocks in a flat array\<close>

definition block :: "nat \<Rightarrow> 'a list \<Rightarrow> nat \<Rightarrow> 'a list" where
  "block s xs i = take s (drop (i * s) xs)"

lemma block_bound:
  fixes i n s :: nat
  assumes "i < n" shows "i * s + s \<le> n * s"
proof -
  have "Suc i * s \<le> n * s" using assms by (simp add: Suc_leI del: mult_Suc)
  then show ?thesis by simp
qed

lemma length_block [simp]: "i < n \<Longrightarrow> length xs = n * s \<Longrightarrow> length (block s xs i) = s"
  using block_bound [of i n s] by (simp add: block_def)

lemma block_replicate: "i < n \<Longrightarrow> block s (replicate (n * s) x) i = replicate s x"
  using block_bound [of i n s] by (simp add: block_def min_def)

lemma nth_block: "i < n \<Longrightarrow> length xs = n * s \<Longrightarrow> k < s \<Longrightarrow> block s xs i ! k = xs ! (i * s + k)"
  using block_bound [of i n s] by (simp add: block_def)

lemma block_index_eq:
  fixes i j k k' s :: nat
  assumes "k < s" "k' < s" "i * s + k = j * s + k'"
  shows "i = j \<and> k = k'"
proof -
  have s: "s \<noteq> 0" using assms(1) by simp
  have "(k + i * s) div s = i" "(k' + j * s) div s = j"
    using assms(1,2) s by (simp_all only: div_mult_self1 [OF s] div_less add_0_right)
  then have "i = j" using assms(3) by (metis add.commute)
  then show ?thesis using assms(3) by simp
qed

lemma block_update:
  assumes "i < n" "j < n" "length xs = n * s" "k < s"
  shows "block s (xs[j * s + k := v]) i = (if i = j then (block s xs i)[k := v] else block s xs i)"
proof (rule nth_equalityI)
  show "length (block s (xs[j * s + k := v]) i) =
      length (if i = j then (block s xs i)[k := v] else block s xs i)"
    using assms by simp
next
  fix m assume "m < length (block s (xs[j * s + k := v]) i)"
  then have m: "m < s" using assms by simp
  have b: "j * s + k < length xs" "i * s + m < length xs"
    using assms m block_bound [of i n s] block_bound [of j n s] by auto
  have eq: "i * s + m = j * s + k \<longleftrightarrow> i = j \<and> m = k"
    using block_index_eq [of m s k i j] m assms(4) by auto
  show "block s (xs[j * s + k := v]) i ! m =
      (if i = j then (block s xs i)[k := v] else block s xs i) ! m"
    using assms m b eq by (auto simp: nth_block [where n = n] nth_list_update)
qed

text \<open>Replacing a whole block.\<close>

definition put_block :: "nat \<Rightarrow> 'a list \<Rightarrow> nat \<Rightarrow> 'a list \<Rightarrow> 'a list" where
  "put_block s xs i b = take (i * s) xs @ b @ drop (i * s + s) xs"

lemma length_put_block [simp]:
  "i < n \<Longrightarrow> length xs = n * s \<Longrightarrow> length b = s \<Longrightarrow> length (put_block s xs i b) = n * s"
  using block_bound [of i n s] by (simp add: put_block_def)

lemma nth_put_block:
  assumes "i < n" "length xs = n * s" "length b = s" "m < n * s"
  shows "put_block s xs i b ! m = (if m div s = i then b ! (m mod s) else xs ! m)"
proof -
  have s: "0 < s" using assms(4) by (cases s) auto
  have bb: "i * s + s \<le> n * s" by (rule block_bound [OF assms(1)])
  have m: "m = m div s * s + m mod s" "m mod s < s" using s by auto
  consider "m < i * s" | "i * s \<le> m" "m < i * s + s" | "i * s + s \<le> m" by linarith
  then show ?thesis
  proof cases
    case 1
    then have "m div s < i" by (simp add: div_less_iff_less_mult s)
    then show ?thesis using 1 assms by (simp add: put_block_def nth_append)
  next
    case 2
    then have "m div s = i" by (metis add.commute div_nat_eqI mult.commute mult_Suc_right)
    moreover then have "m mod s = m - i * s" using m(1) by (metis add_diff_cancel_left')
    moreover have "m - i * s < s" using 2 by linarith
    ultimately show ?thesis using 2 bb assms by (simp add: put_block_def nth_append)
  next
    case 3
    then have "Suc i * s \<le> m" by simp
    then have "i < m div s" by (metis Suc_le_eq div_le_mono nonzero_mult_div_cancel_right s less_irrefl)
    moreover have "\<not> m - i * s < s" using 3 by linarith
    ultimately show ?thesis using 3 bb assms by (simp add: put_block_def nth_append)
  qed
qed

lemma block_put_block:
  assumes "i < n" "j < n" "length xs = n * s" "length b = s"
  shows "block s (put_block s xs i b) j = (if i = j then b else block s xs j)"
proof (rule nth_equalityI)
  show "length (block s (put_block s xs i b) j) = length (if i = j then b else block s xs j)"
    using assms by simp
next
  fix k assume "k < length (block s (put_block s xs i b) j)"
  then have k: "k < s" using assms by simp
  have m: "j * s + k < n * s" using block_bound [of j n s] assms k by linarith
  have "(j * s + k) div s = j" "(j * s + k) mod s = k" using k by auto
  then show "block s (put_block s xs i b) j ! k = (if i = j then b else block s xs j) ! k"
    using assms k nth_put_block [OF assms(1,3,4) m] by (auto simp: nth_block [where n = n])
qed

lemma list_update_put_block:
  assumes "i < n" "length xs = n * s" "k < s"
  shows "xs[i * s + k := v] = put_block s xs i ((block s xs i)[k := v])"
proof (rule nth_equalityI)
  show "length (xs[i * s + k := v]) = length (put_block s xs i ((block s xs i)[k := v]))"
    using assms by simp
next
  fix m assume "m < length (xs[i * s + k := v])"
  then have m: "m < n * s" using assms by simp
  have d: "m = m div s * s + m mod s" "m mod s < s" using assms(3) by auto
  have eq: "m = i * s + k \<longleftrightarrow> m div s = i \<and> m mod s = k"
    using d assms(3) by (metis block_index_eq)
  have bl: "m div s = i \<Longrightarrow> block s xs i ! (m mod s) = xs ! m"
    using nth_block [OF assms(1,2) d(2)] d(1) by simp
  show "xs[i * s + k := v] ! m = put_block s xs i ((block s xs i)[k := v]) ! m"
    using assms m d(2) eq bl nth_put_block [OF assms(1,2) _ m, of "(block s xs i)[k := v]"]
    by (auto simp: nth_list_update)
qed

lemma put_block_twice:
  assumes "i < n" "length xs = n * s" "length b = s"
  shows "put_block s (put_block s xs i b) i c = put_block s xs i c"
  using block_bound [OF assms(1), of s] assms by (simp add: put_block_def)

lemma put_block_self: "i < n \<Longrightarrow> length xs = n * s \<Longrightarrow> put_block s xs i (block s xs i) = xs"
  by (simp add: put_block_def block_def) (metis add.commute append_take_drop_id drop_drop)

section \<open>Unsigned subtraction\<close>

text \<open>Subtraction of \<open>size_t\<close> values, written as addition modulo \<open>2 ^ 64\<close>.\<close>

lemma sub_sz:
  fixes a b :: nat
  assumes "b \<le> a" "a < 2 ^ 64" shows "(a + (2 ^ 64 - b)) mod 2 ^ 64 = a - b"
proof -
  have "a + (2 ^ 64 - b) = (a - b) + 2 ^ 64" using assms by auto
  then have "(a + (2 ^ 64 - b)) mod 2 ^ 64 = (a - b) mod 2 ^ 64" by simp
  also have "\<dots> = a - b" using assms by (intro mod_less) auto
  finally show ?thesis .
qed

section \<open>Lists\<close>

lemma distinct_map_fst_inj: "distinct (map snd xs) \<Longrightarrow> distinct xs"
  by (simp add: distinct_map)

lemma mset_list_update_swap:
  assumes "i < length xs"
  shows "mset (xs[i := v]) = add_mset v (mset xs - {#xs ! i#})"
  using assms by (simp add: mset_update)

lemma distinct_submset: "mset xs \<subseteq># mset ys \<Longrightarrow> distinct ys \<Longrightarrow> distinct xs"
  unfolding distinct_count_atmost_1 subseteq_mset_def
  by (metis count_greater_zero_iff le_antisym less_one linorder_not_le mset_subset_eqD set_mset_mset
      subseteq_mset_def not_in_iff)

lemma those_map_Some: "\<forall>x \<in> set xs. f x = Some (g x) \<Longrightarrow> those (map f xs) = Some (map g xs)"
  by (induction xs) auto

lemma nth_take_drop1: "k < n \<Longrightarrow> n < length xs \<Longrightarrow> take n (drop 1 xs) ! k = xs ! Suc k"
  by simp

lemma set_take_drop1:
  "n < length xs \<Longrightarrow> set (take n (drop 1 xs)) = {xs ! Suc k |k. k < n}"
  by (force simp: set_conv_nth)

end
