(* ===== verification/Float32.thy ===== *)
theory Float32
  imports VS_Prelude "HOL-Library.Word"
begin

text \<open>
  IEEE-754 binary32, the C++ type \<open>float\<close> of \<open>include/hnsw.hpp\<close>
  (\<open>using dist_t = float\<close>): 32-bit patterns with comparison, addition, subtraction,
  multiplication, division and square root, rounded to nearest, ties to even. Everything is
  executable. A NaN result is the one quiet NaN \<open>0x7FC00000\<close>: payloads are left to the
  hardware by the standard, and no comparison can tell two NaNs apart.

  The lemmas are those the index relies on: off the NaNs the comparison \<open><\<close> is a strict
  weak order (it is the order of an integer key), NaN compares false with everything, the key
  gives the bound that makes a strictly descending loop stop, and the algebraic facts (commutative
  addition and product, antisymmetric subtraction, non-negative squares) from which the symmetry
  and positivity of the distance kernels follow.
\<close>

section \<open>Bit patterns\<close>

datatype f32 = F32 (f32_bits: "32 word")

definition f32_sign :: "f32 \<Rightarrow> bool" where
  "f32_sign x \<longleftrightarrow> 2 ^ 31 \<le> unat (f32_bits x)"

definition f32_mag :: "f32 \<Rightarrow> nat" where
  "f32_mag x = unat (f32_bits x) mod 2 ^ 31"

definition f32_make :: "bool \<Rightarrow> nat \<Rightarrow> f32" where
  "f32_make s m = F32 (of_nat ((if s then 2 ^ 31 else 0) + m))"

definition f32_is_nan :: "f32 \<Rightarrow> bool" where
  "f32_is_nan x \<longleftrightarrow> 255 * 2 ^ 23 < f32_mag x"

definition f32_is_inf :: "f32 \<Rightarrow> bool" where
  "f32_is_inf x \<longleftrightarrow> f32_mag x = 255 * 2 ^ 23"

text \<open>A finite value is \<open>\<plusminus> f32_sig x * 2 powi f32_pow x\<close>.\<close>

definition f32_sig :: "f32 \<Rightarrow> nat" where
  "f32_sig x = (let e = f32_mag x div 2 ^ 23; f = f32_mag x mod 2 ^ 23
                in if e = 0 then f else 2 ^ 23 + f)"

definition f32_pow :: "f32 \<Rightarrow> int" where
  "f32_pow x = (let e = f32_mag x div 2 ^ 23 in if e = 0 then - 149 else int e - 150)"

definition f32_int :: "f32 \<Rightarrow> int" where
  "f32_int x = (if f32_sign x then - int (f32_sig x) else int (f32_sig x))"

definition f32_nan :: f32 where "f32_nan = F32 0x7FC00000"
definition f32_inf :: "bool \<Rightarrow> f32" where "f32_inf s = f32_make s (255 * 2 ^ 23)"
definition f32_max :: f32 where "f32_max = F32 0x7F7FFFFF"

lemma unat_f32_less: "unat (f32_bits x) < 2 ^ 32"
proof -
  have "unat (f32_bits x) < 2 ^ LENGTH(32)" by (rule unsigned_less)
  then show ?thesis by simp
qed

lemma f32_mag_less: "f32_mag x < 2 ^ 31"
  by (simp add: f32_mag_def)

lemma unat_f32_make: "m < 2 ^ 31 \<Longrightarrow> unat (f32_bits (f32_make s m)) = (if s then 2 ^ 31 else 0) + m"
  unfolding f32_make_def f32.sel
  by (subst unat_of_nat) simp

lemma f32_sign_make [simp]: "m < 2 ^ 31 \<Longrightarrow> f32_sign (f32_make s m) = s"
  unfolding f32_sign_def by (subst unat_f32_make) auto

lemma f32_mag_make [simp]: "m < 2 ^ 31 \<Longrightarrow> f32_mag (f32_make s m) = m"
  unfolding f32_mag_def by (subst unat_f32_make) auto

lemma f32_make_sign_mag: "f32_make (f32_sign x) (f32_mag x) = x"
proof -
  let ?n = "unat (f32_bits x)"
  have "(if f32_sign x then 2 ^ 31 else 0) + f32_mag x = ?n"
  proof (cases "2 ^ 31 \<le> ?n")
    case True
    have "?n mod 2 ^ 31 = ?n - 2 ^ 31"
      using True unat_f32_less [of x] by (simp add: mod_nat_eqI le_mod_geq)
    with True show ?thesis by (simp add: f32_sign_def f32_mag_def)
  next
    case False
    then show ?thesis by (simp add: f32_sign_def f32_mag_def)
  qed
  then show ?thesis by (simp add: f32_make_def)
qed

lemma f32_eqI: "f32_sign x = f32_sign y \<Longrightarrow> f32_mag x = f32_mag y \<Longrightarrow> x = y"
proof -
  assume "f32_sign x = f32_sign y" "f32_mag x = f32_mag y"
  then have "f32_make (f32_sign x) (f32_mag x) = f32_make (f32_sign y) (f32_mag y)" by (rule arg_cong2)
  then show ?thesis by (simp only: f32_make_sign_mag)
qed

section \<open>Comparison\<close>

definition f32_key :: "f32 \<Rightarrow> int" where
  "f32_key x = (if f32_sign x then - int (f32_mag x) else int (f32_mag x))"

instantiation f32 :: ord
begin
definition less_f32 :: "f32 \<Rightarrow> f32 \<Rightarrow> bool" where
  "less_f32 x y \<longleftrightarrow> \<not> f32_is_nan x \<and> \<not> f32_is_nan y \<and> f32_key x < f32_key y"
definition less_eq_f32 :: "f32 \<Rightarrow> f32 \<Rightarrow> bool" where
  "less_eq_f32 x y \<longleftrightarrow> \<not> f32_is_nan x \<and> \<not> f32_is_nan y \<and> f32_key x \<le> f32_key y"
instance ..
end

lemma f32_less_irrefl: "\<not> x < (x::f32)"
  by (simp add: less_f32_def)

lemma f32_less_trans: "x < y \<Longrightarrow> y < z \<Longrightarrow> x < (z::f32)"
  by (simp add: less_f32_def)

lemma f32_not_less_trans:
  "\<not> f32_is_nan y \<Longrightarrow> \<not> x < y \<Longrightarrow> \<not> y < z \<Longrightarrow> \<not> x < (z::f32)"
  by (auto simp: less_f32_def)

lemma f32_not_less: "\<not> f32_is_nan x \<Longrightarrow> \<not> f32_is_nan y \<Longrightarrow> \<not> x < y \<longleftrightarrow> y \<le> (x::f32)"
  by (auto simp: less_f32_def less_eq_f32_def)

lemma f32_nan_less: "f32_is_nan x \<or> f32_is_nan y \<Longrightarrow> \<not> x < (y::f32)"
  by (auto simp: less_f32_def)

text \<open>A natural number that every strict descent decreases: what makes such a loop stop.\<close>

definition f32_rank :: "f32 \<Rightarrow> nat" where
  "f32_rank x = nat (f32_key x + 2 ^ 31)"

lemma f32_key_bound: "- (2 ^ 31) < f32_key x \<and> f32_key x < 2 ^ 31"
proof -
  have "int (f32_mag x) < 2 ^ 31"
    using f32_mag_less [of x] by simp
  then show ?thesis by (auto simp: f32_key_def)
qed

lemma f32_rank_less: "x < y \<Longrightarrow> f32_rank x < f32_rank y"
  using f32_key_bound [of x] by (auto simp: less_f32_def f32_rank_def)

section \<open>Rounding and arithmetic\<close>

fun bitlen :: "nat \<Rightarrow> nat" where
  "bitlen n = (if n = 0 then 0 else Suc (bitlen (n div 2)))"

declare bitlen.simps [simp del]

text \<open>The same by steps of 16 bits, for evaluation.\<close>

lemma bitlen_code [code]:
  "bitlen n = (if n = 0 then 0 else if 65536 \<le> n then 16 + bitlen (n div 65536) else Suc (bitlen (n div 2)))"
proof -
  have e: "bitlen n = k + bitlen (n div 2 ^ k)" if "2 ^ k \<le> n" for k
    using that
  proof (induction k)
    case (Suc k)
    then have "bitlen n = k + bitlen (n div 2 ^ k)" by (simp add: order_trans [OF _ Suc.prems])
    moreover have "bitlen (n div 2 ^ k) = Suc (bitlen (n div 2 ^ k div 2))"
      using Suc.prems by (subst bitlen.simps) (auto simp: div_eq_0_iff)
    ultimately show ?case by (simp add: div_mult2_eq [symmetric] mult.commute)
  qed simp
  show ?thesis
  proof (cases "65536 \<le> n")
    case True
    then show ?thesis using e [of 16] by simp
  next
    case False
    then show ?thesis by (subst bitlen.simps) simp
  qed
qed

definition round_half_even :: "nat \<Rightarrow> nat \<Rightarrow> nat" where
  "round_half_even n sh = (let q = n div 2 ^ sh; r = n mod 2 ^ sh
     in if 2 ^ sh < 2 * r \<or> (2 * r = 2 ^ sh \<and> odd q) then q + 1 else q)"

text \<open>
  \<open>f32_round s n k\<close> rounds \<open>\<plusminus> n * 2 powi k\<close>. The significand is cut at 24 bits, or
  at the subnormal exponent \<open>-149\<close>; the carry of a round up moves into the exponent field by
  itself, and everything from \<open>2 ^ 128\<close> on is the infinity.
\<close>

definition f32_round :: "bool \<Rightarrow> nat \<Rightarrow> int \<Rightarrow> f32" where
  "f32_round s n k =
     (if n = 0 then f32_make s 0
      else let ex = max (k + int (bitlen n) - 24) (- 149);
               q = (if ex \<le> k then n * 2 ^ nat (k - ex) else round_half_even n (nat (ex - k)))
           in f32_make s (min (255 * 2 ^ 23) (nat (ex + 149) * 2 ^ 23 + q)))"

definition f32_neg :: "f32 \<Rightarrow> f32" where
  "f32_neg x = f32_make (\<not> f32_sign x) (f32_mag x)"

definition f32_add :: "f32 \<Rightarrow> f32 \<Rightarrow> f32" where
  "f32_add x y =
     (if f32_is_nan x \<or> f32_is_nan y then f32_nan
      else if f32_is_inf x then (if f32_is_inf y \<and> f32_sign x \<noteq> f32_sign y then f32_nan else x)
      else if f32_is_inf y then y
      else if f32_mag y = 0 \<and> f32_mag x \<noteq> 0 then x
      else if f32_mag x = 0 \<and> f32_mag y \<noteq> 0 then y
      else let k = min (f32_pow x) (f32_pow y);
               v = f32_int x * 2 ^ nat (f32_pow x - k) + f32_int y * 2 ^ nat (f32_pow y - k)
           in if v = 0 then f32_make (f32_sign x \<and> f32_sign y) 0
              else f32_round (v < 0) (nat \<bar>v\<bar>) k)"

definition f32_mul :: "f32 \<Rightarrow> f32 \<Rightarrow> f32" where
  "f32_mul x y =
     (let s = (f32_sign x \<noteq> f32_sign y) in
      if f32_is_nan x \<or> f32_is_nan y then f32_nan
      else if f32_is_inf x \<or> f32_is_inf y
        then (if f32_mag x = 0 \<or> f32_mag y = 0 then f32_nan else f32_inf s)
      else f32_round s (f32_sig x * f32_sig y) (f32_pow x + f32_pow y))"

text \<open>
  The quotient and the root are computed with at least 28 bits and a sticky bit below them,
  so that the final rounding is the correct one.
\<close>

definition f32_div :: "f32 \<Rightarrow> f32 \<Rightarrow> f32" where
  "f32_div x y =
     (let s = (f32_sign x \<noteq> f32_sign y) in
      if f32_is_nan x \<or> f32_is_nan y then f32_nan
      else if f32_is_inf x then (if f32_is_inf y then f32_nan else f32_inf s)
      else if f32_is_inf y then f32_make s 0
      else if f32_mag y = 0 then (if f32_mag x = 0 then f32_nan else f32_inf s)
      else let n = f32_sig x * 2 ^ 60; q = n div f32_sig y; r = n mod f32_sig y
           in f32_round s (2 * q + (if r = 0 then 0 else 1)) (f32_pow x - f32_pow y - 61))"

fun isqrt :: "nat \<Rightarrow> nat" where
  "isqrt n = (if n = 0 then 0
     else let r = 2 * isqrt (n div 4) in if (r + 1) * (r + 1) \<le> n then r + 1 else r)"

declare isqrt.simps [simp del]

definition f32_sqrt :: "f32 \<Rightarrow> f32" where
  "f32_sqrt x =
     (if f32_is_nan x then f32_nan
      else if f32_mag x = 0 then x
      else if f32_sign x then f32_nan
      else if f32_is_inf x then x
      else let p = (if even (f32_pow x) then 60 else 61);
               n = f32_sig x * 2 ^ p; r = isqrt n
           in f32_round False (2 * r + (if r * r = n then 0 else 1))
                ((f32_pow x - int p) div 2 - 1))"

instantiation f32 :: "{zero, one, plus, minus, times}"
begin
definition zero_f32 :: f32 where "zero_f32 = F32 0"
definition one_f32 :: f32 where "one_f32 = F32 0x3F800000"
definition plus_f32 :: "f32 \<Rightarrow> f32 \<Rightarrow> f32" where "plus_f32 = f32_add"
definition minus_f32 :: "f32 \<Rightarrow> f32 \<Rightarrow> f32" where "minus_f32 x y = f32_add x (f32_neg y)"
definition times_f32 :: "f32 \<Rightarrow> f32 \<Rightarrow> f32" where "times_f32 = f32_mul"
instance ..
end

lemma isqrt_correct: "isqrt n * isqrt n \<le> n \<and> n < (isqrt n + 1) * (isqrt n + 1)"
proof (induction n rule: isqrt.induct)
  case (1 n)
  show ?case
  proof (cases "n = 0")
    case True
    then show ?thesis by (simp add: isqrt.simps)
  next
    case False
    let ?a = "isqrt (n div 4)"
    have ih: "?a * ?a \<le> n div 4" "n div 4 < (?a + 1) * (?a + 1)" using 1 False by auto
    have lo: "(2 * ?a) * (2 * ?a) \<le> n" using ih(1) by auto
    have "n div 4 + 1 \<le> (?a + 1) * (?a + 1)" using ih(2) by simp
    then have hi: "n < (2 * ?a + 2) * (2 * ?a + 2)" by auto
    show ?thesis using lo hi False by (subst (1 2 3 4) isqrt.simps) (auto simp: Let_def)
  qed
qed

section \<open>Algebra of the rounded operations\<close>

lemma f32_sign_round [simp]: "f32_sign (f32_round s n k) = s"
  by (simp add: f32_round_def Let_def min_less_iff_disj)

lemma f32_mag_round: "f32_mag (f32_round s n k) = f32_mag (f32_round s' n k)"
  by (simp add: f32_round_def Let_def min_less_iff_disj)

lemma f32_mag_nan: "f32_mag f32_nan = 0x7FC00000" "\<not> f32_sign f32_nan"
  by (simp_all add: f32_nan_def f32_mag_def f32_sign_def)

lemma f32_sign_neg [simp]: "f32_sign (f32_neg x) = (\<not> f32_sign x)"
  using f32_mag_less [of x] by (simp add: f32_neg_def)

lemma f32_mag_neg [simp]: "f32_mag (f32_neg x) = f32_mag x"
  using f32_mag_less [of x] by (simp add: f32_neg_def)

lemma f32_class_neg [simp]:
  "f32_is_nan (f32_neg x) = f32_is_nan x" "f32_is_inf (f32_neg x) = f32_is_inf x"
  "f32_sig (f32_neg x) = f32_sig x" "f32_pow (f32_neg x) = f32_pow x"
  "f32_int (f32_neg x) = - f32_int x"
  by (simp_all add: f32_is_nan_def f32_is_inf_def f32_sig_def f32_pow_def f32_int_def Let_def)

lemma f32_add_commute: "f32_add x y = f32_add y x"
proof (cases "f32_is_inf x \<and> f32_is_inf y")
  case True
  then show ?thesis by (auto simp: f32_add_def f32_is_inf_def intro: f32_eqI)
next
  case False
  then show ?thesis
    by (auto simp: f32_add_def Let_def min.commute add.commute conj_commute disj_commute)
qed

lemma f32_mul_commute: "f32_mul x y = f32_mul y x"
  by (cases "f32_sign x"; cases "f32_sign y")
     (auto simp: f32_mul_def Let_def mult.commute add.commute)

lemma f32_minus_mag_swap: "f32_mag (x - y) = f32_mag (y - (x::f32))"
proof -
  consider "f32_is_nan x \<or> f32_is_nan y"
    | "\<not> (f32_is_nan x \<or> f32_is_nan y)" "f32_is_inf x \<or> f32_is_inf y"
    | "\<not> (f32_is_nan x \<or> f32_is_nan y)" "\<not> (f32_is_inf x \<or> f32_is_inf y)" "(f32_mag x = 0) = (f32_mag y = 0)"
    | "\<not> (f32_is_nan x \<or> f32_is_nan y)" "\<not> (f32_is_inf x \<or> f32_is_inf y)" "(f32_mag x = 0) \<noteq> (f32_mag y = 0)"
    by blast
  then show ?thesis
  proof cases
    case 1
    then show ?thesis by (auto simp: minus_f32_def f32_add_def)
  next
    case 2
    then show ?thesis by (auto simp: minus_f32_def f32_add_def f32_is_inf_def)
  next
    case 3
    define k where "k = min (f32_pow x) (f32_pow y)"
    define v where "v = f32_int x * 2 ^ nat (f32_pow x - k) - f32_int y * 2 ^ nat (f32_pow y - k)"
    have a: "x - y = (if v = 0 then f32_make (f32_sign x \<and> \<not> f32_sign y) 0
        else f32_round (v < 0) (nat \<bar>v\<bar>) k)"
      using 3 by (cases "f32_mag x = 0") (simp_all add: minus_f32_def f32_add_def Let_def k_def v_def)
    have b: "y - x = (if - v = 0 then f32_make (f32_sign y \<and> \<not> f32_sign x) 0
        else f32_round (- v < 0) (nat \<bar>- v\<bar>) k)"
      using 3 by (cases "f32_mag x = 0") (simp_all add: minus_f32_def f32_add_def Let_def k_def v_def min.commute)
    show ?thesis unfolding a b by (auto intro: f32_mag_round)
  next
    case 4
    then show ?thesis by (auto simp: minus_f32_def f32_add_def)
  qed
qed

lemma f32_square_mag: "f32_mag x = f32_mag y \<Longrightarrow> x * x = y * (y::f32)"
  by (simp add: times_f32_def f32_mul_def f32_is_nan_def f32_is_inf_def f32_sig_def f32_pow_def Let_def)

lemma f32_square_sign: "\<not> f32_sign (x * (x::f32))"
  by (simp add: times_f32_def f32_mul_def Let_def f32_mag_nan f32_inf_def)

lemma f32_add_sign:
  assumes "\<not> f32_sign x" "\<not> f32_sign y" shows "\<not> f32_sign (x + (y::f32))"
proof -
  have "0 \<le> f32_int x" "0 \<le> f32_int y" using assms by (simp_all add: f32_int_def)
  then have "\<not> f32_int x * 2 ^ i + f32_int y * 2 ^ j < 0" for i j by (simp add: not_less)
  then show ?thesis using assms by (simp add: plus_f32_def f32_add_def Let_def f32_mag_nan)
qed

lemma f32_not_less_zero: "\<not> f32_sign x \<Longrightarrow> \<not> x < (0::f32)"
  by (simp add: less_f32_def f32_key_def zero_f32_def f32_mag_def f32_sign_def)

definition f32_finite :: "f32 \<Rightarrow> bool" where
  "f32_finite x \<longleftrightarrow> f32_mag x < 255 * 2 ^ 23"

lemma f32_zero_fields [simp]: "f32_mag 0 = 0" "\<not> f32_sign 0"
  by (simp_all add: zero_f32_def f32_mag_def f32_sign_def)

lemma f32_minus_self: "f32_finite x \<Longrightarrow> x - x = (0::f32)"
  by (rule f32_eqI) (auto simp: minus_f32_def f32_add_def f32_finite_def f32_is_nan_def f32_is_inf_def)

lemma f32_zero_times_zero [simp]: "0 * 0 = (0::f32)"
  by (rule f32_eqI)
     (auto simp: times_f32_def f32_mul_def f32_is_nan_def f32_is_inf_def f32_sig_def f32_round_def)

lemma f32_zero_plus_zero [simp]: "0 + 0 = (0::f32)"
  by (rule f32_eqI)
     (auto simp: plus_f32_def f32_add_def f32_is_nan_def f32_is_inf_def f32_sig_def f32_int_def)

end
