(* ===== verification/Distance.thy ===== *)
theory Distance
  imports Float32
begin

text \<open>
  The distance kernels of \<open>include/hnsw.hpp\<close>: \<open>dotProduct\<close>,
  \<open>l2SquaredDistance\<close> and \<open>cosineDistance\<close>, each with its scalar loop and its AVX
  loop (eight lanes, a horizontal sum, a scalar tail). A pointer to \<open>n\<close> floats is a list;
  a 256-bit register is a list of eight lanes, a 128-bit one a list of four. The kernels are
  polymorphic in the arithmetic: at type \<open>f32\<close> they are the program's, with a rounding
  after every operation (no fused multiply-add); at a commutative ring they are exact, which is
  where the vectorised loop can be compared with the plain sum.
\<close>

section \<open>The vector instructions\<close>

type_synonym 'a m256 = "'a list"
type_synonym 'a m128 = "'a list"

definition mm256_setzero_ps :: "('a::zero) m256" where
  "mm256_setzero_ps = replicate 8 0"

definition mm256_loadu_ps :: "'a list \<Rightarrow> nat \<Rightarrow> 'a m256" where
  "mm256_loadu_ps a i = map (\<lambda>l. a ! (i + l)) [0..<8]"

definition mm256_add_ps :: "('a::plus) m256 \<Rightarrow> 'a m256 \<Rightarrow> 'a m256" where
  "mm256_add_ps x y = map2 (+) x y"

definition mm256_sub_ps :: "('a::minus) m256 \<Rightarrow> 'a m256 \<Rightarrow> 'a m256" where
  "mm256_sub_ps x y = map2 (-) x y"

definition mm256_mul_ps :: "('a::times) m256 \<Rightarrow> 'a m256 \<Rightarrow> 'a m256" where
  "mm256_mul_ps x y = map2 (*) x y"

definition mm_add_ps :: "('a::plus) m128 \<Rightarrow> 'a m128 \<Rightarrow> 'a m128" where
  "mm_add_ps x y = map2 (+) x y"

definition mm256_castps256_ps128 :: "'a m256 \<Rightarrow> 'a m128" where
  "mm256_castps256_ps128 x = take 4 x"

definition mm256_extractf128_ps1 :: "'a m256 \<Rightarrow> 'a m128" where
  "mm256_extractf128_ps1 x = drop 4 x"

definition mm_hadd_ps :: "('a::plus) m128 \<Rightarrow> 'a m128 \<Rightarrow> 'a m128" where
  "mm_hadd_ps x y = [x ! 0 + x ! 1, x ! 2 + x ! 3, y ! 0 + y ! 1, y ! 2 + y ! 3]"

definition mm_cvtss_f32 :: "'a m128 \<Rightarrow> 'a" where
  "mm_cvtss_f32 x = x ! 0"

definition hsum256 :: "('a::plus) m256 \<Rightarrow> 'a" where
  "hsum256 acc =
     (let lo = mm_add_ps (mm256_castps256_ps128 acc) (mm256_extractf128_ps1 acc);
          lo = mm_hadd_ps lo lo;
          lo = mm_hadd_ps lo lo
      in mm_cvtss_f32 lo)"

section \<open>The kernels\<close>

definition dot_step :: "('a::{plus,times}) list \<Rightarrow> 'a list \<Rightarrow> 'a \<Rightarrow> nat \<Rightarrow> 'a" where
  "dot_step a b res i = res + a ! i * b ! i"

function dot_avx_loop :: "('a::{plus,times}) list \<Rightarrow> 'a list \<Rightarrow> nat \<Rightarrow> nat \<Rightarrow> 'a m256 \<Rightarrow> nat \<times> 'a m256" where
  "dot_avx_loop a b n i acc =
     (if i + 8 \<le> n
      then dot_avx_loop a b n (i + 8)
             (mm256_add_ps acc (mm256_mul_ps (mm256_loadu_ps a i) (mm256_loadu_ps b i)))
      else (i, acc))"
  by pat_completeness auto
termination by (relation "measure (\<lambda>(a, b, n, i, acc). n - i)") auto

definition dotProduct :: "bool \<Rightarrow> ('a::{zero,plus,times}) list \<Rightarrow> 'a list \<Rightarrow> nat \<Rightarrow> 'a" where
  "dotProduct avx a b n =
     (if avx then (let (i, acc) = dot_avx_loop a b n 0 mm256_setzero_ps
                   in foldl (dot_step a b) (hsum256 acc) [i..<n])
      else foldl (dot_step a b) 0 [0..<n])"

definition add_sq :: "('a::{plus,times}) \<Rightarrow> 'a \<Rightarrow> 'a" where
  "add_sq res d = res + d * d"

definition l2_step :: "('a::{plus,minus,times}) list \<Rightarrow> 'a list \<Rightarrow> 'a \<Rightarrow> nat \<Rightarrow> 'a" where
  "l2_step a b res i = add_sq res (a ! i - b ! i)"

function l2_avx_loop ::
  "('a::{plus,minus,times}) list \<Rightarrow> 'a list \<Rightarrow> nat \<Rightarrow> nat \<Rightarrow> 'a m256 \<Rightarrow> nat \<times> 'a m256" where
  "l2_avx_loop a b n i acc =
     (if i + 8 \<le> n
      then let d = mm256_sub_ps (mm256_loadu_ps a i) (mm256_loadu_ps b i)
           in l2_avx_loop a b n (i + 8) (mm256_add_ps acc (mm256_mul_ps d d))
      else (i, acc))"
  by pat_completeness auto
termination by (relation "measure (\<lambda>(a, b, n, i, acc). n - i)") auto

definition l2SquaredDistance :: "bool \<Rightarrow> ('a::{zero,plus,minus,times}) list \<Rightarrow> 'a list \<Rightarrow> nat \<Rightarrow> 'a" where
  "l2SquaredDistance avx a b n =
     (if avx then (let (i, acc) = l2_avx_loop a b n 0 mm256_setzero_ps
                   in foldl (l2_step a b) (hsum256 acc) [i..<n])
      else foldl (l2_step a b) 0 [0..<n])"

definition cosineDistance :: "bool \<Rightarrow> ('a::{zero,one,plus,minus,times}) list \<Rightarrow> 'a list \<Rightarrow> nat \<Rightarrow> 'a" where
  "cosineDistance avx a b n = 1 - dotProduct avx a b n"

declare dot_avx_loop.simps [simp del] l2_avx_loop.simps [simp del]

lemmas mm_defs [vs_defs] =
  mm256_loadu_ps_def mm256_add_ps_def mm256_sub_ps_def mm256_mul_ps_def

section \<open>One loop behind both kernels\<close>

text \<open>
  Both vector loops add a vector of per-element terms to the accumulator; \<open>term\<close> is what
  element \<open>j\<close> contributes.
\<close>

function lane_loop :: "(nat \<Rightarrow> 'a::plus) \<Rightarrow> nat \<Rightarrow> nat \<Rightarrow> 'a m256 \<Rightarrow> nat \<times> 'a m256" where
  "lane_loop term n i acc =
     (if i + 8 \<le> n then lane_loop term n (i + 8) (map2 (+) acc (map (\<lambda>l. term (i + l)) [0..<8]))
      else (i, acc))"
  by pat_completeness auto
termination by (relation "measure (\<lambda>(t, n, i, acc). n - i)") auto

declare lane_loop.simps [simp del]

lemma dot_avx_loop_lanes: "dot_avx_loop a b n i acc = lane_loop (\<lambda>j. a ! j * b ! j) n i acc"
proof (induction a b n i acc rule: dot_avx_loop.induct)
  case (1 a b n i acc)
  then show ?case
    by (subst dot_avx_loop.simps, subst lane_loop.simps) (simp add: mm_defs map2_map_map)
qed

lemma l2_avx_loop_lanes:
  "l2_avx_loop a b n i acc = lane_loop (\<lambda>j. (a ! j - b ! j) * (a ! j - b ! j)) n i acc"
proof (induction a b n i acc rule: l2_avx_loop.induct)
  case (1 a b n i acc)
  then show ?case
    by (subst l2_avx_loop.simps, subst lane_loop.simps) (simp add: mm_defs map2_map_map)
qed

definition kernel :: "bool \<Rightarrow> (nat \<Rightarrow> 'a::{zero,plus}) \<Rightarrow> nat \<Rightarrow> 'a" where
  "kernel avx term n =
     (if avx then (let (i, acc) = lane_loop term n 0 (replicate 8 0)
                   in foldl (\<lambda>res j. res + term j) (hsum256 acc) [i..<n])
      else foldl (\<lambda>res j. res + term j) 0 [0..<n])"

lemma dotProduct_kernel: "dotProduct avx a b n = kernel avx (\<lambda>j. a ! j * b ! j) n"
  by (simp add: dotProduct_def kernel_def dot_avx_loop_lanes mm256_setzero_ps_def
      dot_step_def [abs_def])

lemma l2SquaredDistance_kernel:
  "l2SquaredDistance avx a b n = kernel avx (\<lambda>j. (a ! j - b ! j) * (a ! j - b ! j)) n"
  by (simp add: l2SquaredDistance_def kernel_def l2_avx_loop_lanes mm256_setzero_ps_def
      l2_step_def [abs_def] add_sq_def)

lemma hsum256_eq:
  "length acc = 8 \<Longrightarrow> hsum256 acc =
     ((acc ! 0 + acc ! 4) + (acc ! 1 + acc ! 5)) + ((acc ! 2 + acc ! 6) + (acc ! 3 + acc ! 7))"
  by (simp add: hsum256_def mm_add_ps_def mm256_castps256_ps128_def mm256_extractf128_ps1_def
      mm_hadd_ps_def mm_cvtss_f32_def)

text \<open>An invariant of the vector loop, a property of all lanes, the horizontal sum and the tail.\<close>

lemma lane_loop_all:
  assumes "\<And>j. P (term j)" "\<And>x y. P x \<Longrightarrow> P y \<Longrightarrow> P (x + y)" "\<forall>x \<in> set acc. P x" "length acc = 8"
  shows "(\<forall>x \<in> set (snd (lane_loop term n i acc)). P x) \<and> length (snd (lane_loop term n i acc)) = 8"
  using assms
proof (induction "term" n i acc rule: lane_loop.induct)
  case (1 "term" n i acc)
  let ?acc' = "map2 (+) acc (map (\<lambda>l. term (i + l)) [0..<8])"
  have "\<forall>x \<in> set ?acc'. P x" "length ?acc' = 8"
    using "1.prems" by (auto dest!: set_zip_leftD simp: set_zip)
  then show ?case
    using "1.IH" "1.prems" by (subst (1 2) lane_loop.simps) auto
qed

lemma foldl_all:
  assumes "\<And>j. P (term j)" "\<And>x y. P x \<Longrightarrow> P y \<Longrightarrow> P (x + y)" "P s"
  shows "P (foldl (\<lambda>res j. res + term j) s js)"
  using assms(3) by (induction js arbitrary: s) (simp_all add: assms(1,2))

lemma kernel_all:
  assumes "\<And>j. P (term j)" "\<And>x y. P x \<Longrightarrow> P y \<Longrightarrow> P (x + y)" "P 0"
  shows "P (kernel avx term n)"
proof -
  let ?acc = "snd (lane_loop term n 0 (replicate 8 0))"
  have "\<forall>x \<in> set ?acc. P x" "length ?acc = 8"
    using lane_loop_all [of P "term" "replicate 8 0" n 0] assms by auto
  then have "P (hsum256 ?acc)" by (simp add: hsum256_eq assms(2))
  then show ?thesis
    using assms by (auto simp: kernel_def split: prod.splits intro!: foldl_all [of P])
qed

text \<open>The kernels read the first \<open>n\<close> elements only.\<close>

lemma kernel_cong:
  assumes "\<And>j. j < n \<Longrightarrow> term j = term' j"
  shows "kernel avx term n = kernel avx term' n"
proof -
  have l: "lane_loop term n i acc = lane_loop term' n i acc" for i acc
    using assms
  proof (induction "term" n i acc rule: lane_loop.induct)
    case (1 "term" n i acc)
    then have m: "map (\<lambda>l. term (i + l)) [0..<8] = map (\<lambda>l. term' (i + l)) [0..<8]" if "i + 8 \<le> n"
      using that by (intro map_cong) auto
    show ?case
      by (subst (1 2) lane_loop.simps) (use "1.IH" "1.prems" m in \<open>auto simp del: upt.simps map_eq_conv\<close>)
  qed
  have f: "foldl (\<lambda>res j. res + term j) s [i..<n] = foldl (\<lambda>res j. res + term' j) s [i..<n]" for i s
    using assms by (intro foldl_cong) auto
  show ?thesis by (simp add: kernel_def l f)
qed

lemma lane_loop_sum:
  fixes "term" :: "nat \<Rightarrow> 'a::comm_monoid_add"
  assumes "length acc = 8" "lane_loop term n i acc = (i', acc')" "i \<le> n"
  shows "i \<le> i' \<and> i' \<le> n \<and> length acc' = 8 \<and> sum_list acc' = sum_list acc + sum term {i..<i'}"
  using assms
proof (induction "term" n i acc rule: lane_loop.induct)
  case (1 "term" n i acc)
  show ?case
  proof (cases "i + 8 \<le> n")
    case True
    let ?acc1 = "map2 (+) acc (map (\<lambda>l. term (i + l)) [0..<8])"
    have l: "length ?acc1 = 8" using "1.prems" by simp
    have "lane_loop term n (i + 8) ?acc1 = (i', acc')"
      using "1.prems"(2) True by (subst (asm) lane_loop.simps) simp
    with "1.IH" True l have ih: "i + 8 \<le> i'" "i' \<le> n" "length acc' = 8"
      "sum_list acc' = sum_list ?acc1 + sum term {i + 8..<i'}" by auto
    have "sum_list ?acc1 = sum_list acc + (\<Sum>l<8. term (i + l))"
      using "1.prems"(1) by (simp add: sum_list_sum_nth atLeast0LessThan sum.distrib)
    also have "(\<Sum>l<8. term (i + l)) = sum term {i..<i + 8}"
      using sum.shift_bounds_nat_ivl [of "term" 0 i 8] by (simp add: atLeast0LessThan add.commute)
    finally have "sum_list acc' = sum_list acc + (sum term {i..<i + 8} + sum term {i + 8..<i'})"
      using ih(4) by (simp add: add.assoc)
    then show ?thesis using ih by (simp add: sum.atLeastLessThan_concat)
  next
    case False
    then show ?thesis using "1.prems" by (subst (asm) lane_loop.simps) auto
  qed
qed

lemma hsum256_sum_list:
  fixes acc :: "'a::comm_monoid_add list"
  assumes "length acc = 8" shows "hsum256 acc = sum_list acc"
proof -
  have "sum_list acc = (\<Sum>l<8. acc ! l)" using assms by (simp add: sum_list_sum_nth atLeast0LessThan)
  then show ?thesis using assms by (simp add: hsum256_eq numeral_eq_Suc ac_simps)
qed

lemma foldl_sum:
  fixes "term" :: "nat \<Rightarrow> 'a::comm_monoid_add"
  shows "foldl (\<lambda>res j. res + term j) s [i..<n] = s + sum term {i..<n}"
proof -
  have "foldl (\<lambda>res j. res + term j) s js = s + sum_list (map term js)" for js
    by (induction js arbitrary: s) (simp_all add: add.assoc)
  then show ?thesis by (simp add: interv_sum_list_conv_sum_set_nat)
qed

lemma kernel_sum:
  fixes "term" :: "nat \<Rightarrow> 'a::comm_monoid_add"
  shows "kernel avx term n = sum term {..<n}"
proof (cases avx)
  case True
  obtain i acc where r: "lane_loop term n 0 (replicate 8 0) = (i, acc)" by (cases "lane_loop term n 0 (replicate 8 0)")
  have z: "sum_list (replicate m (0::'a)) = 0" for m by (induction m) auto
  from lane_loop_sum [OF _ r] z have s: "i \<le> n" "length acc = 8" "sum_list acc = sum term {0..<i}" by auto
  then have "kernel avx term n = sum term {0..<i} + sum term {i..<n}"
    using True r by (simp add: kernel_def foldl_sum hsum256_sum_list)
  then show ?thesis using s(1) sum.atLeastLessThan_concat [of 0 i n "term"] by (simp add: atLeast0LessThan)
next
  case False
  then show ?thesis by (simp add: kernel_def foldl_sum atLeast0LessThan)
qed

section \<open>Properties of the kernels\<close>

text \<open>
  The vectorised kernels compute the inner product and the squared Euclidean distance: over a
  commutative ring, whichever loop the build selects, for every length (the tail included).
\<close>

lemma dotProduct_exact:
  fixes a b :: "'a::comm_ring_1 list"
  shows "dotProduct avx a b n = (\<Sum>j<n. a ! j * b ! j)"
  by (simp add: dotProduct_kernel kernel_sum)

lemma l2SquaredDistance_exact:
  fixes a b :: "'a::comm_ring_1 list"
  shows "l2SquaredDistance avx a b n = (\<Sum>j<n. (a ! j - b ! j) ^ 2)"
  by (simp add: l2SquaredDistance_kernel kernel_sum power2_eq_square)

text \<open>
  In floating point the kernels are still symmetric, bit for bit, and the squared distance is
  never negative and is zero from a finite vector to itself.
\<close>

lemma dotProduct_f32_commute: "dotProduct avx a b n = dotProduct avx b (a :: f32 list) n"
  by (simp add: dotProduct_kernel times_f32_def f32_mul_commute)

lemma l2SquaredDistance_f32_commute:
  "l2SquaredDistance avx a b n = l2SquaredDistance avx b (a :: f32 list) n"
proof -
  have "(a ! j - b ! j) * (a ! j - b ! j) = (b ! j - a ! j) * (b ! j - a ! j)" for j
    by (rule f32_square_mag) (rule f32_minus_mag_swap)
  then show ?thesis by (simp add: l2SquaredDistance_kernel)
qed

lemma cosineDistance_f32_commute:
  "cosineDistance avx a b n = cosineDistance avx b (a :: f32 list) n"
  by (simp add: cosineDistance_def dotProduct_f32_commute)

lemma l2SquaredDistance_f32_nonneg: "\<not> l2SquaredDistance avx a b n < (0 :: f32)"
proof -
  have "\<not> f32_sign (l2SquaredDistance avx a b n)"
    unfolding l2SquaredDistance_kernel
    by (rule kernel_all) (simp_all add: f32_square_sign f32_add_sign)
  then show ?thesis by (rule f32_not_less_zero)
qed

lemma l2SquaredDistance_f32_self:
  assumes "\<And>j. j < n \<Longrightarrow> f32_finite (a ! j)"
  shows "l2SquaredDistance avx a a n = (0 :: f32)"
proof -
  have "l2SquaredDistance avx a a n = kernel avx (\<lambda>_. 0) n"
    unfolding l2SquaredDistance_kernel by (rule kernel_cong) (simp add: assms f32_minus_self)
  also have "\<dots> = 0" by (rule kernel_all [of "\<lambda>x. x = 0"]) simp_all
  finally show ?thesis .
qed

text \<open>
  C23: The kernels, with or without AVX and for every length, compute the inner product and the squared
  Euclidean distance over a commutative ring; so the vectorised loop, its horizontal sum and its
  scalar tail agree with the plain loop up to rounding.
\<close>

theorem kernels_exact:
  fixes a b :: "'a::comm_ring_1 list"
  shows "dotProduct avx a b n = (\<Sum>j<n. a ! j * b ! j) \<and> l2SquaredDistance avx a b n = (\<Sum>j<n. (a ! j - b ! j) ^ 2) \<and>
    cosineDistance avx a b n = 1 - (\<Sum>j<n. a ! j * b ! j)"
  by (simp add: dotProduct_exact l2SquaredDistance_exact cosineDistance_def)

text \<open>
  In single precision, with rounding, both distances are symmetric bit for bit, and the squared
  Euclidean distance is never negative (it may be a NaN) and is zero from a finite vector to itself.
\<close>

lemma kernels_f32:
  fixes a b :: "f32 list"
  assumes "\<forall>j < n. f32_finite (a ! j)"
  shows "l2SquaredDistance avx a b n = l2SquaredDistance avx b a n \<and> cosineDistance avx a b n = cosineDistance avx b a n \<and>
    \<not> l2SquaredDistance avx a b n < 0 \<and> l2SquaredDistance avx a a n = 0"
  using l2SquaredDistance_f32_commute cosineDistance_f32_commute l2SquaredDistance_f32_nonneg
    l2SquaredDistance_f32_self [of n a avx] assms by blast

lemma kernels_f32_witness:
  "\<not> l2SquaredDistance True (replicate 9 (F32 0x3F800000)) (replicate 9 (F32 0xC0400000)) 9 < 0"
proof -
  have "f32_finite (F32 0x3F800000)" by code_simp
  then have "\<forall>j < 9. f32_finite (replicate 9 (F32 0x3F800000) ! j)" by simp
  from kernels_f32 [OF this] show ?thesis by blast
qed

end
