(* ===== verification/Prio_Queue.thy ===== *)
theory Prio_Queue
  imports VS_Prelude
begin

text \<open>
  The C++ standard library's \<open>std::priority_queue\<close> and \<open>std::sort\<close>, as
  \<open>include/hnsw.hpp\<close> uses them. A queue is the vector it adapts, kept as a binary heap by
  \<open>push_heap\<close> and \<open>pop_heap\<close>: the hole-based sift-up and the two-phase sift-down (the
  hole goes to a leaf along the larger children, then the value rises) of the GNU library. The
  comparison is a parameter. \<open>std::sort\<close> is a stable insertion sort by the comparison, which
  is any sorting algorithm's result up to the order of equivalent elements.

  The interface is the locale \<open>priority_queue\<close>: pushing and popping act on the multiset of
  elements, unconditionally, and where the comparison is a strict weak order on the elements
  (floats: no NaN among them) the top is a maximal element. Its client lemmas are the two patterns
  the index uses: draining a queue into a sorted list, and keeping the \<open>n\<close> best of a stream.
\<close>

section \<open>The heap algorithms\<close>

fun sift_up :: "('a \<Rightarrow> 'a \<Rightarrow> bool) \<Rightarrow> 'a list \<Rightarrow> nat \<Rightarrow> 'a \<Rightarrow> 'a list" where
  "sift_up lt xs hole v =
     (if 0 < hole \<and> lt (xs ! ((hole - 1) div 2)) v
      then sift_up lt (xs[hole := xs ! ((hole - 1) div 2)]) ((hole - 1) div 2) v
      else xs[hole := v])"

function sift_down :: "('a \<Rightarrow> 'a \<Rightarrow> bool) \<Rightarrow> 'a list \<Rightarrow> nat \<Rightarrow> 'a list \<times> nat" where
  "sift_down lt xs hole =
     (if hole < (length xs - 1) div 2
      then let c = 2 * (hole + 1);
               c' = (if lt (xs ! c) (xs ! (c - 1)) then c - 1 else c)
           in sift_down lt (xs[hole := xs ! c']) c'
      else (xs, hole))"
  by pat_completeness auto
termination
  by (relation "measure (\<lambda>(lt, xs, hole). length xs - hole)")
     (auto split: if_splits)

definition adjust_heap :: "('a \<Rightarrow> 'a \<Rightarrow> bool) \<Rightarrow> 'a list \<Rightarrow> 'a \<Rightarrow> 'a list" where
  "adjust_heap lt xs v =
     (let len = length xs; (ys, hole) = sift_down lt xs 0
      in if even len \<and> 2 * hole + 2 = len
         then sift_up lt (ys[hole := ys ! (2 * hole + 1)]) (2 * hole + 1) v
         else sift_up lt ys hole v)"

definition pq_push :: "('a \<Rightarrow> 'a \<Rightarrow> bool) \<Rightarrow> 'a \<Rightarrow> 'a list \<Rightarrow> 'a list" where
  "pq_push lt x q = sift_up lt (q @ [x]) (length q) x"

definition pq_pop :: "('a \<Rightarrow> 'a \<Rightarrow> bool) \<Rightarrow> 'a list \<Rightarrow> 'a list" where
  "pq_pop lt q = (if 1 < length q then adjust_heap lt (butlast q) (last q) else [])"

definition pq_top :: "'a list \<Rightarrow> 'a" where
  "pq_top q = q ! 0"

text \<open>Pop \<open>n\<close> times, collecting the tops; and insertion of a range into a sorted one.\<close>

fun pq_pops :: "('q \<Rightarrow> 'a) \<Rightarrow> ('q \<Rightarrow> 'q) \<Rightarrow> nat \<Rightarrow> 'q \<Rightarrow> 'a list" where
  "pq_pops tp pop 0 q = []"
| "pq_pops tp pop (Suc n) q = tp q # pq_pops tp pop n (pop q)"

fun insert_by :: "('a \<Rightarrow> 'a \<Rightarrow> bool) \<Rightarrow> 'a \<Rightarrow> 'a list \<Rightarrow> 'a list" where
  "insert_by lt x [] = [x]"
| "insert_by lt x (y # ys) = (if lt y x then y # insert_by lt x ys else x # y # ys)"

fun std_sort :: "('a \<Rightarrow> 'a \<Rightarrow> bool) \<Rightarrow> 'a list \<Rightarrow> 'a list" where
  "std_sort lt [] = []"
| "std_sort lt (x # xs) = insert_by lt x (std_sort lt xs)"

lemma length_pq_pops [simp]: "length (pq_pops tp pop n q) = n"
  by (induction n arbitrary: q) auto

declare sift_up.simps [simp del] sift_down.simps [simp del]

section \<open>Interfaces\<close>

locale weak_order =
  fixes lt :: "'a \<Rightarrow> 'a \<Rightarrow> bool" and ok :: "'a \<Rightarrow> bool"
  assumes lt_asym: "lt x y \<Longrightarrow> \<not> lt y x"
    and not_lt_trans: "ok x \<Longrightarrow> ok y \<Longrightarrow> ok z \<Longrightarrow> \<not> lt x y \<Longrightarrow> \<not> lt y z \<Longrightarrow> \<not> lt x z"

locale priority_queue = weak_order lt ok
  for lt :: "'a \<Rightarrow> 'a \<Rightarrow> bool" and ok :: "'a \<Rightarrow> bool" +
  fixes push :: "'a \<Rightarrow> 'q \<Rightarrow> 'q" and pop :: "'q \<Rightarrow> 'q" and top :: "'q \<Rightarrow> 'a"
    and elems :: "'q \<Rightarrow> 'a multiset" and invar :: "'q \<Rightarrow> bool"
  assumes elems_push: "elems (push x q) = add_mset x (elems q)"
    and elems_pop: "elems q \<noteq> {#} \<Longrightarrow> add_mset (top q) (elems (pop q)) = elems q"
    and invar_push: "invar q \<Longrightarrow> \<forall>y \<in># elems q. ok y \<Longrightarrow> ok x \<Longrightarrow> invar (push x q)"
    and invar_pop: "invar q \<Longrightarrow> \<forall>y \<in># elems q. ok y \<Longrightarrow> elems q \<noteq> {#} \<Longrightarrow> invar (pop q)"
    and top_max: "invar q \<Longrightarrow> \<forall>y \<in># elems q. ok y \<Longrightarrow> x \<in># elems q \<Longrightarrow> \<not> lt (top q) x"
begin

lemma top_in: "elems q \<noteq> {#} \<Longrightarrow> top q \<in># elems q"
  using elems_pop by (metis union_single_eq_member)

lemma size_pop: "elems q \<noteq> {#} \<Longrightarrow> size (elems (pop q)) = size (elems q) - 1"
  using elems_pop by (metis diff_Suc_1 size_add_mset)

lemma lt_trans: "ok x \<Longrightarrow> ok y \<Longrightarrow> ok z \<Longrightarrow> lt x y \<Longrightarrow> lt y z \<Longrightarrow> lt x z"
  using lt_asym not_lt_trans by blast

lemma pops_elems:
  "n \<le> size (elems q) \<Longrightarrow> mset (pq_pops top pop n q) + elems ((pop ^^ n) q) = elems q"
proof (induction n arbitrary: q)
  case (Suc n)
  then have ne: "elems q \<noteq> {#}" by auto
  then have "mset (pq_pops top pop n (pop q)) + elems ((pop ^^ n) (pop q)) = elems (pop q)"
    using Suc size_pop [OF ne] by simp
  then show ?case using elems_pop [OF ne] by (simp add: funpow_swap1)
qed simp

text \<open>
  Popping \<open>n\<close> times yields the \<open>n\<close> largest elements in descending order; what is left
  is below each of them.
\<close>

lemma pops_spec:
  assumes "invar q" "\<forall>y \<in># elems q. ok y" "n \<le> size (elems q)"
  shows "invar ((pop ^^ n) q) \<and>
    sorted_wrt (\<lambda>x y. \<not> lt x y) (pq_pops top pop n q) \<and>
    (\<forall>x \<in> set (pq_pops top pop n q). \<forall>y \<in># elems ((pop ^^ n) q). \<not> lt x y)"
  using assms
proof (induction n arbitrary: q)
  case 0
  then show ?case by simp
next
  case (Suc n)
  then have ne: "elems q \<noteq> {#}" by auto
  note split = elems_pop [OF ne]
  have ok': "\<forall>y \<in># elems (pop q). ok y" using Suc.prems(2) split [symmetric] by auto
  have ih: "invar ((pop ^^ n) (pop q))"
    "sorted_wrt (\<lambda>x y. \<not> lt x y) (pq_pops top pop n (pop q))"
    "\<forall>x \<in> set (pq_pops top pop n (pop q)). \<forall>y \<in># elems ((pop ^^ n) (pop q)). \<not> lt x y"
    using Suc.IH [of "pop q"] ok' invar_pop [OF Suc.prems(1,2) ne] size_pop [OF ne] Suc.prems(3)
    by auto
  have max: "\<not> lt (top q) y" if "y \<in># elems (pop q)" for y
    using top_max [OF Suc.prems(1,2)] that split [symmetric] by simp
  have in_rest: "y \<in># elems (pop q)"
    if "y \<in> set (pq_pops top pop n (pop q)) \<or> y \<in># elems ((pop ^^ n) (pop q))" for y
    using that pops_elems [of n "pop q", symmetric] Suc.prems(3) size_pop [OF ne] by auto
  show ?case using ih max in_rest by (auto simp: funpow_swap1)
qed

lemma drain_elems: "mset (pq_pops top pop (size (elems q)) q) = elems q"
proof -
  let ?n = "size (elems q)"
  have p: "mset (pq_pops top pop ?n q) + elems ((pop ^^ ?n) q) = elems q" by (rule pops_elems) simp
  have "size (mset (pq_pops top pop ?n q)) + size (elems ((pop ^^ ?n) q)) = ?n"
    by (simp only: size_union [symmetric] p)
  then have "size (elems ((pop ^^ ?n) q)) = 0" by simp
  with p show ?thesis by simp
qed

lemma drain_spec:
  assumes "invar q" "\<forall>y \<in># elems q. ok y"
  shows "sorted_wrt (\<lambda>x y. \<not> lt x y) (pq_pops top pop (size (elems q)) q)"
  using pops_spec [OF assms order_refl] by blast

text \<open>
  Keeping the best \<open>n\<close>: \<open>E\<close> are the elements dropped so far, none of them before a kept
  one. A new element that beats the top (or finds room) is pushed, and the top is popped when the
  queue has grown beyond \<open>n\<close>.
\<close>

lemma keep_best:
  assumes inv: "invar q" "\<forall>y \<in># elems q. ok y" "ok x"
    and E: "\<forall>e \<in> E. ok e \<and> (\<forall>y \<in># elems q. \<not> lt e y)"
    and admit: "E = {} \<or> elems q \<noteq> {#} \<and> lt x (top q)"
    and q': "q' = (if n < size (elems (push x q)) then pop (push x q) else push x q)"
  shows "invar q' \<and> (\<forall>e \<in> E \<union> (set_mset (add_mset x (elems q)) - set_mset (elems q')).
    ok e \<and> (\<forall>y \<in># elems q'. \<not> lt e y))"
proof -
  let ?r = "push x q"
  have r: "elems ?r = add_mset x (elems q)" by (rule elems_push)
  have ri: "invar ?r" by (rule invar_push [OF inv])
  have rok: "\<forall>y \<in># elems ?r. ok y" using r inv(2,3) by simp
  have rne: "elems ?r \<noteq> {#}" by (simp add: r)
  have Ex: "\<not> lt e x" if e: "e \<in> E" for e
  proof
    assume l: "lt e x"
    have "elems q \<noteq> {#}" "lt x (top q)" using admit e by auto
    then have "lt e (top q)" using l lt_trans E e inv(2,3) top_in by blast
    then show False using E e top_in [OF \<open>elems q \<noteq> {#}\<close>] by blast
  qed
  have Er: "\<forall>e \<in> E. ok e \<and> (\<forall>y \<in># elems ?r. \<not> lt e y)" using E Ex r by auto
  show ?thesis
  proof (cases "n < size (elems ?r)")
    case False
    then show ?thesis using q' ri Er r by auto
  next
    case True
    then have q'': "q' = pop ?r" using q' by simp
    note split = elems_pop [OF rne]
    have sub: "set_mset (elems (pop ?r)) \<subseteq> set_mset (elems ?r)" using split [symmetric] by auto
    have "ok e \<and> (\<forall>y \<in># elems (pop ?r). \<not> lt e y)"
      if "e \<in># elems ?r" "e \<notin># elems (pop ?r)" for e
    proof -
      have "e = top ?r" using that split [symmetric] by auto
      then show ?thesis using top_in [OF rne] rok top_max [OF ri rok] sub by auto
    qed
    then show ?thesis
      unfolding q'' r [symmetric] using invar_pop [OF ri rok rne] Er sub by blast
  qed
qed

end


section \<open>The heap implements the interface\<close>

lemma mset_move:
  assumes "i < length xs" "j < length xs" "i \<noteq> j"
  shows "mset (xs[i := xs ! j, j := v]) = mset (xs[i := v])"
  using assms by (simp add: mset_update)

lemma length_sift_up [simp]: "length (sift_up lt xs hole v) = length xs"
  by (induction lt xs hole v rule: sift_up.induct) (subst sift_up.simps, auto)

lemma mset_sift_up: "hole < length xs \<Longrightarrow> mset (sift_up lt xs hole v) = mset (xs[hole := v])"
proof (induction lt xs hole v rule: sift_up.induct)
  case (1 lt xs hole v)
  let ?p = "(hole - 1) div 2"
  show ?case
  proof (cases "0 < hole \<and> lt (xs ! ?p) v")
    case True
    then have "mset (sift_up lt xs hole v) = mset (xs[hole := xs ! ?p, ?p := v])"
      using 1 by (subst sift_up.simps) auto
    also have "\<dots> = mset (xs[hole := v])" using "1.prems" True by (intro mset_move) auto
    finally show ?thesis .
  next
    case False
    then show ?thesis by (subst sift_up.simps) auto
  qed
qed

lemma sift_down_mset:
  assumes "hole < length xs" "sift_down lt xs hole = (ys, h)"
  shows "h < length xs \<and> length ys = length xs \<and> mset (ys[h := v]) = mset (xs[hole := v])"
  using assms
proof (induction lt xs hole rule: sift_down.induct)
  case (1 lt xs hole)
  show ?case
  proof (cases "hole < (length xs - 1) div 2")
    case True
    define c where "c = 2 * (hole + 1)"
    define c' where "c' = (if lt (xs ! c) (xs ! (c - 1)) then c - 1 else c)"
    have c': "c' < length xs" "hole < c'" using True by (auto simp: c'_def c_def)
    have "sift_down lt (xs[hole := xs ! c']) c' = (ys, h)"
      using "1.prems"(2) True by (subst (asm) sift_down.simps) (auto simp: Let_def c'_def c_def split: if_splits)
    then have "h < length xs \<and> length ys = length xs \<and> mset (ys[h := v]) = mset (xs[hole := xs ! c', c' := v])"
      using "1.IH" [OF True, of c c'] c' by (simp add: c_def c'_def Let_def)
    then show ?thesis using mset_move [of hole xs c' v] c' "1.prems"(1) by auto
  next
    case False
    then show ?thesis using "1.prems" by (subst (asm) sift_down.simps) auto
  qed
qed

lemma pq_push_mset: "mset (pq_push lt x q) = add_mset x (mset q)"
  by (simp add: pq_push_def mset_sift_up)

lemma adjust_heap_mset:
  assumes "xs \<noteq> []" shows "mset (adjust_heap lt xs v) = mset (xs[0 := v])"
proof -
  obtain ys h where d: "sift_down lt xs 0 = (ys, h)" by (cases "sift_down lt xs 0")
  have m: "h < length xs" "length ys = length xs" "mset (ys[h := v]) = mset (xs[0 := v])"
    using sift_down_mset [OF _ d] assms by auto
  then show ?thesis
    using mset_move [of h ys "2 * h + 1" v] by (simp add: adjust_heap_def d Let_def mset_sift_up)
qed

lemma pq_pop_mset:
  assumes "q \<noteq> []" shows "add_mset (pq_top q) (mset (pq_pop lt q)) = mset q"
proof (cases "1 < length q")
  case True
  then obtain a q' v where q: "q = a # q' @ [v]"
    by (cases q; cases "tl q" rule: rev_cases) auto
  then show ?thesis
    by (simp add: pq_pop_def pq_top_def adjust_heap_mset butlast_append)
next
  case False
  with assms obtain a where "q = [a]" by (cases q) auto
  then show ?thesis by (simp add: pq_pop_def pq_top_def)
qed

lemma length_pq_push [simp]: "length (pq_push lt x q) = Suc (length q)"
  by (simp add: pq_push_def)

lemma length_pq_pop [simp]: "length (pq_pop lt q) = length q - 1"
proof (cases "q = []")
  case False
  from arg_cong [OF pq_pop_mset [OF this, of lt], of size] show ?thesis by simp
qed (simp add: pq_pop_def)

definition parent :: "nat \<Rightarrow> nat" where
  "parent i = (i - 1) div 2"

definition is_heap :: "('a \<Rightarrow> 'a \<Rightarrow> bool) \<Rightarrow> 'a list \<Rightarrow> bool" where
  "is_heap lt xs \<longleftrightarrow> (\<forall>i. 0 < i \<and> i < length xs \<longrightarrow> \<not> lt (xs ! parent i) (xs ! i))"

text \<open>
  A heap with a hole: the order holds along every edge that does not touch the hole, and across
  it from the hole's parent to the hole's children.
\<close>

definition hole_heap :: "('a \<Rightarrow> 'a \<Rightarrow> bool) \<Rightarrow> 'a list \<Rightarrow> nat \<Rightarrow> bool" where
  "hole_heap lt xs h \<longleftrightarrow>
     (\<forall>i. 0 < i \<and> i < length xs \<and> i \<noteq> h \<and> parent i \<noteq> h \<longrightarrow> \<not> lt (xs ! parent i) (xs ! i)) \<and>
     (\<forall>i. 0 < i \<and> i < length xs \<and> parent i = h \<and> 0 < h \<longrightarrow> \<not> lt (xs ! parent h) (xs ! i))"

lemma parent_less: "0 < i \<Longrightarrow> parent i < i"
  by (auto simp: parent_def)

lemma parent_bounds: "0 < i \<Longrightarrow> 2 * parent i + 1 \<le> i \<and> i \<le> 2 * parent i + 2"
  by (auto simp: parent_def)

lemma children: "0 < i \<Longrightarrow> parent i = h \<longleftrightarrow> i = 2 * h + 1 \<or> i = 2 * h + 2"
  by (auto simp: parent_def)

lemma mset_insert_by [simp]: "mset (insert_by lt x ys) = add_mset x (mset ys)"
  by (induction ys) auto

lemma mset_std_sort [simp]: "mset (std_sort lt xs) = mset xs"
  by (induction xs) auto

lemma set_std_sort [simp]: "set (std_sort lt xs) = set xs"
  by (metis mset_std_sort set_mset_mset)

lemma length_std_sort [simp]: "length (std_sort lt xs) = length xs"
  by (metis mset_std_sort size_mset)

context weak_order
begin

lemma sift_up_heap:
  assumes "hole_heap lt xs h" "h < length xs" "\<forall>x \<in> set xs. ok x"
    and okv: "ok v"
    and "\<forall>i. 0 < i \<and> i < length xs \<and> parent i = h \<longrightarrow> \<not> lt v (xs ! i)"
  shows "is_heap lt (sift_up lt xs h v)"
  using assms(1-3,5)
proof (induction h arbitrary: xs rule: less_induct)
  case (less h)
  let ?p = "parent h"
  have ok: "ok (xs ! i)" if "i < length xs" for i using less.prems(3) that by simp
  show ?case
  proof (cases "0 < h \<and> lt (xs ! ?p) v")
    case False
    have "sift_up lt xs h v = xs[h := v]" using False by (subst sift_up.simps) (auto simp: parent_def)
    then show ?thesis
      using less.prems False parent_less [of h] by (auto simp: is_heap_def hole_heap_def nth_list_update)
  next
    case True
    let ?ys = "xs[h := xs ! ?p]"
    have p: "?p < h" "?p < length xs" using True less.prems(2) parent_less [of h] by auto
    have vp: "\<not> lt v (xs ! ?p)" using True lt_asym by blast
    have sib: "\<not> lt (xs ! ?p) (xs ! i)" if "0 < i" "i < length xs" "parent i = ?p" "i \<noteq> h" for i
      using less.prems(1) that p unfolding hole_heap_def by (metis less_irrefl)
    have down: "\<not> lt (xs ! ?p) (xs ! i)" if "0 < i" "i < length xs" "parent i = h" for i
      using less.prems(1) that True unfolding hole_heap_def by blast
    have up: "\<not> lt (xs ! parent ?p) (xs ! ?p)" if "0 < ?p"
      using less.prems(1) that p parent_less [of ?p] unfolding hole_heap_def by (metis less_irrefl less_trans)
    have 1: "hole_heap lt ?ys ?p"
      unfolding hole_heap_def
    proof (intro conjI allI impI)
      fix i assume i: "0 < i \<and> i < length ?ys \<and> i \<noteq> ?p \<and> parent i \<noteq> ?p"
      then have "i \<noteq> h" by auto
      show "\<not> lt (?ys ! parent i) (?ys ! i)"
        using i \<open>i \<noteq> h\<close> down [of i] less.prems(1,2) parent_less [of i]
        by (auto simp: hole_heap_def nth_list_update)
    next
      fix i assume i: "0 < i \<and> i < length ?ys \<and> parent i = ?p \<and> 0 < ?p"
      have "\<not> lt (xs ! parent ?p) (xs ! i)" if "i \<noteq> h"
        using not_lt_trans [OF ok [of "parent ?p"] ok [of ?p] ok [of i] up sib [of i]] i that p parent_less [of ?p] by auto
      then show "\<not> lt (?ys ! parent ?p) (?ys ! i)"
        using i up p parent_less [of ?p] by (cases "i = h") (auto simp: nth_list_update)
    qed
    have 2: "\<forall>i. 0 < i \<and> i < length ?ys \<and> parent i = ?p \<longrightarrow> \<not> lt v (?ys ! i)"
    proof (intro allI impI)
      fix i assume i: "0 < i \<and> i < length ?ys \<and> parent i = ?p"
      show "\<not> lt v (?ys ! i)"
        using i vp sib [of i] not_lt_trans [OF okv ok [of ?p] ok [of i] vp] p less.prems(2)
        by (cases "i = h") auto
    qed
    have 3: "\<forall>x \<in> set ?ys. ok x" using less.prems(3) ok p by (auto dest!: set_update_subset_insert [THEN subsetD])
    have "sift_up lt xs h v = sift_up lt ?ys ?p v" using True by (subst sift_up.simps) (simp add: parent_def)
    then show ?thesis using less.IH [OF p(1) 1 _ 3 2] p by simp
  qed
qed

lemma sift_down_heap:
  assumes "hole_heap lt xs h" "h < length xs" "\<forall>x \<in> set xs. ok x" "sift_down lt xs h = (ys, h')"
  shows "hole_heap lt ys h' \<and> h' < length ys \<and> length ys = length xs \<and> set ys \<subseteq> set xs \<and>
    length ys \<le> 2 * h' + 2"
  using assms
proof (induction "length xs - h" arbitrary: xs h rule: less_induct)
  case less
  have ok: "ok (xs ! i)" if "i < length xs" for i using less.prems(3) that by simp
  show ?case
  proof (cases "h < (length xs - 1) div 2")
    case False
    then have "ys = xs" "h' = h" using less.prems(4) by (subst (asm) sift_down.simps, simp)+
    then show ?thesis using less.prems False by auto
  next
    case True
    define c where "c = (if lt (xs ! (2 * h + 2)) (xs ! (2 * h + 1)) then 2 * h + 1 else 2 * h + 2)"
    let ?ys = "xs[h := xs ! c]"
    have c: "h < c" "c < length xs" "parent c = h" "0 < c" using True by (auto simp: c_def parent_def)
    have other: "\<not> lt (xs ! c) (xs ! i)" if "0 < i" "parent i = h" "i \<noteq> c" for i
      using that lt_asym by (auto simp: c_def children split: if_splits)
    have eq: "sift_down lt ?ys c = (ys, h')"
      using less.prems(4) True by (subst (asm) sift_down.simps) (auto simp: Let_def c_def split: if_splits)
    have H1: "hole_heap lt ?ys c"
      unfolding hole_heap_def
    proof (intro conjI allI impI)
      fix i assume i: "0 < i \<and> i < length ?ys \<and> i \<noteq> c \<and> parent i \<noteq> c"
      show "\<not> lt (?ys ! parent i) (?ys ! i)"
        using i other [of i] less.prems(1,2) c parent_less [of i]
        by (auto simp: hole_heap_def nth_list_update)
    next
      fix i assume i: "0 < i \<and> i < length ?ys \<and> parent i = c \<and> 0 < c"
      then have "i \<noteq> h" using c parent_less [of i] by auto
      then show "\<not> lt (?ys ! parent c) (?ys ! i)"
        using i c less.prems(1,2) by (auto simp: hole_heap_def nth_list_update)
    qed
    have sub: "set ?ys \<subseteq> set xs" using c by (auto dest!: set_update_subset_insert [THEN subsetD])
    have "length ?ys - c < length xs - h" "c < length ?ys" using c by auto
    from less.hyps [OF this(1) H1 this(2) _ eq] show ?thesis
      using sub less.prems(3) by (auto simp: subset_eq)
  qed
qed

lemma leaf_sift_up_heap:
  assumes "hole_heap lt xs h" "h < length xs" "\<forall>x \<in> set xs. ok x" "length xs \<le> 2 * h + 1" "ok v"
  shows "is_heap lt (sift_up lt xs h v)"
proof (rule sift_up_heap [OF assms(1-3,5)], intro allI impI)
  fix i assume "0 < i \<and> i < length xs \<and> parent i = h"
  then show "\<not> lt v (xs ! i)" using parent_bounds [of i] assms(4) by auto
qed

lemma pq_push_heap:
  assumes "is_heap lt q" "\<forall>y \<in> set q. ok y" "ok x"
  shows "is_heap lt (pq_push lt x q)"
  unfolding pq_push_def
proof (rule leaf_sift_up_heap)
  show "hole_heap lt (q @ [x]) (length q)"
    unfolding hole_heap_def
  proof (intro conjI allI impI)
    fix i assume "0 < i \<and> i < length (q @ [x]) \<and> i \<noteq> length q \<and> parent i \<noteq> length q"
    then show "\<not> lt ((q @ [x]) ! parent i) ((q @ [x]) ! i)"
      using assms(1) parent_less [of i] by (auto simp: is_heap_def nth_append)
  next
    fix i assume "0 < i \<and> i < length (q @ [x]) \<and> parent i = length q \<and> 0 < length q"
    then show "\<not> lt ((q @ [x]) ! parent (length q)) ((q @ [x]) ! i)"
      using parent_less [of i] by auto
  qed
qed (use assms in auto)

lemma adjust_heap_heap:
  assumes "hole_heap lt xs 0" "xs \<noteq> []" "\<forall>x \<in> set xs. ok x" "ok v"
  shows "is_heap lt (adjust_heap lt xs v)"
proof -
  obtain ys h where d: "sift_down lt xs 0 = (ys, h)" by (cases "sift_down lt xs 0")
  have m: "hole_heap lt ys h" "h < length ys" "length ys = length xs" "set ys \<subseteq> set xs"
    "length ys \<le> 2 * h + 2"
    using sift_down_heap [OF assms(1) _ assms(3) d] assms(2) by auto
  have ok: "\<forall>x \<in> set ys. ok x" using m(4) assms(3) by auto
  show ?thesis
  proof (cases "2 * h + 2 = length ys")
    case True
    let ?c = "2 * h + 1"
    let ?zs = "ys[h := ys ! ?c]"
    have c: "?c < length ys" "parent ?c = h" using True by (auto simp: parent_def)
    have "hole_heap lt ?zs ?c"
      unfolding hole_heap_def
    proof (intro conjI allI impI)
      fix i assume i: "0 < i \<and> i < length ?zs \<and> i \<noteq> ?c \<and> parent i \<noteq> ?c"
      then have "parent i \<noteq> h" using parent_bounds [of i] True by auto
      then show "\<not> lt (?zs ! parent i) (?zs ! i)"
        using i m(1,2) c parent_less [of i] by (auto simp: hole_heap_def nth_list_update)
    next
      fix i assume "0 < i \<and> i < length ?zs \<and> parent i = ?c \<and> 0 < ?c"
      then show "\<not> lt (?zs ! parent ?c) (?zs ! i)" using parent_bounds [of i] True by auto
    qed
    moreover have "\<forall>x \<in> set ?zs. ok x" using ok c by (auto dest!: set_update_subset_insert [THEN subsetD])
    ultimately have "is_heap lt (sift_up lt ?zs ?c v)" using c True assms(4) by (intro leaf_sift_up_heap) auto
    moreover have "even (length xs)" using True m(3) by (metis dvd_add dvd_refl dvd_triv_left)
    ultimately show ?thesis using True m(3) by (simp add: adjust_heap_def d)
  next
    case False
    then have "is_heap lt (sift_up lt ys h v)" using m ok assms(4) by (intro leaf_sift_up_heap) auto
    then show ?thesis using False m(3) by (simp add: adjust_heap_def d)
  qed
qed

lemma pq_pop_heap:
  assumes "is_heap lt q" "\<forall>y \<in> set q. ok y"
  shows "is_heap lt (pq_pop lt q)"
proof (cases "1 < length q")
  case True
  have "hole_heap lt (butlast q) 0"
    unfolding hole_heap_def
  proof (intro conjI allI impI)
    fix i assume "0 < i \<and> i < length (butlast q) \<and> i \<noteq> 0 \<and> parent i \<noteq> 0"
    then show "\<not> lt (butlast q ! parent i) (butlast q ! i)"
      using assms(1) parent_less [of i] by (auto simp: is_heap_def nth_butlast)
  qed auto
  moreover have "ok (last q)" using True assms(2) by (cases q) auto
  ultimately have "is_heap lt (adjust_heap lt (butlast q) (last q))"
    using True assms(2) by (intro adjust_heap_heap) (auto simp: butlast_conv_take dest: in_set_takeD)
  then show ?thesis using True by (simp add: pq_pop_def)
qed (simp add: pq_pop_def is_heap_def)

lemma pq_top_max:
  assumes "is_heap lt q" "\<forall>y \<in> set q. ok y" "i < length q"
  shows "\<not> lt (pq_top q) (q ! i)"
  using assms(3)
proof (induction i rule: less_induct)
  case (less i)
  show ?case
  proof (cases "i = 0")
    case True
    then show ?thesis using lt_asym by (auto simp: pq_top_def)
  next
    case False
    then have p: "parent i < i" by (simp add: parent_less)
    then have "\<not> lt (pq_top q) (q ! parent i)" using less by simp
    moreover have "\<not> lt (q ! parent i) (q ! i)" using assms(1) less.prems False by (simp add: is_heap_def)
    ultimately show ?thesis using not_lt_trans [of "pq_top q" "q ! parent i" "q ! i"] assms(2) p less.prems
      unfolding pq_top_def by (metis gr_implies_not0 le_less_trans less_trans nth_mem not_gr_zero)
  qed
qed

lemma insert_by_sorted:
  assumes "sorted_wrt (\<lambda>x y. \<not> lt y x) ys" "\<forall>y \<in> set ys. ok y" "ok x"
  shows "sorted_wrt (\<lambda>x y. \<not> lt y x) (insert_by lt x ys)"
  using assms
proof (induction ys)
  case Nil
  then show ?case by simp
next
  case (Cons y ys)
  have s: "set (insert_by lt x ys) = insert x (set ys)" by (induction ys) auto
  show ?case
  proof (cases "lt y x")
    case True
    then show ?thesis using Cons lt_asym s by auto
  next
    case False
    have "\<not> lt z x" if "z \<in> set ys" for z
      using Cons.prems that False not_lt_trans [of z y x] by auto
    then show ?thesis using Cons.prems False by auto
  qed
qed

lemma std_sort_sorted:
  "\<forall>x \<in> set xs. ok x \<Longrightarrow> sorted_wrt (\<lambda>x y. \<not> lt y x) (std_sort lt xs)"
proof (induction xs)
  case (Cons x xs)
  then show ?case using insert_by_sorted [of "std_sort lt xs" x] set_std_sort [of lt xs] by simp
qed simp

end

sublocale weak_order \<subseteq> pq: priority_queue lt ok "pq_push lt" "pq_pop lt" pq_top mset "is_heap lt"
proof unfold_locales
  fix x and q :: "'a list"
  show "mset (pq_push lt x q) = add_mset x (mset q)" by (rule pq_push_mset)
  show "mset q \<noteq> {#} \<Longrightarrow> add_mset (pq_top q) (mset (pq_pop lt q)) = mset q" by (rule pq_pop_mset) simp
  assume h: "is_heap lt q" "\<forall>y \<in># mset q. ok y"
  then show "ok x \<Longrightarrow> is_heap lt (pq_push lt x q)" by (simp add: pq_push_heap)
  show "is_heap lt (pq_pop lt q)" using h by (simp add: pq_pop_heap)
  show "x \<in># mset q \<Longrightarrow> \<not> lt (pq_top q) x" using h pq_top_max [of q] by (auto simp: in_set_conv_nth)
qed

end
