(* ===== verification/Visited.thy ===== *)
theory Visited
  imports VS_Prelude "HOL-Library.Word"
begin

text \<open>
  \<open>VisitedList\<close> and \<open>VisitedListPool\<close> of \<open>include/hnsw.hpp\<close>: the version-stamped
  set of visited nodes and the pool that recycles it. A node is visited when its 16-bit mark equals
  the current stamp; \<open>reset\<close> advances the stamp, and clears the marks when the stamp wraps to
  0. The invariant \<open>vl_ok\<close> (no mark is ahead of the stamp) makes one \<open>reset\<close> empty the
  set in every state, the wrap-around included; \<open>pool_ok\<close> is what the pool keeps of it.

  The locale \<open>visited_set\<close> is the interface the graph search relies on: a finite set over
  \<open>{..<n}\<close> with a combined test and insert.
\<close>

record visited_list =
  vl_marks :: "16 word list"
  vl_cur :: "16 word"

definition VisitedList :: "nat \<Rightarrow> visited_list" where
  "VisitedList n = \<lparr>vl_marks = replicate n 0, vl_cur = 0\<rparr>"

definition reset :: "visited_list \<Rightarrow> visited_list" where
  "reset v =
     (let v' = v\<lparr>vl_cur := vl_cur v + 1\<rparr>
      in if vl_cur v' = 0 then v'\<lparr>vl_marks := replicate (length (vl_marks v')) 0, vl_cur := 1\<rparr> else v')"

definition testAndSet :: "nat \<Rightarrow> visited_list \<Rightarrow> (bool \<times> visited_list) option" where
  "testAndSet i v =
     (case rd (vl_marks v) i of
        None \<Rightarrow> None
      | Some m \<Rightarrow> if m = vl_cur v then Some (True, v)
                  else Some (False, v\<lparr>vl_marks := (vl_marks v)[i := vl_cur v]\<rparr>))"

record visited_pool =
  vp_pool :: "visited_list list"
  vp_n :: nat

definition VisitedListPool :: "nat \<Rightarrow> nat \<Rightarrow> visited_pool" where
  "VisitedListPool initial n = \<lparr>vp_pool = replicate initial (VisitedList n), vp_n = n\<rparr>"

definition acquire :: "visited_pool \<Rightarrow> visited_list \<times> visited_pool" where
  "acquire p =
     (if vp_pool p = [] then (VisitedList (vp_n p), p)
      else (reset (last (vp_pool p)), p\<lparr>vp_pool := butlast (vp_pool p)\<rparr>))"

definition release :: "visited_list \<Rightarrow> visited_pool \<Rightarrow> visited_pool" where
  "release v p = p\<lparr>vp_pool := vp_pool p @ [v]\<rparr>"

section \<open>The set a visited list represents\<close>

definition visited :: "visited_list \<Rightarrow> nat set" where
  "visited v = {i. i < length (vl_marks v) \<and> vl_marks v ! i = vl_cur v}"

definition vl_ok :: "nat \<Rightarrow> visited_list \<Rightarrow> bool" where
  "vl_ok n v \<longleftrightarrow> length (vl_marks v) = n \<and> (\<forall>m \<in> set (vl_marks v). m \<le> vl_cur v)"

definition pool_ok :: "visited_pool \<Rightarrow> bool" where
  "pool_ok p \<longleftrightarrow> (\<forall>v \<in> set (vp_pool p). vl_ok (vp_n p) v)"

definition unvisited :: "visited_list \<Rightarrow> nat" where
  "unvisited v = length (filter (\<lambda>m. m \<noteq> vl_cur v) (vl_marks v))"

lemma vl_ok_new [simp]: "vl_ok n (VisitedList n)"
  by (simp add: vl_ok_def VisitedList_def)

lemma reset_cases:
  "vl_cur v + 1 = 0 \<Longrightarrow> reset v = v\<lparr>vl_marks := replicate (length (vl_marks v)) 0, vl_cur := 1\<rparr>"
  "vl_cur v + 1 \<noteq> 0 \<Longrightarrow> reset v = v\<lparr>vl_cur := vl_cur v + 1\<rparr>"
  by (simp_all add: reset_def Let_def)

lemma stamp_grows:
  fixes c :: "16 word"
  assumes "c + 1 \<noteq> 0" "m \<le> c" shows "m < c + 1"
proof -
  have "unat (c + 1) = Suc (unat c)" using assms(1) by (metis add.commute unatSuc)
  then show ?thesis using assms(2) by (simp add: word_less_nat_alt word_le_nat_alt)
qed

lemma reset_ok [simp]:
  assumes "vl_ok n v" shows "vl_ok n (reset v)"
proof (cases "vl_cur v + 1 = 0")
  case True
  then show ?thesis using assms by (simp add: reset_cases vl_ok_def)
next
  case False
  then have "m \<le> vl_cur v + 1" if "m \<in> set (vl_marks v)" for m
    using assms that stamp_grows [OF False, of m] by (simp add: vl_ok_def)
  then show ?thesis using assms False by (simp add: reset_cases vl_ok_def)
qed

lemma visited_reset [simp]:
  assumes "vl_ok n v" shows "visited (reset v) = {}"
proof (cases "vl_cur v + 1 = 0")
  case True
  then show ?thesis by (auto simp: reset_cases visited_def)
next
  case False
  have "vl_marks v ! i \<noteq> vl_cur v + 1" if "i < length (vl_marks v)" for i
    using stamp_grows [OF False] assms that by (metis less_irrefl nth_mem vl_ok_def)
  then show ?thesis using False by (auto simp: reset_cases visited_def)
qed

lemma testAndSet_eq:
  assumes "vl_ok n v" "i < n"
  shows "testAndSet i v = Some (i \<in> visited v, if i \<in> visited v then v else v\<lparr>vl_marks := (vl_marks v)[i := vl_cur v]\<rparr>)"
  using assms by (simp add: testAndSet_def rd_def vl_ok_def visited_def)

lemma testAndSet_spec:
  assumes "vl_ok n v" "i < n"
  shows "\<exists>v'. testAndSet i v = Some (i \<in> visited v, v') \<and> vl_ok n v' \<and> visited v' = insert i (visited v)"
proof (cases "i \<in> visited v")
  case True
  then show ?thesis using assms testAndSet_eq [OF assms] by auto
next
  case False
  let ?v = "v\<lparr>vl_marks := (vl_marks v)[i := vl_cur v]\<rparr>"
  have "vl_ok n ?v"
    using assms by (auto simp: vl_ok_def dest!: set_update_subset_insert [THEN subsetD])
  moreover have "visited ?v = insert i (visited v)"
    using assms by (auto simp: visited_def vl_ok_def nth_list_update)
  ultimately show ?thesis using False testAndSet_eq [OF assms] by auto
qed

lemma testAndSet_unvisited:
  assumes "testAndSet i v = Some (seen, v')"
  shows "if seen then unvisited v' = unvisited v else Suc (unvisited v') = unvisited v"
proof (cases seen)
  case True
  then show ?thesis using assms by (auto simp: testAndSet_def split: option.splits if_splits)
next
  case False
  then have i: "i < length (vl_marks v)" "vl_marks v ! i \<noteq> vl_cur v"
    and v': "v' = v\<lparr>vl_marks := (vl_marks v)[i := vl_cur v]\<rparr>"
    using assms by (auto simp: testAndSet_def rd_def split: option.splits if_splits)
  have "vl_marks v = take i (vl_marks v) @ vl_marks v ! i # drop (Suc i) (vl_marks v)"
    using i(1) by (rule id_take_nth_drop)
  then have "unvisited v = length (filter (\<lambda>m. m \<noteq> vl_cur v) (take i (vl_marks v) @ vl_marks v ! i # drop (Suc i) (vl_marks v)))"
    by (simp add: unvisited_def)
  then show ?thesis
    using False i v' by (simp add: unvisited_def upd_conv_take_nth_drop)
qed

section \<open>The pool\<close>

lemma acquire_ok:
  assumes "pool_ok p" "acquire p = (v, p')"
  shows "vl_ok (vp_n p) v \<and> pool_ok p' \<and> vp_n p' = vp_n p"
  using assms by (auto simp: acquire_def pool_ok_def split: if_splits dest!: in_set_butlastD)

lemma release_ok: "pool_ok p \<Longrightarrow> vl_ok (vp_n p) v \<Longrightarrow> pool_ok (release v p)"
  by (simp add: pool_ok_def release_def)

lemma vp_n_release [simp]: "vp_n (release v p) = vp_n p"
  by (simp add: release_def)

lemma pool_ok_new [simp]: "pool_ok (VisitedListPool k n)"
  by (simp add: pool_ok_def VisitedListPool_def)

text \<open>
  The interface of the visited set: after a reset it is empty, whatever was recycled, and a test
  answers whether the node was inserted since. The second reset that \<open>searchLayer\<close> does after
  \<open>acquire\<close> is what makes a freshly constructed list (marks and stamp both 0) usable.
\<close>

locale visited_set =
  fixes n :: nat and ok :: "'v \<Rightarrow> bool" and clear :: "'v \<Rightarrow> 'v"
    and test_set :: "nat \<Rightarrow> 'v \<Rightarrow> (bool \<times> 'v) option" and abs :: "'v \<Rightarrow> nat set"
  assumes clear_ok: "ok v \<Longrightarrow> ok (clear v) \<and> abs (clear v) = {}"
    and test_set: "ok v \<Longrightarrow> i < n \<Longrightarrow>
      \<exists>v'. test_set i v = Some (i \<in> abs v, v') \<and> ok v' \<and> abs v' = insert i (abs v)"
begin

text \<open>Marking a list of nodes one after the other marks exactly these.\<close>

lemma mark_all:
  assumes "ok v" "\<forall>i \<in> set is. i < n"
  shows "\<exists>v'. foldM (\<lambda>v i. map_option snd (test_set i v)) (clear v) is = Some v' \<and> ok v' \<and> abs v' = set is"
proof -
  have "ok (clear v)" "abs (clear v) = {}" using clear_ok [OF assms(1)] by auto
  then show ?thesis
  proof (intro foldM_rule [where P = "\<lambda>ys v. ok v \<and> abs v = set ys"])
    fix ys i zs v assume "is = ys @ i # zs" "ok v \<and> abs v = set ys"
    then show "\<exists>v'. map_option snd (test_set i v) = Some v' \<and> ok v' \<and> abs v' = set (ys @ [i])"
      using test_set [of v i] assms(2) by auto
  qed simp
qed

end

interpretation vl: visited_set n "vl_ok n" reset testAndSet visited for n
  by unfold_locales (simp_all add: testAndSet_spec)

text \<open>
  C22: Whatever a recycled visited list holds, also when its 16-bit stamp is about to wrap, after a
  \<open>reset\<close> a node tests as visited exactly if it has been marked since.
\<close>

theorem reset_then_marks:
  assumes "vl_ok n v" "\<forall>i \<in> set is. i < n" "j < n"
  shows "\<exists>v1 v2. foldM (\<lambda>v i. map_option snd (testAndSet i v)) (reset v) is = Some v1 \<and>
    testAndSet j v1 = Some (j \<in> set is, v2) \<and> vl_ok n v2"
proof -
  obtain v1 where "foldM (\<lambda>v i. map_option snd (testAndSet i v)) (reset v) is = Some v1" "vl_ok n v1" "visited v1 = set is"
    using vl.mark_all [OF assms(1,2)] by blast
  then show ?thesis using vl.test_set [OF _ assms(3), of v1] by auto
qed

theorem reset_then_marks_witness:
  "\<exists>v1 v2. foldM (\<lambda>v i. map_option snd (testAndSet i v)) (reset \<lparr>vl_marks = [65535, 1], vl_cur = 65535\<rparr>) [1] = Some v1 \<and>
    testAndSet 0 v1 = Some (False, v2)"
proof -
  have "vl_ok 2 \<lparr>vl_marks = [65535, 1], vl_cur = 65535\<rparr>" by code_simp
  from reset_then_marks [OF this, of "[1]" 0] show ?thesis by auto
qed

end
