(* ===== verification/Hnsw_Index.thy ===== *)
theory Hnsw_Index
  imports Distance Prio_Queue Visited
begin

text \<open>
  The state of \<open>hnsw::Index\<close> (\<open>include/hnsw.hpp\<close>) and its elementary operations: the
  constructor, the flat arrays behind the vectors and the adjacency lists, labels, soft deletes and
  the size queries. The fields keep the class's names with the prefix \<open>ix\<close>. Sizes and ids are
  natural numbers; the places where \<open>size_t\<close> or \<open>uint32_t\<close> can wrap are written out.
  Locks are not part of the state: an operation is one atomic step. \<open>ix_avx\<close> records whether
  the build defines \<open>__AVX__\<close>.

  \<open>blk\<close> and \<open>adj\<close> are the adjacency block and list of a node at a level as pure
  functions; \<open>wf_ix\<close> is the invariant of the class, in five parts (array shapes, graph, entry
  point, labels, tombstones) plus the state of the slots not yet used.
\<close>

section \<open>Types\<close>

record label =
  clientId :: "64 word"
  label_no :: "64 word"

datatype space = Cosine | L2

datatype exn = Invalid_argument string | Runtime_error string | Bad_alloc

type_synonym cand = "f32 \<times> nat"

record index =
  ix_space :: space
  ix_dim :: nat
  ix_maxElements :: nat
  ix_M :: nat
  ix_maxM :: nat
  ix_maxM0 :: nat
  ix_efConstruction :: nat
  ix_strideL0 :: nat
  ix_strideUpper :: nat
  ix_data :: "f32 list"
  ix_levels :: "int list"
  ix_labels :: "label list"
  ix_deleted :: "8 word list"
  ix_linksL0 :: "nat list"
  ix_linksUpper :: "nat list list"
  ix_count :: nat
  ix_numDeleted :: nat
  ix_entryPoint :: nat
  ix_maxLevel :: int
  ix_labelToId :: "label \<Rightarrow> nat option"
  ix_visitedPool :: visited_pool
  ix_avx :: bool

definition kMaxDegree :: nat where "kMaxDegree = 256"
definition kNone :: nat where "kNone = 2 ^ 32 - 1"

definition Label :: "64 word \<Rightarrow> 64 word \<Rightarrow> label" where
  "Label c l = \<lparr>clientId = c, label_no = l\<rparr>"

definition label_eq :: "label \<Rightarrow> label \<Rightarrow> bool" where
  "label_eq a b \<longleftrightarrow> clientId a = clientId b \<and> label_no a = label_no b"

text \<open>Multiplication of \<open>size_t\<close>.\<close>

definition mul_sz :: "nat \<Rightarrow> nat \<Rightarrow> nat" where
  "mul_sz a b = (a * b) mod 2 ^ 64"

section \<open>Construction\<close>

definition Index :: "bool \<Rightarrow> space \<Rightarrow> nat \<Rightarrow> nat \<Rightarrow> nat \<Rightarrow> nat \<Rightarrow> exn + index" where
  "Index avx space dim maxElements M efConstruction =
     (if dim = 0 then Inl (Invalid_argument ''dim must be > 0'')
      else if maxElements = 0 then Inl (Invalid_argument ''maxElements must be > 0'')
      else if M = 0 \<or> kMaxDegree < mul_sz M 2
        then Inl (Invalid_argument ''M must be in 1..kMaxDegree/2'')
      else let maxM0 = mul_sz M 2; strideL0 = (maxM0 + 1) mod 2 ^ 64; strideUpper = (M + 1) mod 2 ^ 64
        in Inr \<lparr>ix_space = space, ix_dim = dim, ix_maxElements = maxElements,
             ix_M = M, ix_maxM = M, ix_maxM0 = maxM0, ix_efConstruction = max efConstruction M,
             ix_strideL0 = strideL0, ix_strideUpper = strideUpper,
             ix_data = replicate (mul_sz maxElements dim) 0,
             ix_levels = replicate maxElements 0,
             ix_labels = replicate maxElements (Label 0 0),
             ix_deleted = replicate maxElements 0,
             ix_linksL0 = replicate (mul_sz maxElements strideL0) 0,
             ix_linksUpper = replicate maxElements [],
             ix_count = 0, ix_numDeleted = 0, ix_entryPoint = kNone, ix_maxLevel = 0,
             ix_labelToId = Map.empty,
             ix_visitedPool = VisitedListPool 1 maxElements, ix_avx = avx\<rparr>)"

section \<open>Arena and adjacency blocks\<close>

definition getData :: "index \<Rightarrow> nat \<Rightarrow> f32 list option" where
  "getData ix nid = rd_range (ix_data ix) (nid * ix_dim ix) (ix_dim ix)"

text \<open>
  \<open>linkBlock\<close> returns a pointer into \<open>linksL0_\<close> or into the node's own vector: the
  model returns the memory from there on. \<open>linkStore\<close> is an assignment through that pointer.
\<close>

definition linkBlock :: "index \<Rightarrow> nat \<Rightarrow> int \<Rightarrow> nat list option" where
  "linkBlock ix nid level =
     (if level = 0
      then (let off = nid * ix_strideL0 ix
            in if off \<le> length (ix_linksL0 ix) then Some (drop off (ix_linksL0 ix)) else None)
      else case rd (ix_linksUpper ix) nid of None \<Rightarrow> None
         | Some v \<Rightarrow> let off = nat (level - 1) * ix_strideUpper ix
                     in if 0 < level \<and> off \<le> length v then Some (drop off v) else None)"

definition linkStore :: "index \<Rightarrow> nat \<Rightarrow> int \<Rightarrow> nat \<Rightarrow> nat \<Rightarrow> index option" where
  "linkStore ix nid level k v =
     (if level = 0
      then map_option (\<lambda>l. ix\<lparr>ix_linksL0 := l\<rparr>) (wr (ix_linksL0 ix) (nid * ix_strideL0 ix + k) v)
      else case rd (ix_linksUpper ix) nid of None \<Rightarrow> None
         | Some u \<Rightarrow> if level < 0 then None
             else map_option (\<lambda>l. ix\<lparr>ix_linksUpper := (ix_linksUpper ix)[nid := l]\<rparr>)
                    (wr u (nat (level - 1) * ix_strideUpper ix + k) v))"

definition maxDegree :: "index \<Rightarrow> int \<Rightarrow> nat" where
  "maxDegree ix level = (if level = 0 then ix_maxM0 ix else ix_maxM ix)"

definition setLinks :: "index \<Rightarrow> nat \<Rightarrow> int \<Rightarrow> nat list \<Rightarrow> index option" where
  "setLinks ix nid level ns =
     (let n = min (length ns) (maxDegree ix level)
      in case linkStore ix nid level 0 (n mod 2 ^ 32) of None \<Rightarrow> None
         | Some ix' \<Rightarrow> foldM (\<lambda>ix i. linkStore ix nid level (i + 1) (ns ! i)) ix' [0..<n])"

section \<open>Distances\<close>

definition normalizeInPlace :: "index \<Rightarrow> f32 list \<Rightarrow> f32 list" where
  "normalizeInPlace ix v =
     (let norm = f32_sqrt (dotProduct (ix_avx ix) v v (ix_dim ix))
      in if norm \<le> F32 0x0DA24260 then v
         else let inv = f32_div 1 norm in map (\<lambda>x. x * inv) v)"

definition rawDistance :: "index \<Rightarrow> f32 list \<Rightarrow> f32 list \<Rightarrow> f32" where
  "rawDistance ix a b =
     (case ix_space ix of Cosine \<Rightarrow> cosineDistance (ix_avx ix) a b (ix_dim ix)
                        | L2 \<Rightarrow> l2SquaredDistance (ix_avx ix) a b (ix_dim ix))"

definition distance :: "index \<Rightarrow> f32 list \<Rightarrow> nat \<Rightarrow> f32 option" where
  "distance ix q target = map_option (rawDistance ix q) (getData ix target)"

section \<open>Soft deletes and sizes\<close>

definition markDeleted :: "index \<Rightarrow> label \<Rightarrow> (bool \<times> index) option" where
  "markDeleted ix label =
     (case ix_labelToId ix label of
        None \<Rightarrow> Some (False, ix)
      | Some nid \<Rightarrow>
          (case rd (ix_deleted ix) nid of
             None \<Rightarrow> None
           | Some d \<Rightarrow> if d \<noteq> 0 then Some (False, ix)
               else Some (True, ix\<lparr>ix_deleted := (ix_deleted ix)[nid := 1],
                                   ix_numDeleted := (ix_numDeleted ix + 1) mod 2 ^ 64\<rparr>)))"

definition unmarkDeleted :: "index \<Rightarrow> label \<Rightarrow> (bool \<times> index) option" where
  "unmarkDeleted ix label =
     (case ix_labelToId ix label of
        None \<Rightarrow> Some (False, ix)
      | Some nid \<Rightarrow>
          (case rd (ix_deleted ix) nid of
             None \<Rightarrow> None
           | Some d \<Rightarrow> if d = 0 then Some (False, ix)
               else Some (True, ix\<lparr>ix_deleted := (ix_deleted ix)[nid := 0],
                                   ix_numDeleted := (ix_numDeleted ix + (2 ^ 64 - 1)) mod 2 ^ 64\<rparr>)))"

definition size_ix :: "index \<Rightarrow> nat" where "size_ix ix = ix_count ix"

definition activeSize :: "index \<Rightarrow> nat" where
  "activeSize ix = (ix_count ix + (2 ^ 64 - ix_numDeleted ix)) mod 2 ^ 64"

definition memoryBytes :: "index \<Rightarrow> nat" where
  "memoryBytes ix =
     foldl (\<lambda>b v. (b + length v * 4) mod 2 ^ 64)
       ((length (ix_data ix) * 4 + length (ix_linksL0 ix) * 4) mod 2 ^ 64) (ix_linksUpper ix)"

section \<open>The pure view and the invariant\<close>

definition vec :: "index \<Rightarrow> nat \<Rightarrow> f32 list" where
  "vec ix i = block (ix_dim ix) (ix_data ix) i"

definition lvl :: "index \<Rightarrow> nat \<Rightarrow> int" where
  "lvl ix i = ix_levels ix ! i"

definition stride :: "index \<Rightarrow> int \<Rightarrow> nat" where
  "stride ix l = (if l = 0 then ix_strideL0 ix else ix_strideUpper ix)"

definition blk :: "index \<Rightarrow> nat \<Rightarrow> int \<Rightarrow> nat list" where
  "blk ix i l = (if l = 0 then block (ix_strideL0 ix) (ix_linksL0 ix) i
                 else block (ix_strideUpper ix) (ix_linksUpper ix ! i) (nat (l - 1)))"

definition adj :: "index \<Rightarrow> nat \<Rightarrow> int \<Rightarrow> nat list" where
  "adj ix i l = take (blk ix i l ! 0) (drop 1 (blk ix i l))"

definition dist :: "index \<Rightarrow> f32 list \<Rightarrow> nat \<Rightarrow> f32" where
  "dist ix q i = rawDistance ix q (vec ix i)"

definition is_del :: "index \<Rightarrow> nat \<Rightarrow> bool" where
  "is_del ix i \<longleftrightarrow> ix_deleted ix ! i \<noteq> 0"

definition shape :: "index \<Rightarrow> bool" where
  "shape ix \<longleftrightarrow>
     0 < ix_dim ix \<and> 0 < ix_maxElements ix \<and> 0 < ix_M ix \<and> ix_M ix \<le> 128 \<and> ix_maxM ix = ix_M ix \<and> ix_maxM0 ix = ix_M ix * 2 \<and>
     ix_M ix \<le> ix_efConstruction ix \<and>
     ix_strideL0 ix = ix_maxM0 ix + 1 \<and> ix_strideUpper ix = ix_maxM ix + 1 \<and>
     ix_maxElements ix < 2 ^ 32 \<and> ix_count ix \<le> ix_maxElements ix \<and>
     length (ix_data ix) = ix_maxElements ix * ix_dim ix \<and>
     length (ix_levels ix) = ix_maxElements ix \<and> length (ix_labels ix) = ix_maxElements ix \<and>
     length (ix_deleted ix) = ix_maxElements ix \<and>
     length (ix_linksL0 ix) = ix_maxElements ix * ix_strideL0 ix \<and>
     length (ix_linksUpper ix) = ix_maxElements ix \<and>
     pool_ok (ix_visitedPool ix) \<and> vp_n (ix_visitedPool ix) = ix_maxElements ix \<and>
     (\<forall>i < ix_count ix. 0 \<le> lvl ix i \<and>
        length (ix_linksUpper ix ! i) = nat (lvl ix i) * ix_strideUpper ix)"

text \<open>A node \<open>i\<close> is present at level \<open>l\<close>.\<close>

definition node :: "index \<Rightarrow> int \<Rightarrow> nat \<Rightarrow> bool" where
  "node ix l i \<longleftrightarrow> i < ix_count ix \<and> 0 \<le> l \<and> l \<le> lvl ix i"

definition links_ok :: "index \<Rightarrow> nat \<Rightarrow> int \<Rightarrow> bool" where
  "links_ok ix i l \<longleftrightarrow> blk ix i l ! 0 \<le> maxDegree ix l \<and> distinct (adj ix i l) \<and>
     (\<forall>j \<in> set (adj ix i l). node ix l j \<and> j \<noteq> i)"

definition graph_ok :: "index \<Rightarrow> bool" where
  "graph_ok ix \<longleftrightarrow> (\<forall>i l. node ix l i \<longrightarrow> links_ok ix i l)"

definition entry_ok :: "index \<Rightarrow> bool" where
  "entry_ok ix \<longleftrightarrow>
     (if ix_count ix = 0 then ix_entryPoint ix = kNone
      else ix_entryPoint ix < ix_count ix \<and> lvl ix (ix_entryPoint ix) = ix_maxLevel ix \<and>
           (\<forall>i < ix_count ix. lvl ix i \<le> ix_maxLevel ix))"

definition labels_ok :: "index \<Rightarrow> bool" where
  "labels_ok ix \<longleftrightarrow>
     (\<forall>lab i. ix_labelToId ix lab = Some i \<longleftrightarrow> i < ix_count ix \<and> ix_labels ix ! i = lab)"

definition deleted_ok :: "index \<Rightarrow> bool" where
  "deleted_ok ix \<longleftrightarrow> ix_numDeleted ix = card {i. i < ix_count ix \<and> is_del ix i}"

definition unused_ok :: "index \<Rightarrow> bool" where
  "unused_ok ix \<longleftrightarrow>
     (\<forall>i. ix_count ix \<le> i \<and> i < ix_maxElements ix \<longrightarrow>
        vec ix i = replicate (ix_dim ix) 0 \<and> lvl ix i = 0 \<and> ix_labels ix ! i = Label 0 0 \<and>
        ix_deleted ix ! i = 0 \<and> blk ix i 0 = replicate (ix_strideL0 ix) 0 \<and> ix_linksUpper ix ! i = [])"

definition wf_ix :: "index \<Rightarrow> bool" where
  "wf_ix ix \<longleftrightarrow> shape ix \<and> graph_ok ix \<and> entry_ok ix \<and> labels_ok ix \<and> deleted_ok ix \<and> unused_ok ix"

lemmas wf_ix_parts = wf_ix_def shape_def graph_ok_def entry_ok_def labels_ok_def deleted_ok_def unused_ok_def

text \<open>The parameters fixed at construction.\<close>

definition config :: "index \<Rightarrow> space \<times> bool \<times> nat \<times> nat \<times> nat \<times> nat" where
  "config ix = (ix_space ix, ix_avx ix, ix_dim ix, ix_maxElements ix, ix_M ix, ix_efConstruction ix)"

lemma config_cong:
  assumes "config ix' = config ix"
  shows "ix_dim ix' = ix_dim ix" "ix_maxElements ix' = ix_maxElements ix" "rawDistance ix' = rawDistance ix"
    "normalizeInPlace ix' = normalizeInPlace ix" "ix_space ix' = ix_space ix"
  using assms by (simp_all add: config_def fun_eq_iff rawDistance_def normalizeInPlace_def split: space.split)

section \<open>Checked access under the invariant\<close>

lemma nodeD: "node ix l i \<Longrightarrow> i < ix_count ix" "node ix l i \<Longrightarrow> 0 \<le> l" "node ix l i \<Longrightarrow> l \<le> lvl ix i"
  by (simp_all add: node_def)

lemma node_mono: "node ix l i \<Longrightarrow> 0 \<le> m \<Longrightarrow> m \<le> l \<Longrightarrow> node ix m i"
  by (simp add: node_def)

lemma shapeD:
  assumes "shape ix"
  shows "length (ix_data ix) = ix_maxElements ix * ix_dim ix"
    "length (ix_levels ix) = ix_maxElements ix" "length (ix_labels ix) = ix_maxElements ix"
    "length (ix_deleted ix) = ix_maxElements ix"
    "length (ix_linksL0 ix) = ix_maxElements ix * ix_strideL0 ix"
    "length (ix_linksUpper ix) = ix_maxElements ix" "ix_count ix \<le> ix_maxElements ix"
    "pool_ok (ix_visitedPool ix)" "vp_n (ix_visitedPool ix) = ix_maxElements ix"
    "ix_maxElements ix < 2 ^ 32"
  using assms by (simp_all add: shape_def)

lemma node_maxElements: "shape ix \<Longrightarrow> node ix l i \<Longrightarrow> i < ix_maxElements ix"
  by (simp add: shape_def node_def)

lemma getData_vec [checked_simps]:
  assumes "shape ix" "i < ix_maxElements ix"
  shows "getData ix i = Some (vec ix i)" "length (vec ix i) = ix_dim ix"
  using assms block_bound [of i "ix_maxElements ix" "ix_dim ix"]
  by (auto simp: shape_def getData_def vec_def rd_range_def block_def)

lemma distance_dist [checked_simps]:
  "shape ix \<Longrightarrow> i < ix_maxElements ix \<Longrightarrow> distance ix q i = Some (dist ix q i)"
  by (simp add: distance_def dist_def getData_vec)

lemma upper_bound:
  assumes "shape ix" "node ix l i" "l \<noteq> 0"
  shows "nat (l - 1) < nat (lvl ix i)" "i < length (ix_linksUpper ix)" "0 < l"
    "length (ix_linksUpper ix ! i) = nat (lvl ix i) * ix_strideUpper ix"
  using assms by (auto simp: shape_def node_def)

lemma length_blk:
  assumes "shape ix" "node ix l i" shows "length (blk ix i l) = stride ix l"
proof (cases "l = 0")
  case True
  then show ?thesis
    using length_block [OF node_maxElements [OF assms] shapeD(5) [OF assms(1)]] by (simp add: blk_def stride_def)
next
  case False
  note u = upper_bound [OF assms False]
  show ?thesis using False length_block [OF u(1,4)] by (simp add: blk_def stride_def)
qed

lemma stride_maxDegree: "shape ix \<Longrightarrow> stride ix l = maxDegree ix l + 1"
  by (simp add: stride_def maxDegree_def shape_def)

lemma maxDegree_pos: "shape ix \<Longrightarrow> ix_M ix \<le> maxDegree ix l \<and> 0 < ix_M ix \<and> maxDegree ix l \<le> kMaxDegree"
  by (auto simp: maxDegree_def shape_def kMaxDegree_def)

lemma linkBlock_blk:
  assumes "shape ix" "node ix l i"
  obtains rest where "linkBlock ix i l = Some (blk ix i l @ rest)"
proof (cases "l = 0")
  case True
  let ?s = "ix_strideL0 ix"
  have "i * ?s + ?s \<le> length (ix_linksL0 ix)"
    using node_maxElements [OF assms] assms(1) block_bound [of i "ix_maxElements ix" ?s] by (simp add: shape_def)
  then have "linkBlock ix i l = Some (blk ix i l @ drop ?s (drop (i * ?s) (ix_linksL0 ix)))"
    using True by (simp add: linkBlock_def blk_def block_def del: drop_drop)
  then show ?thesis by (rule that)
next
  case False
  let ?s = "ix_strideUpper ix" and ?v = "ix_linksUpper ix ! i"
  note u = upper_bound [OF assms False]
  have "nat (l - 1) * ?s \<le> length ?v" using u block_bound [of "nat (l - 1)" "nat (lvl ix i)" ?s] by linarith
  then have "linkBlock ix i l = Some (blk ix i l @ drop ?s (drop (nat (l - 1) * ?s) ?v))"
    using False u(2,3) by (simp add: linkBlock_def blk_def block_def rd_def del: drop_drop)
  then show ?thesis by (rule that)
qed

text \<open>Writing one cell is replacing one block by an updated one; all other blocks stay.\<close>

definition set_blk :: "index \<Rightarrow> nat \<Rightarrow> int \<Rightarrow> nat list \<Rightarrow> index" where
  "set_blk ix i l b =
     (if l = 0 then ix\<lparr>ix_linksL0 := put_block (ix_strideL0 ix) (ix_linksL0 ix) i b\<rparr>
      else ix\<lparr>ix_linksUpper := (ix_linksUpper ix)[i :=
             put_block (ix_strideUpper ix) (ix_linksUpper ix ! i) (nat (l - 1)) b]\<rparr>)"

lemma set_blk_fields [simp]:
  "ix_space (set_blk ix i l b) = ix_space ix" "ix_dim (set_blk ix i l b) = ix_dim ix"
  "ix_maxElements (set_blk ix i l b) = ix_maxElements ix" "ix_M (set_blk ix i l b) = ix_M ix"
  "ix_maxM (set_blk ix i l b) = ix_maxM ix" "ix_maxM0 (set_blk ix i l b) = ix_maxM0 ix"
  "ix_efConstruction (set_blk ix i l b) = ix_efConstruction ix"
  "ix_strideL0 (set_blk ix i l b) = ix_strideL0 ix" "ix_strideUpper (set_blk ix i l b) = ix_strideUpper ix"
  "ix_data (set_blk ix i l b) = ix_data ix" "ix_levels (set_blk ix i l b) = ix_levels ix"
  "ix_labels (set_blk ix i l b) = ix_labels ix" "ix_deleted (set_blk ix i l b) = ix_deleted ix"
  "ix_count (set_blk ix i l b) = ix_count ix" "ix_numDeleted (set_blk ix i l b) = ix_numDeleted ix"
  "ix_entryPoint (set_blk ix i l b) = ix_entryPoint ix" "ix_maxLevel (set_blk ix i l b) = ix_maxLevel ix"
  "ix_labelToId (set_blk ix i l b) = ix_labelToId ix"
  "ix_visitedPool (set_blk ix i l b) = ix_visitedPool ix" "ix_avx (set_blk ix i l b) = ix_avx ix"
  by (simp_all add: set_blk_def)

lemma set_blk_views [simp]:
  "vec (set_blk ix i l b) = vec ix" "lvl (set_blk ix i l b) = lvl ix" "stride (set_blk ix i l b) = stride ix"
  "maxDegree (set_blk ix i l b) = maxDegree ix" "node (set_blk ix i l b) = node ix"
  "rawDistance (set_blk ix i l b) = rawDistance ix" "dist (set_blk ix i l b) = dist ix"
  "is_del (set_blk ix i l b) = is_del ix"
  by (simp_all add: fun_eq_iff vec_def lvl_def stride_def maxDegree_def node_def rawDistance_def dist_def is_del_def
      split: space.split)

lemma blk_set_blk:
  assumes "shape ix" "node ix l i" "node ix m j" "length b = stride ix l"
  shows "blk (set_blk ix i l b) j m = (if j = i \<and> m = l then b else blk ix j m)"
proof (cases "l = 0 \<or> m = 0 \<or> i \<noteq> j")
  case True
  then show ?thesis
    using assms node_maxElements [OF assms(1,2)] node_maxElements [OF assms(1,3)] upper_bound [OF assms(1,2)]
    by (auto simp: set_blk_def blk_def stride_def shape_def block_put_block [where n = "ix_maxElements ix"])
next
  case False
  then have "nat (l - 1) = nat (m - 1) \<longleftrightarrow> l = m" using assms(2,3) by (auto simp: node_def)
  then show ?thesis
    using False assms upper_bound [OF assms(1,2)] upper_bound [OF assms(1,3)]
    by (auto simp: set_blk_def blk_def stride_def block_put_block [where n = "nat (lvl ix i)"])
qed

lemma shape_set_blk:
  assumes "shape ix" "node ix l i" "length b = stride ix l"
  shows "shape (set_blk ix i l b)"
proof -
  let ?ix = "set_blk ix i l b"
  have 1: "length (ix_linksL0 ?ix) = length (ix_linksL0 ix)"
    using assms(3) length_put_block [OF node_maxElements [OF assms(1,2)] shapeD(5) [OF assms(1)]] shapeD(5) [OF assms(1)]
    by (auto simp: set_blk_def stride_def)
  have 2: "length (ix_linksUpper ?ix) = length (ix_linksUpper ix)" by (simp add: set_blk_def)
  have 3: "length (ix_linksUpper ?ix ! j) = length (ix_linksUpper ix ! j)" for j
  proof (cases "l = 0")
    case False
    note u = upper_bound [OF assms(1,2) False]
    show ?thesis
      using False u(2) assms(3) length_put_block [OF u(1,4), of b] u(4)
      by (cases "j = i") (auto simp: set_blk_def stride_def)
  qed (simp add: set_blk_def)
  show ?thesis using assms(1) unfolding shape_def by (simp add: 1 2 3)
qed

lemma linkStore_set_blk:
  assumes "shape ix" "node ix l i" "k < stride ix l"
  shows "linkStore ix i l k v = Some (set_blk ix i l ((blk ix i l)[k := v]))"
proof (cases "l = 0")
  case True
  have "i * ix_strideL0 ix + k < length (ix_linksL0 ix)"
    using node_maxElements [OF assms(1,2)] assms True block_bound [of i "ix_maxElements ix" "ix_strideL0 ix"]
    by (simp add: shape_def stride_def)
  then show ?thesis
    using True assms(3) list_update_put_block [OF node_maxElements [OF assms(1,2)] shapeD(5) [OF assms(1)]]
    by (simp add: linkStore_def set_blk_def blk_def wr_def stride_def)
next
  case False
  note u = upper_bound [OF assms(1,2) False]
  have "nat (l - 1) * ix_strideUpper ix + k < length (ix_linksUpper ix ! i)"
    using u assms(3) False block_bound [OF u(1), of "ix_strideUpper ix"] by (simp add: stride_def)
  then show ?thesis
    using False u assms(3)
    by (simp add: linkStore_def set_blk_def blk_def wr_def rd_def stride_def
        list_update_put_block [where n = "nat (lvl ix i)"])
qed

lemma set_blk_twice:
  assumes "shape ix" "node ix l i" "length b = stride ix l"
  shows "set_blk (set_blk ix i l b) i l c = set_blk ix i l c"
  using assms node_maxElements [OF assms(1,2)] upper_bound [OF assms(1,2)]
  by (auto simp: set_blk_def stride_def shape_def put_block_twice [where n = "ix_maxElements ix"]
      put_block_twice [where n = "nat (lvl ix i)"])

lemma setLinks_set_blk:
  assumes "shape ix" "node ix l i"
  defines "n \<equiv> \<lambda>ns. min (length ns) (maxDegree ix l)"
  shows "setLinks ix i l ns = Some (set_blk ix i l (n ns # take (n ns) ns @ drop (Suc (n ns)) (blk ix i l)))"
proof -
  define m where "m = min (length ns) (maxDegree ix l)"
  define s where "s k = set_blk ix i l (m # take k ns @ drop (Suc k) (blk ix i l))" for k
  have lb: "length (blk ix i l) = stride ix l" by (rule length_blk [OF assms(1,2)])
  have st: "stride ix l = maxDegree ix l + 1" by (rule stride_maxDegree [OF assms(1)])
  have len: "length (m # take k ns @ drop (Suc k) (blk ix i l)) = stride ix l" if "k \<le> m" for k
    using that lb st by (auto simp: m_def)
  have "m < 2 ^ 32" using maxDegree_pos [OF assms(1), of l] by (auto simp: m_def kMaxDegree_def min_less_iff_disj)
  then have "m mod 2 ^ 32 = m" by (rule mod_less)
  then have 0: "linkStore ix i l 0 (m mod 2 ^ 32) = Some (s 0)"
    using linkStore_set_blk [OF assms(1,2), of 0 m] st lb
    by (cases "blk ix i l") (auto simp: s_def)
  have step: "linkStore (s k) i l (k + 1) (ns ! k) = Some (s (Suc k))" if k: "k < m" for k
  proof -
    have kl: "k < length ns" "Suc k < length (blk ix i l)" using k lb st by (auto simp: m_def)
    have c: "(m # take k ns @ drop (Suc k) (blk ix i l))[k + 1 := ns ! k] =
        m # take (Suc k) ns @ drop (Suc (Suc k)) (blk ix i l)"
      using kl by (simp add: take_Suc_conv_app_nth list_update_append Cons_nth_drop_Suc [symmetric])
    have "shape (s k)" "node (s k) l i"
      using shape_set_blk [OF assms(1,2) len] k assms(2) by (simp_all add: s_def)
    moreover have "blk (s k) i l = m # take k ns @ drop (Suc k) (blk ix i l)"
      using blk_set_blk [OF assms(1,2,2) len] k by (simp add: s_def)
    moreover have "k + 1 < stride (s k) l" using kl lb by (simp add: s_def)
    ultimately have "linkStore (s k) i l (k + 1) (ns ! k) =
        Some (set_blk (s k) i l (m # take (Suc k) ns @ drop (Suc (Suc k)) (blk ix i l)))"
      using linkStore_set_blk [of "s k" l i "k + 1" "ns ! k"] c by (simp only:)
    then show ?thesis
      using set_blk_twice [OF assms(1,2) len [of k]] k by (simp only: s_def less_imp_le)
  qed
  have "foldM (\<lambda>ix k. linkStore ix i l (k + 1) (ns ! k)) (s 0) [0..<m] = Some (s m)"
    by (rule foldM_upt) (rule step)
  then show ?thesis
    using 0 by (simp add: setLinks_def s_def n_def m_def [symmetric] del: One_nat_def)
qed

lemma adj_Cons_append: "blk ix i l = n # ns @ r \<Longrightarrow> length ns = n \<Longrightarrow> adj ix i l = ns"
  by (simp add: adj_def)

text \<open>\<open>setLinks\<close> replaces one adjacency list, cut at the degree bound, and no other.\<close>

lemma setLinks_spec:
  assumes "shape ix" "node ix l i"
  obtains b where "setLinks ix i l ns = Some (set_blk ix i l b)" "length b = stride ix l"
    "adj (set_blk ix i l b) i l = take (maxDegree ix l) ns" "b ! 0 = min (length ns) (maxDegree ix l)"
    "set b \<subseteq> insert (min (length ns) (maxDegree ix l)) (set ns \<union> set (blk ix i l))"
    "\<And>j m. node ix m j \<Longrightarrow> (j, m) \<noteq> (i, l) \<Longrightarrow> adj (set_blk ix i l b) j m = adj ix j m"
proof -
  let ?n = "min (length ns) (maxDegree ix l)"
  let ?b = "?n # take ?n ns @ drop (Suc ?n) (blk ix i l)"
  have len: "length ?b = stride ix l"
    using length_blk [OF assms] stride_maxDegree [OF assms(1), of l] by auto
  have "adj (set_blk ix i l ?b) i l = take ?n ns"
    by (rule adj_Cons_append [of _ _ _ ?n]) (use blk_set_blk [OF assms assms(2) len] in auto)
  moreover have "take ?n ns = take (maxDegree ix l) ns" by (cases "length ns \<le> maxDegree ix l") auto
  moreover have "adj (set_blk ix i l ?b) j m = adj ix j m" if "node ix m j" "(j, m) \<noteq> (i, l)" for j m
    using blk_set_blk [OF assms that(1) len] that(2) by (auto simp: adj_def)
  moreover have "set ?b \<subseteq> insert ?n (set ns \<union> set (blk ix i l))" by (auto dest: in_set_takeD in_set_dropD)
  ultimately show ?thesis using that [OF setLinks_set_blk [OF assms] len] by simp
qed

text \<open>The words of the adjacency lists, also those behind the end of a list, fit \<open>uint32_t\<close>.\<close>

definition link_words :: "index \<Rightarrow> nat set" where
  "link_words ix = set (ix_linksL0 ix) \<union> \<Union> (set ` set (ix_linksUpper ix))"

definition links_fit :: "index \<Rightarrow> bool" where
  "links_fit ix \<longleftrightarrow> (\<forall>x \<in> link_words ix. x < 2 ^ 32)"

lemma set_put_block: "set (put_block s xs i b) \<subseteq> set xs \<union> set b"
  unfolding put_block_def by (auto dest: in_set_takeD in_set_dropD)

lemma set_block: "set (block s xs i) \<subseteq> set xs"
  unfolding block_def by (auto dest: in_set_takeD in_set_dropD)

lemma blk_words: "shape ix \<Longrightarrow> node ix l i \<Longrightarrow> set (blk ix i l) \<subseteq> link_words ix"
  using set_block [of "ix_strideL0 ix" "ix_linksL0 ix" i] node_maxElements [of ix l i] shapeD(6) [of ix]
    set_block [of "ix_strideUpper ix" "ix_linksUpper ix ! i" "nat (l - 1)"] nth_mem [of i "ix_linksUpper ix"]
  by (auto simp: blk_def link_words_def)

lemma set_blk_words:
  assumes "shape ix" "node ix l i"
  shows "link_words (set_blk ix i l b) \<subseteq> link_words ix \<union> set b"
proof (cases "l = 0")
  case True
  then show ?thesis using set_put_block by (fastforce simp: set_blk_def link_words_def)
next
  case False
  have "i < length (ix_linksUpper ix)" using node_maxElements [OF assms] assms(1) by (simp add: shape_def)
  then have "set (ix_linksUpper ix ! i) \<subseteq> link_words ix" by (auto simp: link_words_def)
  then have "set (put_block (ix_strideUpper ix) (ix_linksUpper ix ! i) (nat (l - 1)) b) \<subseteq> link_words ix \<union> set b"
    using set_put_block by fastforce
  then show ?thesis
    using False by (auto simp: set_blk_def link_words_def dest!: subsetD [OF set_update_subset_insert])
qed

lemma set_blk_fit:
  assumes "shape ix" "node ix l i" "links_fit ix" "\<forall>x \<in> set b. x < 2 ^ 32 \<or> x \<in> set (blk ix i l)"
  shows "links_fit (set_blk ix i l b)"
  using assms set_blk_words [OF assms(1,2), of b] blk_words [OF assms(1,2)] unfolding links_fit_def by blast

section \<open>The abstract store\<close>

text \<open>
  What the index promises its clients, whatever the graph looks like: a finite map from labels to a
  stored vector and a tombstone.
\<close>

definition abs_ix :: "index \<Rightarrow> label \<Rightarrow> (f32 list \<times> bool) option" where
  "abs_ix ix lab = map_option (\<lambda>i. (vec ix i, is_del ix i)) (ix_labelToId ix lab)"

definition spec_mark :: "bool \<Rightarrow> (label \<Rightarrow> (f32 list \<times> bool) option) \<Rightarrow> label \<Rightarrow> bool \<times> (label \<Rightarrow> (f32 list \<times> bool) option)" where
  "spec_mark d s lab =
     (case s lab of None \<Rightarrow> (False, s)
      | Some (v, d') \<Rightarrow> if d' = d then (False, s) else (True, s(lab \<mapsto> (v, d))))"

section \<open>Construction establishes the invariant\<close>

lemma Index_Inr:
  assumes "0 < dim" "0 < n" "0 < M" "M \<le> 128" "n < 2 ^ 32" "n * dim < 2 ^ 64"
  shows "\<exists>ix. Index avx sp dim n M efc = Inr ix \<and> wf_ix ix \<and> ix_count ix = 0 \<and> ix_M ix = M \<and>
    ix_dim ix = dim \<and> ix_maxElements ix = n \<and> ix_space ix = sp \<and> abs_ix ix = Map.empty"
proof -
  have m: "mul_sz M 2 = M * 2" "mul_sz n dim = n * dim" "(M * 2 + 1) mod 2 ^ 64 = M * 2 + 1"
    "(M + 1) mod 2 ^ 64 = M + 1"
    using assms by (simp_all add: mul_sz_def)
  have "n * (M * 2 + 1) \<le> 2 ^ 32 * 257" using assms by (intro mult_le_mono) auto
  also have "\<dots> < (2::nat) ^ 64" by simp
  finally have s: "mul_sz n (M * 2 + 1) = n * (M * 2 + 1)" by (simp add: mul_sz_def)
  have b: "take k (drop j (replicate m x)) = replicate k x" if "j + k \<le> m" for j k m and x :: 'a
    using that by (simp add: min_def)
  have bl: "block k (replicate (n * k) x) i = replicate k x" if "i < n" for i k and x :: 'a
    using b block_bound [OF that, of k] by (simp add: block_def del: take_replicate drop_replicate)
  obtain ix where ix: "Index avx sp dim n M efc = Inr ix"
    and f: "ix_count ix = 0" "ix_M ix = M" "ix_dim ix = dim" "ix_maxElements ix = n" "ix_space ix = sp"
      "ix_labelToId ix = Map.empty" "ix_maxM ix = M" "ix_maxM0 ix = M * 2" "ix_efConstruction ix = max efc M"
      "ix_strideL0 ix = M * 2 + 1" "ix_strideUpper ix = M + 1" "ix_data ix = replicate (n * dim) 0"
      "ix_levels ix = replicate n 0" "ix_labels ix = replicate n (Label 0 0)" "ix_deleted ix = replicate n 0"
      "ix_linksL0 ix = replicate (n * (M * 2 + 1)) 0" "ix_linksUpper ix = replicate n []"
      "ix_numDeleted ix = 0" "ix_entryPoint ix = kNone" "ix_visitedPool ix = VisitedListPool 1 n"
    using assms m s by (auto simp: Index_def Let_def kMaxDegree_def)
  have sh: "shape ix" using assms f by (simp add: shape_def VisitedListPool_def pool_ok_def)
  have un: "unused_ok ix"
    unfolding unused_ok_def
  proof (intro allI impI conjI)
    fix i assume "ix_count ix \<le> i \<and> i < ix_maxElements ix"
    then have i: "i < n" using f by simp
    show "vec ix i = replicate (ix_dim ix) 0" using bl [OF i] f by (simp add: vec_def)
    show "blk ix i 0 = replicate (ix_strideL0 ix) 0" unfolding blk_def f by (simp only: bl [OF i] simp_thms if_True)
  qed (use f in \<open>auto simp: lvl_def\<close>)
  have "wf_ix ix"
    using sh un f by (auto simp: wf_ix_def graph_ok_def node_def entry_ok_def labels_ok_def deleted_ok_def)
  then show ?thesis using ix f by (auto simp: abs_ix_def fun_eq_iff)
qed

lemma Index_Inl:
  assumes "dim = 0 \<or> n = 0 \<or> M = 0 \<or> 128 < M \<and> M < 2 ^ 63"
  shows "\<exists>msg. Index avx sp dim n M efc = Inl (Invalid_argument msg)"
  using assms by (auto simp: Index_def mul_sz_def kMaxDegree_def)

section \<open>Soft deletes\<close>

lemma labels_lookup:
  assumes "wf_ix ix" "ix_labelToId ix lab = Some i"
  shows "i < ix_count ix" "ix_labels ix ! i = lab" "i < length (ix_deleted ix)"
  using assms by (auto simp: wf_ix_def labels_ok_def shape_def)

lemma labels_inj:
  assumes "wf_ix ix" "ix_labelToId ix lab = Some i" "ix_labelToId ix lab' = Some i"
  shows "lab = lab'"
  using labels_lookup [OF assms(1,2)] labels_lookup [OF assms(1,3)] by simp

text \<open>Setting one tombstone byte and correcting the counter keeps the invariant.\<close>

lemma set_deleted_wf:
  assumes "wf_ix ix" "i < ix_count ix"
  defines "D \<equiv> \<lambda>d. {j. j < ix_count ix \<and> (if j = i then d \<noteq> 0 else is_del ix j)}"
  shows "wf_ix (ix\<lparr>ix_deleted := (ix_deleted ix)[i := d], ix_numDeleted := card (D d)\<rparr>)"
proof -
  let ?ix = "ix\<lparr>ix_deleted := (ix_deleted ix)[i := d], ix_numDeleted := card (D d)\<rparr>"
  have v: "vec ?ix = vec ix" "lvl ?ix = lvl ix" "blk ?ix = blk ix" "node ?ix = node ix"
    "adj ?ix = adj ix" "maxDegree ?ix = maxDegree ix"
    by (simp_all add: fun_eq_iff vec_def lvl_def blk_def node_def adj_def maxDegree_def)
  have i: "i < length (ix_deleted ix)" using assms by (auto simp: wf_ix_def shape_def)
  have "{j. j < ix_count ?ix \<and> is_del ?ix j} = D d" using i by (auto simp: D_def is_del_def nth_list_update)
  then have "deleted_ok ?ix" by (simp add: deleted_ok_def)
  moreover have "shape ?ix" using assms(1) by (simp add: wf_ix_def shape_def lvl_def)
  moreover have "graph_ok ?ix" using assms(1) by (simp add: wf_ix_def graph_ok_def links_ok_def v)
  moreover have "entry_ok ?ix" using assms(1) by (simp add: wf_ix_def entry_ok_def v)
  moreover have "labels_ok ?ix" using assms(1) by (simp add: wf_ix_def labels_ok_def)
  moreover have "unused_ok ?ix" using assms(1,2) by (auto simp: wf_ix_def unused_ok_def v nth_list_update)
  ultimately show ?thesis by (simp add: wf_ix_def)
qed

lemma abs_set_deleted:
  assumes "wf_ix ix" "ix_labelToId ix lab = Some i"
  shows "abs_ix (ix\<lparr>ix_deleted := (ix_deleted ix)[i := d], ix_numDeleted := c\<rparr>) =
    (abs_ix ix)(lab \<mapsto> (vec ix i, d \<noteq> 0))"
  using labels_lookup [OF assms] labels_inj [OF assms(1)] assms(2)
  by (auto simp: abs_ix_def fun_eq_iff vec_def is_del_def nth_list_update map_option_case split: option.splits)

lemma numDeleted_bound: "wf_ix ix \<Longrightarrow> ix_numDeleted ix \<le> ix_count ix \<and> ix_count ix < 2 ^ 32"
proof -
  assume w: "wf_ix ix"
  have "card {i. i < ix_count ix \<and> is_del ix i} \<le> card {..<ix_count ix}" by (rule card_mono) auto
  then show ?thesis using w by (auto simp: wf_ix_def deleted_ok_def shape_def)
qed

lemma markDeleted_ok:
  assumes "wf_ix ix"
  shows "\<exists>b ix'. markDeleted ix lab = Some (b, ix') \<and> wf_ix ix' \<and> config ix' = config ix \<and>
    (b, abs_ix ix') = spec_mark True (abs_ix ix) lab"
proof (cases "ix_labelToId ix lab")
  case None
  then show ?thesis using assms by (auto simp: markDeleted_def spec_mark_def abs_ix_def)
next
  case (Some i)
  note l = labels_lookup [OF assms Some]
  show ?thesis
  proof (cases "is_del ix i")
    case True
    then show ?thesis using assms Some l
      by (auto simp: markDeleted_def spec_mark_def abs_ix_def rd_def is_del_def)
  next
    case False
    have "{j. j < ix_count ix \<and> (if j = i then (1::8 word) \<noteq> 0 else is_del ix j)} =
        insert i {j. j < ix_count ix \<and> is_del ix j}" using l by auto
    then have "card {j. j < ix_count ix \<and> (if j = i then (1::8 word) \<noteq> 0 else is_del ix j)} =
        (ix_numDeleted ix + 1) mod 2 ^ 64"
      using assms False numDeleted_bound [OF assms] by (simp add: wf_ix_def deleted_ok_def)
    then show ?thesis
      using set_deleted_wf [OF assms l(1), where d = 1] abs_set_deleted [OF assms Some, where d = 1] Some l False
      by (auto simp: markDeleted_def spec_mark_def rd_def is_del_def abs_ix_def [of ix] config_def)
  qed
qed

lemma unmarkDeleted_ok:
  assumes "wf_ix ix"
  shows "\<exists>b ix'. unmarkDeleted ix lab = Some (b, ix') \<and> wf_ix ix' \<and> config ix' = config ix \<and>
    (b, abs_ix ix') = spec_mark False (abs_ix ix) lab"
proof (cases "ix_labelToId ix lab")
  case None
  then show ?thesis using assms by (auto simp: unmarkDeleted_def spec_mark_def abs_ix_def)
next
  case (Some i)
  note l = labels_lookup [OF assms Some]
  show ?thesis
  proof (cases "is_del ix i")
    case False
    then show ?thesis using assms Some l
      by (auto simp: unmarkDeleted_def spec_mark_def abs_ix_def rd_def is_del_def)
  next
    case True
    let ?S = "{j. j < ix_count ix \<and> is_del ix j}"
    have "{j. j < ix_count ix \<and> (if j = i then (0::8 word) \<noteq> 0 else is_del ix j)} = ?S - {i}" using l by auto
    moreover have "card (?S - {i}) = card ?S - 1" "0 < card ?S" using l True by (auto simp: card_gt_0_iff)
    ultimately have "card {j. j < ix_count ix \<and> (if j = i then (0::8 word) \<noteq> 0 else is_del ix j)} =
        (ix_numDeleted ix + (2 ^ 64 - 1)) mod 2 ^ 64"
      using sub_sz [of 1 "card ?S"] numDeleted_bound [OF assms] assms
      unfolding wf_ix_def deleted_ok_def by simp
    then show ?thesis
      using set_deleted_wf [OF assms l(1), where d = 0] abs_set_deleted [OF assms Some, where d = 0] Some l True
      by (auto simp: unmarkDeleted_def spec_mark_def rd_def is_del_def abs_ix_def [of ix] config_def)
  qed
qed

lemma activeSize_card:
  assumes "wf_ix ix" shows "activeSize ix = card {i. i < ix_count ix \<and> \<not> is_del ix i}"
proof -
  let ?D = "{i. i < ix_count ix \<and> is_del ix i}"
  have "{i. i < ix_count ix \<and> \<not> is_del ix i} = {..<ix_count ix} - ?D" by auto
  then have "card {i. i < ix_count ix \<and> \<not> is_del ix i} = ix_count ix - card ?D"
    by (simp add: card_Diff_subset subset_eq)
  then show ?thesis
    using numDeleted_bound [OF assms] assms sub_sz [of "ix_numDeleted ix" "ix_count ix"]
    unfolding activeSize_def wf_ix_def deleted_ok_def by simp
qed

end
