(* ===== verification/Hnsw_Search.thy ===== *)
theory Hnsw_Search
  imports Hnsw_Index
begin

text \<open>
  The read side of \<open>hnsw::Index\<close>: \<open>greedyDescend\<close>, \<open>searchLayer\<close> (the beam
  search of one layer) and \<open>search\<close>. The two heaps are those of \<open>Prio_Queue\<close>, ordered
  by \<open>FartherFirst\<close> and \<open>CloserFirst\<close>. A search is \<open>const\<close> in the program but
  recycles the visited lists, so it returns the index with its pool updated.

  On a well-formed index every loop here terminates and no access leaves its array, so each
  function returns \<open>Some\<close>. The beam's invariant \<open>beam_inv\<close> gives the rest: the
  results are distinct reachable nodes with their true distances, none of them deleted when deleted
  nodes are filtered, and (no NaN among the distances) no eligible node that was visited and left out
  beats a node that was kept. At the exit, every neighbour of a kept node has been visited; if the
  beam never filled, every reachable node has been.
\<close>

section \<open>Definitions\<close>

definition FartherFirst :: "cand \<Rightarrow> cand \<Rightarrow> bool" where
  "FartherFirst a b \<longleftrightarrow> fst a < fst b"

definition CloserFirst :: "cand \<Rightarrow> cand \<Rightarrow> bool" where
  "CloserFirst a b \<longleftrightarrow> fst b < fst a"

type_synonym max_heap = "cand list"
type_synonym min_heap = "cand list"

text \<open>Reading a neighbour list: \<open>n = blk[0]\<close>, then \<open>blk[1..n]\<close>.\<close>

definition readLinks :: "index \<Rightarrow> nat \<Rightarrow> int \<Rightarrow> nat list option" where
  "readLinks ix nid level =
     (case linkBlock ix nid level of None \<Rightarrow> None
      | Some b \<Rightarrow> (case rd b 0 of None \<Rightarrow> None | Some n \<Rightarrow> rd_range b 1 n))"

definition greedy_try :: "index \<Rightarrow> f32 list \<Rightarrow> nat \<times> f32 \<times> bool \<Rightarrow> nat \<Rightarrow> (nat \<times> f32 \<times> bool) option" where
  "greedy_try ix q s cand =
     (case distance ix q cand of None \<Rightarrow> None
      | Some d \<Rightarrow> (case s of (cur, curDist, changed) \<Rightarrow>
          Some (if d < curDist then (cand, d, True) else (cur, curDist, changed))))"

lemma greedy_try_descends:
  assumes "foldM (greedy_try ix q) (cur, d, False) ns = Some (cur', d', True)"
  shows "d' < d"
proof -
  have "(case s of (c, e, ch) \<Rightarrow> (ch \<longrightarrow> e < d) \<and> (\<not> ch \<longrightarrow> e = d))"
    if "foldM (greedy_try ix q) (cur, d, False) ns = Some s" for s
    using that
    by (rule foldM_preserves)
       (auto simp: greedy_try_def split: option.splits if_splits intro: f32_less_trans)
  from this [OF assms] show ?thesis by simp
qed

function greedy_loop :: "index \<Rightarrow> f32 list \<Rightarrow> int \<Rightarrow> nat \<Rightarrow> f32 \<Rightarrow> (nat \<times> f32) option" where
  "greedy_loop ix q level cur curDist =
     (case readLinks ix cur level of None \<Rightarrow> None
      | Some ns \<Rightarrow>
          (case foldM (greedy_try ix q) (cur, curDist, False) ns of None \<Rightarrow> None
           | Some (cur', curDist', changed) \<Rightarrow>
               if changed then greedy_loop ix q level cur' curDist' else Some (cur', curDist')))"
  by pat_completeness auto
termination
  by (relation "measure (\<lambda>(ix, q, level, cur, curDist). f32_rank curDist)")
     (auto intro!: f32_rank_less intro: greedy_try_descends)

definition greedyDescend :: "index \<Rightarrow> f32 list \<Rightarrow> nat \<Rightarrow> int \<Rightarrow> (nat \<times> f32) option" where
  "greedyDescend ix q entry level =
     (case distance ix q entry of None \<Rightarrow> None
      | Some curDist \<Rightarrow> greedy_loop ix q level entry curDist)"

text \<open>The descent through the layers \<open>l, l - 1, \<dots>, stop + 1\<close>.\<close>

function descend :: "index \<Rightarrow> f32 list \<Rightarrow> nat \<Rightarrow> int \<Rightarrow> int \<Rightarrow> nat option" where
  "descend ix q cur l stop =
     (if stop < l
      then (case greedyDescend ix q cur l of None \<Rightarrow> None
            | Some (cur', _) \<Rightarrow> descend ix q cur' (l - 1) stop)
      else Some cur)"
  by pat_completeness auto
termination by (relation "measure (\<lambda>(ix, q, cur, l, stop). nat (l - stop))") auto

record beam =
  bm_frontier :: min_heap
  bm_results :: max_heap
  bm_worst :: f32
  bm_visited :: visited_list

text \<open>\<open>!filterDeleted || !deleted_[cand]\<close>.\<close>

definition admits :: "index \<Rightarrow> bool \<Rightarrow> nat \<Rightarrow> bool option" where
  "admits ix filterDeleted cand =
     (if \<not> filterDeleted then Some True else map_option (\<lambda>d. d = 0) (rd (ix_deleted ix) cand))"

definition copyLinks :: "index \<Rightarrow> nat \<Rightarrow> int \<Rightarrow> nat list option" where
  "copyLinks ix nid level =
     (case linkBlock ix nid level of None \<Rightarrow> None
      | Some b \<Rightarrow> (case rd b 0 of None \<Rightarrow> None | Some n \<Rightarrow> rd_range b 1 (min n kMaxDegree)))"

definition beam_admit :: "nat \<Rightarrow> bool \<Rightarrow> f32 \<Rightarrow> nat \<Rightarrow> beam \<Rightarrow> beam" where
  "beam_admit ef ok d cand s =
     (let frontier = pq_push CloserFirst (d, cand) (bm_frontier s);
          results = (if ok
                     then let r = pq_push FartherFirst (d, cand) (bm_results s)
                          in if ef < length r then pq_pop FartherFirst r else r
                     else bm_results s);
          worst = (if results \<noteq> [] then fst (pq_top results) else bm_worst s)
      in s\<lparr>bm_frontier := frontier, bm_results := results, bm_worst := worst\<rparr>)"

definition beam_visit :: "index \<Rightarrow> f32 list \<Rightarrow> nat \<Rightarrow> bool \<Rightarrow> beam \<Rightarrow> nat \<Rightarrow> beam option" where
  "beam_visit ix q ef filterDeleted s cand =
     (case testAndSet cand (bm_visited s) of None \<Rightarrow> None
      | Some (seen, v) \<Rightarrow>
          if seen then Some (s\<lparr>bm_visited := v\<rparr>)
          else (case distance ix q cand of None \<Rightarrow> None
                | Some d \<Rightarrow>
                    if length (bm_results s) < ef \<or> d < bm_worst s
                    then map_option (\<lambda>ok. beam_admit ef ok d cand (s\<lparr>bm_visited := v\<rparr>))
                           (admits ix filterDeleted cand)
                    else Some (s\<lparr>bm_visited := v\<rparr>)))"

definition beam_measure :: "beam \<Rightarrow> nat" where
  "beam_measure s = length (bm_frontier s) + unvisited (bm_visited s)"

lemma beam_visit_measure:
  "beam_visit ix q ef fd s c = Some s' \<Longrightarrow> beam_measure s' \<le> beam_measure s"
  by (auto simp: beam_visit_def beam_admit_def beam_measure_def Let_def
      split: option.splits if_splits dest!: testAndSet_unvisited)

function search_loop :: "index \<Rightarrow> f32 list \<Rightarrow> nat \<Rightarrow> int \<Rightarrow> bool \<Rightarrow> beam \<Rightarrow> beam option" where
  "search_loop ix q ef level filterDeleted s =
     (if bm_frontier s = [] then Some s
      else let best = pq_top (bm_frontier s)
        in if bm_worst s < fst best \<and> ef \<le> length (bm_results s) then Some s
           else (case copyLinks ix (snd best) level of None \<Rightarrow> None
                 | Some buf \<Rightarrow>
                     (case foldM (beam_visit ix q ef filterDeleted)
                             (s\<lparr>bm_frontier := pq_pop CloserFirst (bm_frontier s)\<rparr>) buf of
                        None \<Rightarrow> None
                      | Some s' \<Rightarrow> search_loop ix q ef level filterDeleted s')))"
  by pat_completeness auto
termination
proof (relation "measure (\<lambda>(ix, q, ef, level, fd, s). beam_measure s)", goal_cases)
  case 1
  show ?case by simp
next
  case (2 ix q ef level fd s best buf s')
  let ?s = "s\<lparr>bm_frontier := pq_pop CloserFirst (bm_frontier s)\<rparr>"
  have "beam_measure s' \<le> beam_measure ?s"
    by (rule foldM_preserves [OF 2(5), of "\<lambda>t. beam_measure t \<le> beam_measure ?s"])
       (auto dest: beam_visit_measure)
  also have "\<dots> < beam_measure s" using 2(1) by (simp add: beam_measure_def)
  finally show ?case by simp
qed

definition searchLayer ::
  "index \<Rightarrow> f32 list \<Rightarrow> nat \<Rightarrow> nat \<Rightarrow> int \<Rightarrow> bool \<Rightarrow> (max_heap \<times> index) option" where
  "searchLayer ix q entry ef level filterDeleted =
     (case acquire (ix_visitedPool ix) of (v0, pool) \<Rightarrow>
      case distance ix q entry of None \<Rightarrow> None
      | Some d0 \<Rightarrow>
        (case admits ix filterDeleted entry of None \<Rightarrow> None
         | Some ok \<Rightarrow>
           (let frontier = pq_push CloserFirst (d0, entry) [];
                results = (if ok then pq_push FartherFirst (d0, entry) [] else [])
            in case testAndSet entry (reset v0) of None \<Rightarrow> None
               | Some (_, v) \<Rightarrow>
                   let worst = (if results = [] then f32_max else fst (pq_top results))
                   in map_option (\<lambda>s. (bm_results s, ix\<lparr>ix_visitedPool := release (bm_visited s) pool\<rparr>))
                        (search_loop ix q ef level filterDeleted
                          \<lparr>bm_frontier = frontier, bm_results = results, bm_worst = worst,
                           bm_visited = v\<rparr>))))"

record search_result =
  sr_label :: label
  sr_distance :: f32

definition top_k :: "nat \<Rightarrow> max_heap \<Rightarrow> cand list" where
  "top_k k heap =
     (let heap' = (pq_pop FartherFirst ^^ (length heap - k)) heap
      in rev (pq_pops pq_top (pq_pop FartherFirst) (length heap') heap'))"

definition to_result :: "index \<Rightarrow> cand \<Rightarrow> search_result option" where
  "to_result ix c =
     map_option (\<lambda>lab. \<lparr>sr_label = lab, sr_distance = fst c\<rparr>) (rd (ix_labels ix) (snd c))"

definition prepare_query :: "index \<Rightarrow> f32 list \<Rightarrow> f32 list option" where
  "prepare_query ix query =
     map_option (case ix_space ix of Cosine \<Rightarrow> normalizeInPlace ix | L2 \<Rightarrow> (\<lambda>v. v))
       (rd_range query 0 (ix_dim ix))"

definition search :: "index \<Rightarrow> f32 list \<Rightarrow> nat \<Rightarrow> nat \<Rightarrow> (search_result list \<times> index) option" where
  "search ix query k ef =
     (if ix_count ix = 0 then Some ([], ix)
      else case prepare_query ix query of None \<Rightarrow> None
        | Some q \<Rightarrow>
            if ix_entryPoint ix = kNone then Some ([], ix)
            else (case descend ix q (ix_entryPoint ix) (ix_maxLevel ix) 0 of None \<Rightarrow> None
                  | Some cur \<Rightarrow>
                      (case searchLayer ix q cur (max ef k) 0 True of None \<Rightarrow> None
                       | Some (heap, ix') \<Rightarrow>
                           map_option (\<lambda>out. (out, ix')) (those (map (to_result ix) (top_k k heap))))))"

declare greedy_loop.simps [simp del] descend.simps [simp del] search_loop.simps [simp del]

section \<open>The two heaps\<close>

definition cand_ok :: "cand \<Rightarrow> bool" where
  "cand_ok c \<longleftrightarrow> \<not> f32_is_nan (fst c)"

interpretation farther: weak_order FartherFirst cand_ok
  by unfold_locales (auto simp: FartherFirst_def cand_ok_def less_f32_def)

interpretation closer: weak_order CloserFirst cand_ok
  by unfold_locales (auto simp: CloserFirst_def cand_ok_def less_f32_def)

section \<open>Reading neighbour lists\<close>

lemma read_prefix:
  assumes "length b = Suc m" "b ! 0 \<le> m"
  shows "rd (b @ r) 0 = Some (b ! 0)" "rd_range (b @ r) 1 (b ! 0) = Some (take (b ! 0) (drop 1 b))"
  using assms by (auto simp: rd_def rd_range_def nth_append)

lemma links_okD:
  assumes "links_ok ix i l"
  shows "blk ix i l ! 0 \<le> maxDegree ix l" "distinct (adj ix i l)"
    "j \<in> set (adj ix i l) \<Longrightarrow> node ix l j" "j \<in> set (adj ix i l) \<Longrightarrow> j \<noteq> i"
  using assms by (auto simp: links_ok_def)

lemma readLinks_adj:
  assumes "shape ix" "node ix l i" "links_ok ix i l"
  shows "readLinks ix i l = Some (adj ix i l)" "copyLinks ix i l = Some (adj ix i l)"
proof -
  obtain r where b: "linkBlock ix i l = Some (blk ix i l @ r)" using linkBlock_blk [OF assms(1,2)] .
  have len: "length (blk ix i l) = Suc (maxDegree ix l)"
    using length_blk [OF assms(1,2)] stride_maxDegree [OF assms(1)] by simp
  note p = read_prefix [OF len links_okD(1) [OF assms(3)]]
  have "min (blk ix i l ! 0) kMaxDegree = blk ix i l ! 0"
    using links_okD(1) [OF assms(3)] maxDegree_pos [OF assms(1), of l] by simp
  then show "readLinks ix i l = Some (adj ix i l)" "copyLinks ix i l = Some (adj ix i l)"
    using b p by (simp_all add: readLinks_def copyLinks_def adj_def)
qed

lemma graph_adj:
  assumes "graph_ok ix" "node ix l i"
  shows "links_ok ix i l" "j \<in> set (adj ix i l) \<Longrightarrow> node ix l j"
  using assms by (auto simp: graph_ok_def links_ok_def)

section \<open>Greedy descent\<close>

definition scan_inv :: "index \<Rightarrow> f32 list \<Rightarrow> nat \<Rightarrow> nat list \<Rightarrow> nat \<times> f32 \<times> bool \<Rightarrow> bool" where
  "scan_inv ix q cur ys s = (case s of (cur', d', ch) \<Rightarrow>
     d' = dist ix q cur' \<and> cur' \<in> insert cur (set ys) \<and> (ch \<longrightarrow> d' < dist ix q cur) \<and>
     (\<not> ch \<longrightarrow> cur' = cur \<and> (\<forall>c \<in> set ys. \<not> dist ix q c < dist ix q cur)))"

lemma greedy_scan:
  assumes "shape ix" "\<forall>c \<in> set ns. c < ix_maxElements ix"
  shows "\<exists>s. foldM (greedy_try ix q) (cur, dist ix q cur, False) ns = Some s \<and> scan_inv ix q cur ns s"
proof (rule foldM_rule)
  fix ys x zs s
  assume ns: "ns = ys @ x # zs" and inv: "scan_inv ix q cur ys s"
  obtain cur' d' ch where s: "s = (cur', d', ch)" by (cases s)
  have x: "distance ix q x = Some (dist ix q x)" using assms ns by (simp add: distance_dist)
  show "\<exists>s'. greedy_try ix q s x = Some s' \<and> scan_inv ix q cur (ys @ [x]) s'"
  proof (cases "dist ix q x < d'")
    case True
    then have "greedy_try ix q s x = Some (x, dist ix q x, True)" by (simp add: greedy_try_def x s)
    then show ?thesis using inv s True by (auto simp: scan_inv_def intro: f32_less_trans)
  next
    case False
    then have "greedy_try ix q s x = Some s" by (simp add: greedy_try_def x s)
    then show ?thesis using inv s False by (auto simp: scan_inv_def)
  qed
qed (simp add: scan_inv_def)

text \<open>The descent ends in a node of the layer none of whose neighbours is closer.\<close>

lemma greedy_loop_spec:
  assumes "shape ix" "graph_ok ix" "node ix l cur" "d = dist ix q cur"
  shows "\<exists>c. greedy_loop ix q l cur d = Some (c, dist ix q c) \<and> node ix l c \<and>
    (c = cur \<or> dist ix q c < dist ix q cur) \<and> (\<forall>j \<in> set (adj ix c l). \<not> dist ix q j < dist ix q c)"
  using assms(3,4)
proof (induction "f32_rank d" arbitrary: cur d rule: less_induct)
  case less
  note lk = graph_adj [OF assms(2) less.prems(1)]
  have ns: "\<forall>c \<in> set (adj ix cur l). c < ix_maxElements ix"
    using lk(2) node_maxElements [OF assms(1)] by blast
  obtain cur' d' ch where r: "foldM (greedy_try ix q) (cur, d, False) (adj ix cur l) = Some (cur', d', ch)"
    and p: "d' = dist ix q cur'" "cur' \<in> insert cur (set (adj ix cur l))" "ch \<longrightarrow> d' < d"
      "\<not> ch \<longrightarrow> cur' = cur \<and> (\<forall>c \<in> set (adj ix cur l). \<not> dist ix q c < d)"
    using greedy_scan [OF assms(1) ns, of q cur] less.prems(2) unfolding scan_inv_def by auto
  have eq: "greedy_loop ix q l cur d = (if ch then greedy_loop ix q l cur' d' else Some (cur', d'))"
    using readLinks_adj [OF assms(1) less.prems(1) lk(1)] r by (subst greedy_loop.simps) simp
  show ?case
  proof (cases ch)
    case False
    then show ?thesis using eq p less.prems by auto
  next
    case True
    then have "d' < d" "node ix l cur'" using p lk(2) less.prems(1) by auto
    with less.hyps [OF f32_rank_less, of d' cur'] p(1) show ?thesis
      using eq True less.prems(2) by (auto intro: f32_less_trans)
  qed
qed

lemma greedyDescend_spec:
  assumes "shape ix" "graph_ok ix" "node ix l entry"
  shows "\<exists>c. greedyDescend ix q entry l = Some (c, dist ix q c) \<and> node ix l c \<and>
    (c = entry \<or> dist ix q c < dist ix q entry) \<and> (\<forall>j \<in> set (adj ix c l). \<not> dist ix q j < dist ix q c)"
  using greedy_loop_spec [OF assms refl] node_maxElements [OF assms(1,3)]
  by (simp add: greedyDescend_def distance_dist [OF assms(1)])

lemma descend_spec:
  assumes "shape ix" "graph_ok ix" "node ix l cur" "0 \<le> stop" "stop \<le> l"
  shows "\<exists>c. descend ix q cur l stop = Some c \<and> node ix (if stop < l then stop + 1 else stop) c \<and>
    (c = cur \<or> dist ix q c < dist ix q cur)"
  using assms(3,5)
proof (induction "nat (l - stop)" arbitrary: cur l rule: less_induct)
  case less
  show ?case
  proof (cases "stop < l")
    case False
    then show ?thesis using less.prems by (subst descend.simps) auto
  next
    case True
    obtain c where c: "greedyDescend ix q cur l = Some (c, dist ix q c)" "node ix l c"
      "c = cur \<or> dist ix q c < dist ix q cur"
      using greedyDescend_spec [OF assms(1,2) less.prems(1)] by blast
    have "node ix (l - 1) c" using c(2) True assms(4) by (simp add: node_def)
    moreover have "nat (l - 1 - stop) < nat (l - stop)" "stop \<le> l - 1" using True by auto
    ultimately obtain c' where c': "descend ix q c (l - 1) stop = Some c'"
      "node ix (if stop < l - 1 then stop + 1 else stop) c'" "c' = c \<or> dist ix q c' < dist ix q c"
      using less.hyps by blast
    have "c' = c" if "l - 1 = stop" using c'(1) that by (subst (asm) descend.simps) simp
    then have "node ix (stop + 1) c'" using c'(2) c(2) True by (cases "l - 1 = stop") auto
    then show ?thesis using True c(1,3) c'(1,3) by (subst descend.simps) (auto intro: f32_less_trans)
  qed
qed

section \<open>The beam search\<close>

definition edges :: "index \<Rightarrow> int \<Rightarrow> (nat \<times> nat) set" where
  "edges ix l = {(i, j). node ix l i \<and> j \<in> set (adj ix i l)}"

definition reachable :: "index \<Rightarrow> int \<Rightarrow> nat \<Rightarrow> nat set" where
  "reachable ix l i = (edges ix l)\<^sup>* `` {i}"

definition eligible :: "index \<Rightarrow> bool \<Rightarrow> nat \<Rightarrow> bool" where
  "eligible ix filterDeleted i \<longleftrightarrow> \<not> filterDeleted \<or> \<not> is_del ix i"

text \<open>No distance from the query to a node of the layer is a NaN.\<close>

definition nan_free :: "index \<Rightarrow> f32 list \<Rightarrow> int \<Rightarrow> bool" where
  "nan_free ix q l \<longleftrightarrow> (\<forall>i. node ix l i \<longrightarrow> \<not> f32_is_nan (dist ix q i))"

text \<open>
  The invariant, over the visited set \<open>V\<close>, the frontier and the results. The nodes in \<open>X\<close>
  are exempt from the closure clause: they are the ones being expanded.
\<close>

definition beam_inv ::
  "index \<Rightarrow> f32 list \<Rightarrow> nat \<Rightarrow> int \<Rightarrow> bool \<Rightarrow> nat \<Rightarrow> nat set \<Rightarrow> nat set \<Rightarrow> cand list \<Rightarrow> cand list \<Rightarrow> f32 \<Rightarrow> bool" where
  "beam_inv ix q ef l fd entry X V fr res w \<longleftrightarrow>
     entry \<in> V \<and> (\<forall>i \<in> V. node ix l i \<and> i \<in> reachable ix l entry) \<and>
     (\<forall>c \<in> set fr. fst c = dist ix q (snd c) \<and> snd c \<in> V) \<and>
     (\<forall>c \<in> set res. fst c = dist ix q (snd c) \<and> snd c \<in> V \<and> eligible ix fd (snd c)) \<and>
     distinct (map snd res) \<and> length res \<le> max ef 1 \<and>
     (res \<noteq> [] \<longrightarrow> w = fst (pq_top res)) \<and>
     (\<forall>i \<in> V - X. i \<in> snd ` set fr \<or> set (adj ix i l) \<subseteq> V \<or> i \<notin> snd ` set res \<and> ef \<le> length res) \<and>
     (\<forall>i \<in> V. eligible ix fd i \<longrightarrow> i \<in> snd ` set res \<or> ef \<le> length res) \<and>
     (nan_free ix q l \<and> 0 < ef \<longrightarrow>
        is_heap FartherFirst res \<and> is_heap CloserFirst fr \<and>
        (\<forall>i \<in> V. eligible ix fd i \<longrightarrow> i \<notin> snd ` set res \<longrightarrow> (\<forall>c \<in> set res. \<not> dist ix q i < fst c)))"

lemma beam_invD:
  assumes "beam_inv ix q ef l fd entry X V fr res w"
  shows "entry \<in> V" "i \<in> V \<Longrightarrow> node ix l i \<and> i \<in> reachable ix l entry"
    "c \<in> set fr \<Longrightarrow> fst c = dist ix q (snd c) \<and> snd c \<in> V"
    "c \<in> set res \<Longrightarrow> fst c = dist ix q (snd c) \<and> snd c \<in> V \<and> eligible ix fd (snd c)"
    "distinct (map snd res)" "length res \<le> max ef 1" "res \<noteq> [] \<Longrightarrow> w = fst (pq_top res)"
    "i \<in> V \<Longrightarrow> i \<notin> X \<Longrightarrow> i \<in> snd ` set fr \<or> set (adj ix i l) \<subseteq> V \<or> i \<notin> snd ` set res \<and> ef \<le> length res"
    "i \<in> V \<Longrightarrow> eligible ix fd i \<Longrightarrow> i \<in> snd ` set res \<or> ef \<le> length res"
    "nan_free ix q l \<and> 0 < ef \<Longrightarrow> is_heap FartherFirst res" "nan_free ix q l \<and> 0 < ef \<Longrightarrow> is_heap CloserFirst fr"
    "nan_free ix q l \<and> 0 < ef \<Longrightarrow> i \<in> V \<Longrightarrow> eligible ix fd i \<Longrightarrow> i \<notin> snd ` set res \<Longrightarrow> c \<in> set res \<Longrightarrow>
      \<not> dist ix q i < fst c"
proof -
  have "nan_free ix q l \<and> 0 < ef \<longrightarrow>
      (\<forall>i \<in> V. eligible ix fd i \<longrightarrow> i \<notin> snd ` set res \<longrightarrow> (\<forall>c \<in> set res. \<not> dist ix q i < fst c))"
    using assms unfolding beam_inv_def by argo
  then show "nan_free ix q l \<and> 0 < ef \<Longrightarrow> i \<in> V \<Longrightarrow> eligible ix fd i \<Longrightarrow> i \<notin> snd ` set res \<Longrightarrow> c \<in> set res \<Longrightarrow>
      \<not> dist ix q i < fst c" by blast
qed (use assms in \<open>unfold beam_inv_def, simp_all\<close>)

lemma beam_invI:
  assumes "entry \<in> V" "\<And>i. i \<in> V \<Longrightarrow> node ix l i \<and> i \<in> reachable ix l entry"
    "\<And>c. c \<in> set fr \<Longrightarrow> fst c = dist ix q (snd c) \<and> snd c \<in> V"
    "\<And>c. c \<in> set res \<Longrightarrow> fst c = dist ix q (snd c) \<and> snd c \<in> V \<and> eligible ix fd (snd c)"
    "distinct (map snd res)" "length res \<le> max ef 1" "res \<noteq> [] \<Longrightarrow> w = fst (pq_top res)"
    "\<And>i. i \<in> V \<Longrightarrow> i \<notin> X \<Longrightarrow> i \<in> snd ` set fr \<or> set (adj ix i l) \<subseteq> V \<or> i \<notin> snd ` set res \<and> ef \<le> length res"
    "\<And>i. i \<in> V \<Longrightarrow> eligible ix fd i \<Longrightarrow> i \<in> snd ` set res \<or> ef \<le> length res"
    "nan_free ix q l \<and> 0 < ef \<Longrightarrow> is_heap FartherFirst res" "nan_free ix q l \<and> 0 < ef \<Longrightarrow> is_heap CloserFirst fr"
    "\<And>i c. nan_free ix q l \<and> 0 < ef \<Longrightarrow> i \<in> V \<Longrightarrow> eligible ix fd i \<Longrightarrow> i \<notin> snd ` set res \<Longrightarrow> c \<in> set res \<Longrightarrow>
      \<not> dist ix q i < fst c"
  shows "beam_inv ix q ef l fd entry X V fr res w"
  unfolding beam_inv_def by (intro conjI ballI impI; use assms in blast)

lemma admits_eligible:
  "shape ix \<Longrightarrow> i < ix_maxElements ix \<Longrightarrow> admits ix fd i = Some (eligible ix fd i)"
  by (auto simp: admits_def rd_def shape_def eligible_def is_del_def)

lemma set_pq_push [simp]: "set (pq_push lt x q) = insert x (set q)"
  by (metis pq_push_mset set_mset_add_mset_insert set_mset_mset)

text \<open>The results after an eligible node has been admitted.\<close>

definition res_push :: "nat \<Rightarrow> cand \<Rightarrow> cand list \<Rightarrow> cand list" where
  "res_push ef c res = (let r = pq_push FartherFirst c res in if ef < length r then pq_pop FartherFirst r else r)"

lemma res_push_mset: "mset (res_push ef c res) \<subseteq># add_mset c (mset res)"
proof -
  let ?r = "pq_push FartherFirst c res"
  have "?r \<noteq> []" by (metis length_pq_push list.size(3) nat.distinct(1))
  then have "mset (pq_pop FartherFirst ?r) \<subseteq># mset ?r"
    by (metis mset_subset_eq_add_right add_mset_add_single pq_pop_mset union_commute)
  then show ?thesis by (simp add: res_push_def Let_def pq_push_mset)
qed

lemma length_res_push: "length (res_push ef c res) = (if ef \<le> length res then length res else Suc (length res))"
  by (simp add: res_push_def Let_def)

lemma set_res_push: "set (res_push ef c res) \<subseteq> insert c (set res)"
  using set_mset_mono [OF res_push_mset] by simp

lemma res_push_room: "length res < ef \<Longrightarrow> set (res_push ef c res) = insert c (set res)"
  by (simp add: res_push_def Let_def)

lemma res_push_keep_best:
  assumes "is_heap FartherFirst res" "\<forall>c \<in> set res. cand_ok c" "cand_ok c"
    "\<forall>e \<in> E. cand_ok e \<and> (\<forall>y \<in> set res. \<not> FartherFirst e y)"
    "E = {} \<or> res \<noteq> [] \<and> FartherFirst c (pq_top res)"
  shows "is_heap FartherFirst (res_push ef c res) \<and>
    (\<forall>e \<in> E \<union> (insert c (set res) - set (res_push ef c res)). \<forall>y \<in> set (res_push ef c res). \<not> FartherFirst e y)"
proof -
  have "is_heap FartherFirst (res_push ef c res) \<and>
    (\<forall>e \<in> E \<union> (set_mset (add_mset c (mset res)) - set_mset (mset (res_push ef c res))).
       cand_ok e \<and> (\<forall>y \<in># mset (res_push ef c res). \<not> FartherFirst e y))"
    by (rule farther.pq.keep_best [where n = ef]) (use assms in \<open>auto simp: res_push_def Let_def\<close>)
  then show ?thesis by simp
qed

lemma beam_inv_reject:
  assumes inv: "beam_inv ix q ef l fd entry X V fr res w"
    and c: "node ix l c" "c \<in> reachable ix l entry" "c \<notin> V"
    and rej: "ef \<le> length res" "\<not> dist ix q c < w"
  shows "beam_inv ix q ef l fd entry X (insert c V) fr res w"
proof -
  note d = beam_invD [OF inv]
  have cR: "c \<notin> snd ` set res" using d(4) c(3) by auto
  have beat: "\<not> dist ix q c < fst y" if n: "nan_free ix q l \<and> 0 < ef" and y: "y \<in> set res" for y
  proof -
    have ok: "\<forall>c \<in> set res. cand_ok c" using d(2,4) n by (auto simp: cand_ok_def nan_free_def)
    have "\<not> FartherFirst (pq_top res) y" using farther.pq.top_max [OF d(10) [OF n], of y] ok y by simp
    moreover have "cand_ok (pq_top res)" using farther.pq.top_in [of res] ok y by fastforce
    moreover have "w = fst (pq_top res)" by (rule d(7)) (use y in auto)
    ultimately show ?thesis
      using rej(2) f32_not_less_trans [of w "dist ix q c" "fst y"]
      by (auto simp: FartherFirst_def cand_ok_def)
  qed
  show ?thesis
  proof (rule beam_invI)
    fix i assume "i \<in> insert c V" "i \<notin> X"
    then show "i \<in> snd ` set fr \<or> set (adj ix i l) \<subseteq> insert c V \<or> i \<notin> snd ` set res \<and> ef \<le> length res"
      using d(8) cR rej(1) by blast
  next
    fix i y assume "nan_free ix q l \<and> 0 < ef" "i \<in> insert c V" "eligible ix fd i" "i \<notin> snd ` set res" "y \<in> set res"
    then show "\<not> dist ix q i < fst y" using d(12) beat by blast
  qed (use d c rej(1) in auto)
qed

lemma beam_inv_results:
  assumes inv: "beam_inv ix q ef l fd entry X V fr res w" and c: "c \<notin> V"
  defines "r \<equiv> res_push ef (dist ix q c, c) res"
  shows "distinct (map snd r)" "length r \<le> max ef 1" "length res \<le> length r"
    "snd ` set r \<subseteq> insert c (snd ` set res)"
    "length res < ef \<Longrightarrow> snd ` set r = insert c (snd ` set res)"
proof -
  have cR: "c \<notin> snd ` set res" "distinct (map snd res)" "length res \<le> max ef 1"
    using inv c by (auto simp: beam_inv_def)
  have "mset (map snd r) \<subseteq># mset (map snd ((dist ix q c, c) # res))"
    using image_mset_subseteq_mono [OF res_push_mset [of ef "(dist ix q c, c)" res], of snd] by (simp add: r_def)
  then show "distinct (map snd r)" by (rule distinct_submset) (use cR in simp)
  have len: "length r = (if ef \<le> length res then length res else Suc (length res))"
    unfolding r_def by (rule length_res_push)
  show "length r \<le> max ef 1" "length res \<le> length r" using len cR(3) by (auto split: if_splits)
  show "snd ` set r \<subseteq> insert c (snd ` set res)" using set_res_push [of ef "(dist ix q c, c)" res] by (auto simp: r_def)
  show "length res < ef \<Longrightarrow> snd ` set r = insert c (snd ` set res)" by (simp add: r_def res_push_room)
qed

lemma beam_inv_best:
  assumes inv: "beam_inv ix q ef l fd entry X V fr res w"
    and c: "node ix l c" "c \<notin> V" and adm: "length res < ef \<or> dist ix q c < w"
    and n: "nan_free ix q l \<and> 0 < ef"
  defines "r \<equiv> res_push ef (dist ix q c, c) res"
  shows "is_heap FartherFirst r"
    "i \<in> insert c V \<Longrightarrow> eligible ix fd i \<Longrightarrow> i \<notin> snd ` set r \<Longrightarrow> y \<in> set r \<Longrightarrow> \<not> dist ix q i < fst y"
proof -
  note d = beam_invD [OF inv]
  define E where "E = {(dist ix q i, i) |i. i \<in> V \<and> eligible ix fd i \<and> i \<notin> snd ` set res}"
  have h: "\<forall>y \<in> set res. cand_ok y" "cand_ok (dist ix q c, c)"
    using d(2,4) n c(1) by (auto simp: cand_ok_def nan_free_def)
  have e: "\<forall>e \<in> E. cand_ok e \<and> (\<forall>y \<in> set res. \<not> FartherFirst e y)"
    using d(2) d(12) [OF n] n by (auto simp: cand_ok_def nan_free_def FartherFirst_def E_def)
  have "E = {} \<or> ef \<le> length res" using d(9) by (auto simp: E_def)
  then have a: "E = {} \<or> res \<noteq> [] \<and> FartherFirst (dist ix q c, c) (pq_top res)"
  proof (cases "ef \<le> length res")
    case True
    then have "res \<noteq> []" using n by auto
    then show ?thesis using d(7) adm True by (simp add: FartherFirst_def)
  qed simp
  note k = res_push_keep_best [OF d(10) [OF n] h e a, of ef, folded r_def]
  then show "is_heap FartherFirst r" by blast
  assume i: "i \<in> insert c V" "eligible ix fd i" "i \<notin> snd ` set r" and y: "y \<in> set r"
  have "(dist ix q i, i) \<in> E \<union> (insert (dist ix q c, c) (set res) - set r)"
  proof (cases "i = c \<or> i \<in> snd ` set res")
    case True
    then have "(dist ix q i, i) \<in> insert (dist ix q c, c) (set res)" using d(4) by auto
    moreover have "(dist ix q i, i) \<notin> set r" using i(3) by (metis image_eqI snd_conv)
    ultimately show ?thesis by blast
  qed (use i in \<open>auto simp: E_def\<close>)
  then have "\<not> FartherFirst (dist ix q i, i) y" using k y by blast
  then show "\<not> dist ix q i < fst y" by (simp add: FartherFirst_def)
qed

lemma beam_inv_admit:
  assumes inv: "beam_inv ix q ef l fd entry X V fr res w"
    and c: "node ix l c" "c \<in> reachable ix l entry" "c \<notin> V" and adm: "length res < ef \<or> dist ix q c < w"
    and r: "r = (if eligible ix fd c then res_push ef (dist ix q c, c) res else res)"
  shows "beam_inv ix q ef l fd entry X (insert c V) (pq_push CloserFirst (dist ix q c, c) fr) r
    (if r \<noteq> [] then fst (pq_top r) else w)"
proof -
  note d = beam_invD [OF inv] and p = beam_inv_results [OF inv c(3)]
  note best = beam_inv_best [OF inv c(1,3) adm]
  have sub: "snd ` set r \<subseteq> insert c (snd ` set res)" "length res \<le> length r" "length r \<le> max ef 1"
    "distinct (map snd r)" "set r \<subseteq> insert (dist ix q c, c) (set res)"
    using r p d(5,6) set_res_push [of ef "(dist ix q c, c)" res] by (auto split: if_splits)
  show ?thesis
  proof (rule beam_invI)
    fix i assume "i \<in> insert c V" "i \<notin> X"
    then show "i \<in> snd ` set (pq_push CloserFirst (dist ix q c, c) fr) \<or>
        set (adj ix i l) \<subseteq> insert c V \<or> i \<notin> snd ` set r \<and> ef \<le> length r"
      using d(8) [of i] sub(1,2) by (cases "i = c") (auto dest: order_trans)
  next
    fix i assume "i \<in> insert c V" "eligible ix fd i"
    then show "i \<in> snd ` set r \<or> ef \<le> length r"
      using d(9) [of i] r p by (cases "length res < ef") (auto split: if_splits)
  next
    show "is_heap CloserFirst (pq_push CloserFirst (dist ix q c, c) fr)" if "nan_free ix q l \<and> 0 < ef"
      using d(2,3) d(11) [OF that] that c(1)
      by (intro closer.pq.invar_push) (auto simp: cand_ok_def nan_free_def)
  next
    fix y assume "y \<in> set r"
    then show "fst y = dist ix q (snd y) \<and> snd y \<in> insert c V \<and> eligible ix fd (snd y)"
      using d(4) [of y] r sub(5) by (cases "y = (dist ix q c, c)") (auto split: if_splits)
  next
    show "is_heap FartherFirst r" if "nan_free ix q l \<and> 0 < ef" using best(1) [OF that] d(10) [OF that] r by simp
  next
    fix i y assume "nan_free ix q l \<and> 0 < ef" "i \<in> insert c V" "eligible ix fd i" "i \<notin> snd ` set r" "y \<in> set r"
    then show "\<not> dist ix q i < fst y"
      using best(2) [of i y] d(12) [of i y] r by (cases "eligible ix fd c") auto
  qed (use d c sub in auto)
qed

text \<open>The same over the state of the search, and one neighbour of the expanded node.\<close>

definition beam_st :: "index \<Rightarrow> f32 list \<Rightarrow> nat \<Rightarrow> int \<Rightarrow> bool \<Rightarrow> nat \<Rightarrow> nat set \<Rightarrow> beam \<Rightarrow> bool" where
  "beam_st ix q ef l fd entry X s \<longleftrightarrow> vl_ok (ix_maxElements ix) (bm_visited s) \<and>
     beam_inv ix q ef l fd entry X (visited (bm_visited s)) (bm_frontier s) (bm_results s) (bm_worst s)"

lemma beam_visit_step:
  assumes "shape ix" "beam_st ix q ef l fd entry X s" "node ix l c" "c \<in> reachable ix l entry"
  shows "\<exists>s'. beam_visit ix q ef fd s c = Some s' \<and> beam_st ix q ef l fd entry X s' \<and>
    visited (bm_visited s') = insert c (visited (bm_visited s))"
proof -
  note inv = assms(2) [unfolded beam_st_def, THEN conjunct2]
  have c: "c < ix_maxElements ix" by (rule node_maxElements [OF assms(1,3)])
  obtain v where v: "testAndSet c (bm_visited s) = Some (c \<in> visited (bm_visited s), v)"
    "vl_ok (ix_maxElements ix) v" "visited v = insert c (visited (bm_visited s))"
    using vl.test_set [OF _ c] assms(2) unfolding beam_st_def by blast
  have d: "distance ix q c = Some (dist ix q c)" by (rule distance_dist [OF assms(1) c])
  have a: "admits ix fd c = Some (eligible ix fd c)" by (rule admits_eligible [OF assms(1) c])
  consider (seen) "c \<in> visited (bm_visited s)"
    | (admit) "c \<notin> visited (bm_visited s)" "length (bm_results s) < ef \<or> dist ix q c < bm_worst s"
    | (reject) "c \<notin> visited (bm_visited s)" "ef \<le> length (bm_results s)" "\<not> dist ix q c < bm_worst s"
    by linarith
  then show ?thesis
  proof cases
    case seen
    then show ?thesis using v inv by (simp add: beam_visit_def beam_st_def insert_absorb)
  next
    case admit
    define r where "r = (if eligible ix fd c then res_push ef (dist ix q c, c) (bm_results s) else bm_results s)"
    let ?s = "s\<lparr>bm_visited := v, bm_frontier := pq_push CloserFirst (dist ix q c, c) (bm_frontier s),
      bm_results := r, bm_worst := (if r \<noteq> [] then fst (pq_top r) else bm_worst s)\<rparr>"
    have "beam_visit ix q ef fd s c = Some ?s"
      using admit v(1) d a by (simp add: beam_visit_def beam_admit_def res_push_def r_def Let_def)
    moreover have "beam_st ix q ef l fd entry X ?s"
      using beam_inv_admit [OF inv assms(3,4) admit r_def] v(2,3) by (simp add: beam_st_def)
    ultimately show ?thesis using v(3) by simp
  next
    case reject
    then show ?thesis
      using beam_inv_reject [OF inv assms(3,4) reject] v d by (simp add: beam_visit_def beam_st_def)
  qed
qed

lemma reachable_adj:
  "node ix l i \<Longrightarrow> i \<in> reachable ix l e \<Longrightarrow> j \<in> set (adj ix i l) \<Longrightarrow> j \<in> reachable ix l e"
  by (auto simp: reachable_def edges_def intro: rtrancl_into_rtrancl)

lemma beam_inv_pop:
  assumes inv: "beam_inv ix q ef l fd entry {} V fr res w" and ne: "fr \<noteq> []"
  shows "beam_inv ix q ef l fd entry {snd (pq_top fr)} V (pq_pop CloserFirst fr) res w"
proof -
  note d = beam_invD [OF inv]
  have "set_mset (add_mset (pq_top fr) (mset (pq_pop CloserFirst fr))) = set fr"
    by (simp only: pq_pop_mset [OF ne] set_mset_mset)
  then have fr: "set fr = insert (pq_top fr) (set (pq_pop CloserFirst fr))" by simp
  show ?thesis
  proof (rule beam_invI)
    fix i assume "i \<in> V" "i \<notin> {snd (pq_top fr)}"
    then show "i \<in> snd ` set (pq_pop CloserFirst fr) \<or> set (adj ix i l) \<subseteq> V \<or> i \<notin> snd ` set res \<and> ef \<le> length res"
      using d(8) [of i] by (auto simp: fr)
  next
    show "is_heap CloserFirst (pq_pop CloserFirst fr)" if n: "nan_free ix q l \<and> 0 < ef"
      using ne d(2,3) n by (intro closer.pq.invar_pop [OF d(11) [OF n]]) (auto simp: cand_ok_def nan_free_def)
  qed (use d fr in auto)
qed

lemma beam_inv_close:
  assumes inv: "beam_inv ix q ef l fd entry {n} V fr res w" and "set (adj ix n l) \<subseteq> V"
  shows "beam_inv ix q ef l fd entry {} V fr res w"
proof -
  note d = beam_invD [OF inv]
  show ?thesis
  proof (rule beam_invI)
    fix i assume "i \<in> V"
    then show "i \<in> snd ` set fr \<or> set (adj ix i l) \<subseteq> V \<or> i \<notin> snd ` set res \<and> ef \<le> length res"
      using d(8) [of i] assms(2) by (cases "i = n") auto
  qed (use d in auto)
qed

lemma beam_expand:
  assumes "shape ix" "graph_ok ix" "beam_st ix q ef l fd entry {} s" "bm_frontier s \<noteq> []"
  defines "n \<equiv> snd (pq_top (bm_frontier s))"
  shows "\<exists>s'. foldM (beam_visit ix q ef fd) (s\<lparr>bm_frontier := pq_pop CloserFirst (bm_frontier s)\<rparr>) (adj ix n l) = Some s' \<and>
    beam_st ix q ef l fd entry {} s'" (is "\<exists>s'. foldM _ ?s _ = _ \<and> _")
    and "copyLinks ix n l = Some (adj ix n l)"
proof -
  note inv = assms(3) [unfolded beam_st_def, THEN conjunct2]
  have "pq_top (bm_frontier s) \<in> set (bm_frontier s)" using closer.pq.top_in [of "bm_frontier s"] assms(4) by simp
  then have n: "node ix l n" "n \<in> reachable ix l entry"
    using beam_invD(2,3) [OF inv] by (auto simp: n_def)
  note lk = graph_adj [OF assms(2) n(1)]
  show "copyLinks ix n l = Some (adj ix n l)" by (rule readLinks_adj [OF assms(1) n(1) lk(1)])
  have "beam_st ix q ef l fd entry {n} ?s"
    using beam_inv_pop [OF inv assms(4)] assms(3) by (simp add: beam_st_def n_def)
  then have "\<exists>s'. foldM (beam_visit ix q ef fd) ?s (adj ix n l) = Some s' \<and>
    beam_st ix q ef l fd entry {n} s' \<and> set (adj ix n l) \<subseteq> visited (bm_visited s')"
  proof (intro foldM_rule)
    fix ys c zs t
    assume "adj ix n l = ys @ c # zs" and t: "beam_st ix q ef l fd entry {n} t \<and> set ys \<subseteq> visited (bm_visited t)"
    then have c: "c \<in> set (adj ix n l)" by simp
    show "\<exists>t'. beam_visit ix q ef fd t c = Some t' \<and> beam_st ix q ef l fd entry {n} t' \<and>
        set (ys @ [c]) \<subseteq> visited (bm_visited t')"
      using beam_visit_step [OF assms(1) t [THEN conjunct1] lk(2) [OF c] reachable_adj [OF n c]] t by auto
  qed simp
  then obtain s' where s': "foldM (beam_visit ix q ef fd) ?s (adj ix n l) = Some s'"
    "beam_st ix q ef l fd entry {n} s'" "set (adj ix n l) \<subseteq> visited (bm_visited s')" by blast
  moreover from s' have "beam_st ix q ef l fd entry {} s'" by (auto simp: beam_st_def intro: beam_inv_close)
  ultimately show "\<exists>s'. foldM (beam_visit ix q ef fd) ?s (adj ix n l) = Some s' \<and>
    beam_st ix q ef l fd entry {} s'" by blast
qed

definition beam_done :: "nat \<Rightarrow> beam \<Rightarrow> bool" where
  "beam_done ef s \<longleftrightarrow> bm_frontier s = [] \<or>
     bm_worst s < fst (pq_top (bm_frontier s)) \<and> ef \<le> length (bm_results s)"

lemma search_loop_spec:
  assumes "shape ix" "graph_ok ix" "beam_st ix q ef l fd entry {} s"
  shows "\<exists>s'. search_loop ix q ef l fd s = Some s' \<and> beam_st ix q ef l fd entry {} s' \<and> beam_done ef s'"
  using assms
proof (induction ix q ef l fd s rule: search_loop.induct)
  case (1 ix q ef l fd s)
  show ?case
  proof (cases "beam_done ef s")
    case True
    then show ?thesis using "1.prems"(3) by (subst search_loop.simps) (auto simp: beam_done_def Let_def)
  next
    case False
    then have ne: "bm_frontier s \<noteq> []"
      and go: "\<not> (bm_worst s < fst (pq_top (bm_frontier s)) \<and> ef \<le> length (bm_results s))"
      by (auto simp: beam_done_def)
    note e = beam_expand [OF "1.prems" ne]
    obtain s' where s': "foldM (beam_visit ix q ef fd) (s\<lparr>bm_frontier := pq_pop CloserFirst (bm_frontier s)\<rparr>)
        (adj ix (snd (pq_top (bm_frontier s))) l) = Some s'" "beam_st ix q ef l fd entry {} s'"
      using e(1) by blast
    have "search_loop ix q ef l fd s = search_loop ix q ef l fd s'"
      using ne go e(2) s'(1) by (subst search_loop.simps) (auto simp: Let_def)
    then show ?thesis using "1.IH" [OF ne refl go e(2) s'(1) "1.prems"(1,2) s'(2)] by simp
  qed
qed

text \<open>
  What \<open>searchLayer\<close> returns: distinct eligible nodes reachable from the entry, with their
  distances; all of them if fewer than \<open>ef\<close>; and, without NaNs, a heap none of whose nodes has
  an eligible neighbour that is closer than some kept node and was left out.
\<close>

definition beam_result :: "index \<Rightarrow> f32 list \<Rightarrow> nat \<Rightarrow> int \<Rightarrow> bool \<Rightarrow> nat \<Rightarrow> cand list \<Rightarrow> bool" where
  "beam_result ix q ef l fd entry res \<longleftrightarrow>
     (\<forall>c \<in> set res. fst c = dist ix q (snd c) \<and> node ix l (snd c) \<and> snd c \<in> reachable ix l entry \<and>
        eligible ix fd (snd c)) \<and>
     distinct (map snd res) \<and> length res \<le> max ef 1 \<and>
     (length res < ef \<longrightarrow> snd ` set res = {i \<in> reachable ix l entry. eligible ix fd i}) \<and>
     (nan_free ix q l \<and> 0 < ef \<longrightarrow> is_heap FartherFirst res \<and>
        (\<forall>c \<in> set res. \<forall>j \<in> set (adj ix (snd c) l). eligible ix fd j \<longrightarrow>
           j \<in> snd ` set res \<or> (\<forall>y \<in> set res. \<not> dist ix q j < fst y)))"

lemma reachable_closed:
  assumes "entry \<in> V" "\<And>i. i \<in> V \<Longrightarrow> node ix l i \<Longrightarrow> set (adj ix i l) \<subseteq> V"
  shows "reachable ix l entry \<subseteq> V"
proof -
  have "j \<in> V" if "(entry, j) \<in> (edges ix l)\<^sup>*" for j
    using that by induction (use assms in \<open>auto simp: edges_def\<close>)
  then show ?thesis by (auto simp: reachable_def)
qed

lemma beam_done_closed:
  assumes "beam_inv ix q ef l fd entry {} V fr res w"
    and "fr = [] \<or> w < fst (pq_top fr) \<and> ef \<le> length res" and n: "nan_free ix q l \<and> 0 < ef"
    and c: "c \<in> set res"
  shows "set (adj ix (snd c) l) \<subseteq> V"
proof -
  note d = beam_invD [OF assms(1)]
  have nres: "res \<noteq> []" using c by auto
  have ok: "\<forall>y \<in> set res. cand_ok y" "\<forall>y \<in> set fr. cand_ok y"
    using d(2,3,4) n by (auto simp: cand_ok_def nan_free_def)
  have "snd c \<notin> snd ` set fr"
  proof
    assume "snd c \<in> snd ` set fr"
    then have cf: "c \<in> set fr" using d(3) d(4) [OF c] by (metis imageE prod_eqI)
    then have "w < fst (pq_top fr)" using assms(2) by auto
    moreover have "\<not> CloserFirst (pq_top fr) c" using closer.pq.top_max [OF d(11) [OF n], of c] ok(2) cf by simp
    moreover have "\<not> FartherFirst (pq_top res) c" using farther.pq.top_max [OF d(10) [OF n], of c] ok(1) c by simp
    moreover have "\<not> f32_is_nan (fst c)" "\<not> f32_is_nan w"
      using ok(1) c farther.pq.top_in [of res] d(7) [OF nres] nres by (auto simp: cand_ok_def)
    ultimately show False
      using d(7) [OF nres] f32_not_less_trans [of "fst c" w "fst (pq_top fr)"]
      by (auto simp: CloserFirst_def FartherFirst_def)
  qed
  moreover have "snd c \<in> V" "snd c \<in> snd ` set res" using d(4) c by auto
  ultimately show ?thesis using d(8) [of "snd c"] by auto
qed

lemma beam_done_result:
  assumes inv: "beam_inv ix q ef l fd entry {} V fr res w"
    and fin: "fr = [] \<or> w < fst (pq_top fr) \<and> ef \<le> length res"
  shows "beam_result ix q ef l fd entry res"
  unfolding beam_result_def
proof (intro conjI impI ballI)
  note d = beam_invD [OF inv]
  show "snd ` set res = {i \<in> reachable ix l entry. eligible ix fd i}" if "length res < ef"
  proof -
    have "reachable ix l entry \<subseteq> V" using that fin d(8) by (intro reachable_closed [OF d(1)]) auto
    then show ?thesis using that d(2,4,9) by fastforce
  qed
  fix c j assume n: "nan_free ix q l \<and> 0 < ef" and c: "c \<in> set res" and j: "j \<in> set (adj ix (snd c) l)" "eligible ix fd j"
  have "j \<in> V" using beam_done_closed [OF assms n c] j by blast
  then show "j \<in> snd ` set res \<or> (\<forall>y \<in> set res. \<not> dist ix q j < fst y)" using d(12) [OF n _ j(2)] by blast
qed (use beam_invD [OF inv] in auto)

lemma beam_inv_start:
  assumes "node ix l entry" "d = dist ix q entry"
    and "res = (if eligible ix fd entry then [(d, entry)] else [])" "res \<noteq> [] \<longrightarrow> w = d"
  shows "beam_inv ix q ef l fd entry {} {entry} [(d, entry)] res w"
  by (rule beam_invI) (use assms in \<open>auto simp: reachable_def is_heap_def pq_top_def split: if_splits\<close>)

lemma pq_push_Nil [simp]: "pq_push lt x [] = [x]"
  by (simp add: pq_push_def sift_up.simps)

lemma searchLayer_spec:
  assumes "shape ix" "graph_ok ix" "node ix l entry"
  shows "\<exists>res p. searchLayer ix q entry ef l fd = Some (res, ix\<lparr>ix_visitedPool := p\<rparr>) \<and>
    pool_ok p \<and> vp_n p = ix_maxElements ix \<and> beam_result ix q ef l fd entry res"
proof -
  let ?n = "ix_maxElements ix" and ?d = "dist ix q entry"
  have e: "entry < ?n" by (rule node_maxElements [OF assms(1,3)])
  obtain v0 pool where a: "acquire (ix_visitedPool ix) = (v0, pool)" by (cases "acquire (ix_visitedPool ix)")
  then have v0: "vl_ok ?n v0" "pool_ok pool" "vp_n pool = ?n"
    using acquire_ok [OF shapeD(8) [OF assms(1)] a] shapeD(9) [OF assms(1)] by simp_all
  obtain v where v: "testAndSet entry (reset v0) = Some (False, v)" "vl_ok ?n v" "visited v = {entry}"
    using vl.test_set [OF _ e] vl.clear_ok [OF v0(1)] by fastforce
  define r where "r = (if eligible ix fd entry then [(?d, entry)] else [])"
  define s where "s = \<lparr>bm_frontier = [(?d, entry)], bm_results = r,
    bm_worst = (if r = [] then f32_max else fst (pq_top r)), bm_visited = v\<rparr>"
  have "beam_st ix q ef l fd entry {} s"
    using beam_inv_start [where w = "bm_worst s" and ef = ef, OF assms(3) refl r_def] v
    by (auto simp: beam_st_def s_def r_def pq_top_def split: if_splits)
  then obtain s' where s': "search_loop ix q ef l fd s = Some s'" "beam_st ix q ef l fd entry {} s'" "beam_done ef s'"
    using search_loop_spec [OF assms(1,2)] by blast
  have "searchLayer ix q entry ef l fd = Some (bm_results s', ix\<lparr>ix_visitedPool := release (bm_visited s') pool\<rparr>)"
    by (simp only: searchLayer_def a prod.case option.case option.map Let_def distance_dist [OF assms(1) e]
        admits_eligible [OF assms(1) e] pq_push_Nil r_def [symmetric] v(1) s_def [symmetric] s'(1))
  moreover have "pool_ok (release (bm_visited s') pool)" "vp_n (release (bm_visited s') pool) = ?n"
    using s'(2) v0 by (simp_all add: beam_st_def release_ok)
  moreover have "beam_result ix q ef l fd entry (bm_results s')"
    by (rule beam_done_result) (use s'(2,3) in \<open>auto simp: beam_st_def beam_done_def\<close>)
  ultimately show ?thesis by blast
qed

section \<open>The query\<close>

lemma top_k_props:
  defines "rest \<equiv> \<lambda>k heap. pq_pops pq_top (pq_pop FartherFirst) (length heap - k) heap"
  shows "mset (top_k k heap) + mset (rest k heap) = mset heap" "length (top_k k heap) = min k (length heap)"
    "is_heap FartherFirst heap \<Longrightarrow> \<forall>c \<in> set heap. cand_ok c \<Longrightarrow>
      sorted_wrt (\<lambda>x y. \<not> FartherFirst y x) (top_k k heap) \<and>
      (\<forall>x \<in> set (rest k heap). \<forall>y \<in> set (top_k k heap). \<not> FartherFirst x y)"
proof -
  let ?n = "length heap - k"
  let ?h = "(pq_pop FartherFirst ^^ ?n) heap"
  have len: "length ((pq_pop FartherFirst ^^ n) heap) = length heap - n" for n
    by (induction n) auto
  have p: "mset (rest k heap) + mset ?h = mset heap"
    unfolding rest_def by (rule farther.pq.pops_elems) simp
  have t: "mset (top_k k heap) = mset ?h"
    using farther.pq.drain_elems [of ?h] by (simp add: top_k_def Let_def)
  show "mset (top_k k heap) + mset (rest k heap) = mset heap" using p t by (simp add: union_commute)
  show "length (top_k k heap) = min k (length heap)" by (simp add: top_k_def Let_def len min_def)
  assume h: "is_heap FartherFirst heap" "\<forall>c \<in> set heap. cand_ok c"
  then have s: "is_heap FartherFirst ?h" "\<forall>x \<in> set (rest k heap). \<forall>y \<in> set ?h. \<not> FartherFirst x y"
    using farther.pq.pops_spec [OF h(1), of ?n] by (auto simp: rest_def)
  have ok: "\<forall>c \<in> set ?h. cand_ok c" using h(2) p by (metis set_mset_mset union_iff)
  have "sorted_wrt (\<lambda>x y. \<not> FartherFirst y x) (top_k k heap)"
    using farther.pq.drain_spec [OF s(1)] ok by (simp add: top_k_def Let_def sorted_wrt_rev)
  moreover have "set (top_k k heap) = set ?h" using t by (metis set_mset_mset)
  ultimately show "sorted_wrt (\<lambda>x y. \<not> FartherFirst y x) (top_k k heap) \<and>
      (\<forall>x \<in> set (rest k heap). \<forall>y \<in> set (top_k k heap). \<not> FartherFirst x y)" using s(2) by simp
qed

text \<open>The vector the graph is searched with.\<close>

definition query_vec :: "index \<Rightarrow> f32 list \<Rightarrow> f32 list" where
  "query_vec ix query = (case ix_space ix of Cosine \<Rightarrow> normalizeInPlace ix (take (ix_dim ix) query)
                                           | L2 \<Rightarrow> take (ix_dim ix) query)"

text \<open>The answers are at most \<open>k\<close> distinct live labels with their distances.\<close>

definition answers_ok :: "index \<Rightarrow> f32 list \<Rightarrow> nat \<Rightarrow> search_result list \<Rightarrow> bool" where
  "answers_ok ix q k out \<longleftrightarrow> length out \<le> k \<and> distinct (map sr_label out) \<and>
     (\<forall>r \<in> set out. \<exists>v. abs_ix ix (sr_label r) = Some (v, False) \<and> sr_distance r = rawDistance ix q v)"

definition ascending :: "search_result list \<Rightarrow> bool" where
  "ascending out \<longleftrightarrow> sorted_wrt (\<lambda>x y. \<not> sr_distance y < sr_distance x) out"

text \<open>
  The exact \<open>k\<close> nearest neighbours: \<open>k\<close> distinct live labels with their true
  distances (all live labels, if there are fewer), and no live vector that is left out is closer.
\<close>

definition exact_knn :: "index \<Rightarrow> f32 list \<Rightarrow> nat \<Rightarrow> search_result list \<Rightarrow> bool" where
  "exact_knn ix q k out \<longleftrightarrow> answers_ok ix q k out \<and> length out = min k (activeSize ix) \<and>
     (\<forall>lab v. abs_ix ix lab = Some (v, False) \<longrightarrow> lab \<notin> sr_label ` set out \<longrightarrow>
        (\<forall>r \<in> set out. \<not> rawDistance ix q v < sr_distance r))"

text \<open>Every live node can be reached in layer 0 from every node.\<close>

definition connected0 :: "index \<Rightarrow> bool" where
  "connected0 ix \<longleftrightarrow> (\<forall>i < ix_count ix. \<forall>j < ix_count ix. \<not> is_del ix j \<longrightarrow> j \<in> reachable ix 0 i)"

definition answer :: "index \<Rightarrow> cand \<Rightarrow> search_result" where
  "answer ix c = \<lparr>sr_label = ix_labels ix ! snd c, sr_distance = fst c\<rparr>"

lemma answer_simps [simp]: "sr_label (answer ix c) = ix_labels ix ! snd c" "sr_distance (answer ix c) = fst c"
  by (simp_all add: answer_def)

lemma label_abs:
  assumes "wf_ix ix" "i < ix_count ix"
  shows "ix_labelToId ix (ix_labels ix ! i) = Some i" "abs_ix ix (ix_labels ix ! i) = Some (vec ix i, is_del ix i)"
proof -
  show l: "ix_labelToId ix (ix_labels ix ! i) = Some i" using assms by (simp add: wf_ix_def labels_ok_def)
  then show "abs_ix ix (ix_labels ix ! i) = Some (vec ix i, is_del ix i)" by (simp add: abs_ix_def)
qed

lemma labels_inj_on: "wf_ix ix \<Longrightarrow> inj_on ((!) (ix_labels ix)) {..<ix_count ix}"
  by (rule inj_onI) (metis label_abs(1) lessThan_iff option.inject)

lemma abs_live:
  assumes "wf_ix ix" "abs_ix ix lab = Some (v, False)"
  obtains i where "i < ix_count ix" "ix_labels ix ! i = lab" "v = vec ix i" "\<not> is_del ix i"
  using assms(2) labels_lookup(1,2) [OF assms(1), of lab] that by (auto simp: abs_ix_def)

lemma beam_result_cut:
  assumes "beam_result ix q ef 0 True entry res"
  shows "set (top_k k res) \<subseteq> set res" "distinct (map snd (top_k k res))" "length (top_k k res) \<le> k"
    "0 < ef \<Longrightarrow> nan_free ix q 0 \<Longrightarrow> sorted_wrt (\<lambda>x y. \<not> fst y < fst x) (top_k k res) \<and>
      (\<forall>x \<in> set res - set (top_k k res). \<forall>y \<in> set (top_k k res). \<not> fst x < fst y)"
proof -
  note t = top_k_props [where k = k and heap = res]
  have sub: "mset (top_k k res) \<subseteq># mset res" using t(1) by (metis mset_subset_eq_add_left)
  then show "set (top_k k res) \<subseteq> set res" by (metis set_mset_mono set_mset_mset)
  show "distinct (map snd (top_k k res))"
    by (rule distinct_submset [of _ "map snd res"])
       (use assms image_mset_subseteq_mono [OF sub, of snd] in \<open>auto simp: beam_result_def\<close>)
  show "length (top_k k res) \<le> k" using t(2) by simp
  assume "0 < ef" "nan_free ix q 0"
  then have "is_heap FartherFirst res" "\<forall>c \<in> set res. cand_ok c"
    using assms by (auto simp: beam_result_def cand_ok_def nan_free_def)
  note s = t(3) [OF this]
  have "set res - set (top_k k res) \<subseteq> set (pq_pops pq_top (pq_pop FartherFirst) (length res - k) res)"
    using arg_cong [OF t(1), of set_mset] by auto
  then show "sorted_wrt (\<lambda>x y. \<not> fst y < fst x) (top_k k res) \<and>
      (\<forall>x \<in> set res - set (top_k k res). \<forall>y \<in> set (top_k k res). \<not> fst x < fst y)"
    using s unfolding FartherFirst_def by blast
qed

lemma answers_cut:
  assumes "wf_ix ix" "beam_result ix q ef 0 True entry res"
  shows "answers_ok ix q k (map (answer ix) (top_k k res))"
proof -
  note c = beam_result_cut [OF assms(2), of k]
  have r: "\<forall>c \<in> set (top_k k res). fst c = dist ix q (snd c) \<and> snd c < ix_count ix \<and> \<not> is_del ix (snd c)"
    using c(1) assms(2) by (auto simp: beam_result_def eligible_def node_def)
  have "inj_on ((!) (ix_labels ix)) (set (map snd (top_k k res)))"
    by (rule inj_on_subset [OF labels_inj_on [OF assms(1)]]) (use r in auto)
  then have "distinct (map ((!) (ix_labels ix)) (map snd (top_k k res)))" using c(2) by (simp only: distinct_map simp_thms)
  then show ?thesis
    using c(3) r label_abs(2) [OF assms(1)] by (auto simp: answers_ok_def o_def dist_def)
qed

lemma beam_result_full:
  assumes "beam_result ix q ef 0 True entry res" "card {i \<in> reachable ix 0 entry. \<not> is_del ix i} \<le> ef"
    "finite (reachable ix 0 entry)"
  shows "snd ` set res = {i \<in> reachable ix 0 entry. \<not> is_del ix i}"
proof (cases "length res < ef")
  case True
  then show ?thesis using assms(1) by (simp add: beam_result_def eligible_def)
next
  case False
  have "card (snd ` set res) = length res"
    using assms(1) distinct_card [of "map snd res"] by (simp add: beam_result_def)
  moreover have "snd ` set res \<subseteq> {i \<in> reachable ix 0 entry. \<not> is_del ix i}"
    using assms(1) by (auto simp: beam_result_def eligible_def)
  ultimately show ?thesis using False assms(2,3) by (intro card_subset_eq) (auto dest: card_mono [rotated])
qed

lemma reachable_nodes:
  assumes "graph_ok ix" "node ix l e" shows "reachable ix l e \<subseteq> {i. node ix l i}" "finite (reachable ix l e)"
proof -
  show s: "reachable ix l e \<subseteq> {i. node ix l i}"
    using reachable_closed [of e "{i. node ix l i}" ix l] assms graph_adj(2) [OF assms(1)] by auto
  have "finite {i. node ix l i}" by (rule finite_subset [of _ "{..<ix_count ix}"]) (auto simp: node_def)
  with s show "finite (reachable ix l e)" by (rule finite_subset)
qed

lemma knn_cut:
  assumes w: "wf_ix ix" and r: "beam_result ix q (max ef k) 0 True entry res" and e: "node ix 0 entry"
    and c: "connected0 ix" and n: "nan_free ix q 0" and a: "activeSize ix \<le> max ef k"
  shows "exact_knn ix q k (map (answer ix) (top_k k res))"
proof -
  note cut = beam_result_cut [OF r, of k]
  have g: "graph_ok ix" using w by (simp add: wf_ix_def)
  let ?L = "{i. i < ix_count ix \<and> \<not> is_del ix i}"
  have live: "{i \<in> reachable ix 0 entry. \<not> is_del ix i} = ?L"
    using reachable_nodes(1) [OF g e] c e by (auto simp: connected0_def node_def)
  have full: "snd ` set res = ?L"
    using beam_result_full [OF r] live reachable_nodes(2) [OF g e] a activeSize_card [OF w] by simp
  have "length res = card ?L"
    using distinct_card [of "map snd res"] r full by (simp add: beam_result_def)
  then have len: "length (top_k k res) = min k (activeSize ix)"
    using top_k_props(2) [where k = k and heap = res] activeSize_card [OF w] by simp
  have "\<not> rawDistance ix q v < fst y"
    if l: "abs_ix ix lab = Some (v, False)" "lab \<notin> sr_label ` set (map (answer ix) (top_k k res))"
      and y: "y \<in> set (top_k k res)" for lab v y
  proof -
    obtain i where i: "i < ix_count ix" "ix_labels ix ! i = lab" "v = vec ix i" "\<not> is_del ix i"
      using abs_live [OF w l(1)] .
    then obtain x where x: "x \<in> set res" "snd x = i" using full by (metis (no_types, lifting) imageE mem_Collect_eq)
    have "0 < max ef k" using y cut(3) by (cases k) auto
    moreover have "x \<notin> set (top_k k res)" using l(2) x(2) i(2) by (auto simp: image_iff)
    moreover have "fst x = rawDistance ix q v" using r x i(3) by (auto simp: beam_result_def dist_def)
    ultimately show ?thesis using cut(4) n x(1) y by (metis DiffI)
  qed
  then show ?thesis using len answers_cut [OF w r] by (auto simp: exact_knn_def)
qed

lemma prepare_query_Some: "ix_dim ix \<le> length query \<Longrightarrow> prepare_query ix query = Some (query_vec ix query)"
  by (simp add: prepare_query_def query_vec_def rd_range_def split: space.split)

lemma search_layers:
  assumes w: "wf_ix ix" and d: "ix_dim ix \<le> length query" and c: "ix_count ix \<noteq> 0"
  shows "\<exists>res p e. search ix query k ef = Some (map (answer ix) (top_k k res), ix\<lparr>ix_visitedPool := p\<rparr>) \<and>
    pool_ok p \<and> vp_n p = ix_maxElements ix \<and> node ix 0 e \<and>
    beam_result ix (query_vec ix query) (max ef k) 0 True e res"
proof -
  let ?q = "query_vec ix query"
  have sg: "shape ix" "graph_ok ix" using w by (simp_all add: wf_ix_def)
  have e: "node ix (ix_maxLevel ix) (ix_entryPoint ix)" "0 \<le> ix_maxLevel ix" "ix_entryPoint ix \<noteq> kNone"
    using w c by (auto simp: wf_ix_def entry_ok_def node_def shape_def kNone_def)
  obtain cur where d0: "descend ix ?q (ix_entryPoint ix) (ix_maxLevel ix) 0 = Some cur"
    "node ix (if 0 < ix_maxLevel ix then 0 + 1 else 0) cur"
    using descend_spec [OF sg e(1) order_refl e(2)] by blast
  then have cur: "descend ix ?q (ix_entryPoint ix) (ix_maxLevel ix) 0 = Some cur" "node ix 0 cur"
    using node_mono [OF d0(2)] by auto
  obtain res p where r: "searchLayer ix ?q cur (max ef k) 0 True = Some (res, ix\<lparr>ix_visitedPool := p\<rparr>)"
    "pool_ok p" "vp_n p = ix_maxElements ix" "beam_result ix ?q (max ef k) 0 True cur res"
    using searchLayer_spec [OF sg cur(2)] by blast
  have "snd x < length (ix_labels ix)" if "x \<in> set (top_k k res)" for x
    using beam_result_cut(1) [OF r(4)] r(4) shapeD(3,7) [OF sg(1)] that by (force simp: beam_result_def node_def)
  then have "\<forall>x \<in> set (top_k k res). to_result ix x = Some (answer ix x)"
    by (simp add: to_result_def rd_def answer_def)
  then have "those (map (to_result ix) (top_k k res)) = Some (map (answer ix) (top_k k res))" by (rule those_map_Some)
  then have "search ix query k ef = Some (map (answer ix) (top_k k res), ix\<lparr>ix_visitedPool := p\<rparr>)"
    by (simp only: search_def c e(3) if_False prepare_query_Some [OF d] option.case prod.case cur(1) r(1) option.map)
  then show ?thesis using r(2,3,4) cur(2) by blast
qed

lemma pool_views [simp]:
  "vec (ix\<lparr>ix_visitedPool := p\<rparr>) = vec ix" "lvl (ix\<lparr>ix_visitedPool := p\<rparr>) = lvl ix"
  "blk (ix\<lparr>ix_visitedPool := p\<rparr>) = blk ix" "adj (ix\<lparr>ix_visitedPool := p\<rparr>) = adj ix"
  "node (ix\<lparr>ix_visitedPool := p\<rparr>) = node ix" "maxDegree (ix\<lparr>ix_visitedPool := p\<rparr>) = maxDegree ix"
  "is_del (ix\<lparr>ix_visitedPool := p\<rparr>) = is_del ix" "links_ok (ix\<lparr>ix_visitedPool := p\<rparr>) = links_ok ix"
  "rawDistance (ix\<lparr>ix_visitedPool := p\<rparr>) = rawDistance ix" "dist (ix\<lparr>ix_visitedPool := p\<rparr>) = dist ix"
  by (simp_all add: fun_eq_iff vec_def lvl_def blk_def adj_def node_def maxDegree_def is_del_def links_ok_def
      rawDistance_def dist_def split: space.split)

lemma shape_pool: "shape ix \<Longrightarrow> pool_ok p \<Longrightarrow> vp_n p = ix_maxElements ix \<Longrightarrow> shape (ix\<lparr>ix_visitedPool := p\<rparr>)"
  unfolding shape_def by simp

lemma wf_pool:
  assumes "wf_ix ix" "pool_ok p" "vp_n p = ix_maxElements ix"
  shows "wf_ix (ix\<lparr>ix_visitedPool := p\<rparr>)"
  using assms shape_pool [of ix p]
  unfolding wf_ix_def graph_ok_def entry_ok_def labels_ok_def deleted_ok_def unused_ok_def by simp

lemma abs_pool [simp]: "abs_ix (ix\<lparr>ix_visitedPool := p\<rparr>) = abs_ix ix"
  by (simp add: fun_eq_iff abs_ix_def vec_def is_del_def)

text \<open>The query as a whole.\<close>

lemma search_spec:
  assumes w: "wf_ix ix" and d: "ix_dim ix \<le> length query"
  shows "\<exists>out p. search ix query k ef = Some (out, ix\<lparr>ix_visitedPool := p\<rparr>) \<and>
    wf_ix (ix\<lparr>ix_visitedPool := p\<rparr>) \<and> answers_ok ix (query_vec ix query) k out \<and>
    (nan_free ix (query_vec ix query) 0 \<longrightarrow> ascending out) \<and>
    (nan_free ix (query_vec ix query) 0 \<and> connected0 ix \<and> activeSize ix \<le> max ef k \<longrightarrow>
       exact_knn ix (query_vec ix query) k out)"
proof (cases "ix_count ix = 0")
  case True
  have "activeSize ix = 0" using activeSize_card [OF w] True by simp
  then have "search ix query k ef = Some ([], ix\<lparr>ix_visitedPool := ix_visitedPool ix\<rparr>)" "answers_ok ix q k []"
    "ascending []" "exact_knn ix q k []" for q
    using True by (simp_all add: search_def answers_ok_def ascending_def exact_knn_def)
  moreover have "wf_ix (ix\<lparr>ix_visitedPool := ix_visitedPool ix\<rparr>)" using w by simp
  ultimately show ?thesis by blast
next
  case False
  let ?q = "query_vec ix query"
  obtain res p e where s: "search ix query k ef = Some (map (answer ix) (top_k k res), ix\<lparr>ix_visitedPool := p\<rparr>)"
    "pool_ok p" "vp_n p = ix_maxElements ix" "node ix 0 e" "beam_result ix ?q (max ef k) 0 True e res"
    using search_layers [OF w d False] by blast
  have "ascending (map (answer ix) (top_k k res))" if "nan_free ix ?q 0"
  proof (cases "max ef k = 0")
    case True
    then have "top_k k res = []" using beam_result_cut(3) [OF s(5), of k] by simp
    then show ?thesis by (simp add: ascending_def)
  next
    case False
    then have "0 < max ef k" by linarith
    from beam_result_cut(4) [OF s(5) this that, of k] show ?thesis by (simp add: ascending_def sorted_wrt_map)
  qed
  then show ?thesis using s wf_pool [OF w s(2,3)] answers_cut [OF w s(5)] knn_cut [OF w s(5,4)] by blast
qed

end
