(* ===== verification/Hnsw_Build.thy ===== *)
theory Hnsw_Build
  imports Hnsw_Search
begin

text \<open>
  The write side of \<open>hnsw::Index\<close>: neighbour selection (\<open>selectNeighborsHeuristic\<close>),
  linking a new node into a layer (\<open>connectNewElement\<close>) and the insertion \<open>addPoint\<close>.
  An insertion takes the level that \<open>randomLevel\<close> drew (theory \<open>Hnsw_Level\<close>) as an
  argument: the generator is the only nondeterminism of the class.

  The main result is that \<open>addPoint\<close> returns on every well-formed index, keeps the invariant,
  and adds exactly one live entry to the abstract store; a duplicate label or a full index is an
  error that changes nothing. Every intermediate graph is described by \<open>relinked\<close>: only
  adjacency lists and visited lists differ, and all adjacency lists are well-formed.
\<close>

section \<open>Definitions\<close>

text \<open>\<open>std::pair\<close>'s \<open>operator<\<close>.\<close>

definition cand_less :: "cand \<Rightarrow> cand \<Rightarrow> bool" where
  "cand_less a b \<longleftrightarrow> fst a < fst b \<or> \<not> fst b < fst a \<and> snd a < snd b"

text \<open>The inner loop: is \<open>c\<close> closer to the query than to every node kept so far?\<close>

fun keeps :: "index \<Rightarrow> cand \<Rightarrow> nat list \<Rightarrow> bool option" where
  "keeps ix c [] = Some True"
| "keeps ix c (r # rs) =
     (case (getData ix (snd c), getData ix r) of
        (Some a, Some b) \<Rightarrow> if rawDistance ix a b < fst c then Some False else keeps ix c rs
      | _ \<Rightarrow> None)"

fun select_loop :: "index \<Rightarrow> nat \<Rightarrow> cand list \<Rightarrow> nat list \<Rightarrow> cand list \<Rightarrow> (nat list \<times> cand list) option" where
  "select_loop ix M [] kept discarded = Some (kept, discarded)"
| "select_loop ix M (c # cs) kept discarded =
     (if M \<le> length kept then Some (kept, discarded)
      else case keeps ix c kept of None \<Rightarrow> None
        | Some keep \<Rightarrow> if keep then select_loop ix M cs (kept @ [snd c]) discarded
                       else select_loop ix M cs kept (discarded @ [c]))"

fun backfill :: "nat \<Rightarrow> cand list \<Rightarrow> nat list \<Rightarrow> nat list" where
  "backfill M [] kept = kept"
| "backfill M (d # ds) kept = (if M \<le> length kept then kept else backfill M ds (kept @ [snd d]))"

definition sorted_cands :: "max_heap \<Rightarrow> cand list" where
  "sorted_cands heap = std_sort cand_less (pq_pops pq_top (pq_pop FartherFirst) (length heap) heap)"

definition selectNeighborsHeuristic :: "index \<Rightarrow> max_heap \<Rightarrow> nat \<Rightarrow> nat list option" where
  "selectNeighborsHeuristic ix heap M =
     (let cands = sorted_cands heap
      in if length cands \<le> M then Some (map snd cands)
         else map_option (\<lambda>(kept, discarded). backfill M discarded kept) (select_loop ix M cands [] []))"

text \<open>The pool of a full node: its neighbours and the new node, by distance to it.\<close>

definition pool_push :: "index \<Rightarrow> nat \<Rightarrow> max_heap \<Rightarrow> nat \<Rightarrow> max_heap option" where
  "pool_push ix n pool e =
     (case (getData ix n, getData ix e) of
        (Some a, Some b) \<Rightarrow> Some (pq_push FartherFirst (rawDistance ix a b, e) pool)
      | _ \<Rightarrow> None)"

definition link_back :: "nat \<Rightarrow> int \<Rightarrow> index \<Rightarrow> nat \<Rightarrow> index option" where
  "link_back nid level ix n =
     (case linkBlock ix n level of None \<Rightarrow> None
      | Some b \<Rightarrow> (case rd b 0 of None \<Rightarrow> None
        | Some deg \<Rightarrow>
            if deg < maxDegree ix level
            then (case linkStore ix n level (deg + 1) nid of None \<Rightarrow> None
                  | Some ix' \<Rightarrow> linkStore ix' n level 0 ((deg + 1) mod 2 ^ 32))
            else (case rd_range b 1 deg of None \<Rightarrow> None
                  | Some es \<Rightarrow> (case foldM (pool_push ix n) [] (nid # es) of None \<Rightarrow> None
                    | Some pool \<Rightarrow> (case selectNeighborsHeuristic ix pool (maxDegree ix level) of None \<Rightarrow> None
                      | Some sel \<Rightarrow> setLinks ix n level sel)))))"

definition connectNewElement :: "index \<Rightarrow> nat \<Rightarrow> max_heap \<Rightarrow> int \<Rightarrow> (nat \<times> index) option" where
  "connectNewElement ix nid heap level =
     (case selectNeighborsHeuristic ix heap (ix_M ix) of None \<Rightarrow> None
      | Some selected \<Rightarrow>
          if selected = [] then Some (nid, ix)
          else (case setLinks ix nid level selected of None \<Rightarrow> None
                | Some ix' \<Rightarrow> map_option (\<lambda>ix''. (hd selected, ix'')) (foldM (link_back nid level) ix' selected)))"

text \<open>The layers \<open>l, l - 1, \<dots>, 0\<close> of an insertion.\<close>

function connect_layers :: "index \<Rightarrow> f32 list \<Rightarrow> nat \<Rightarrow> nat \<Rightarrow> int \<Rightarrow> index option" where
  "connect_layers ix q nid cur l =
     (if 0 \<le> l
      then (case searchLayer ix q cur (ix_efConstruction ix) l False of None \<Rightarrow> None
            | Some (heap, ix') \<Rightarrow> (case connectNewElement ix' nid heap l of None \<Rightarrow> None
              | Some (cur', ix'') \<Rightarrow> connect_layers ix'' q nid cur' (l - 1)))
      else Some ix)"
  by pat_completeness auto
termination by (relation "measure (\<lambda>(ix, q, nid, cur, l). nat (l + 1))") auto

text \<open>Filling the slot of a new node: vector, label, tombstone, level and upper lists.\<close>

definition put_node :: "index \<Rightarrow> f32 list \<Rightarrow> label \<Rightarrow> nat \<Rightarrow> int \<Rightarrow> index option" where
  "put_node ix v lab nid level =
     (case rd_range v 0 (ix_dim ix) of None \<Rightarrow> None
      | Some x \<Rightarrow>
        if nid * ix_dim ix + ix_dim ix \<le> length (ix_data ix) \<and> nid < length (ix_labels ix) \<and>
           nid < length (ix_deleted ix) \<and> nid < length (ix_levels ix) \<and> nid < length (ix_linksUpper ix)
        then Some (ix\<lparr>ix_data := put_block (ix_dim ix) (ix_data ix) nid
                                    (case ix_space ix of Cosine \<Rightarrow> normalizeInPlace ix x | L2 \<Rightarrow> x),
                      ix_labels := (ix_labels ix)[nid := lab],
                      ix_deleted := (ix_deleted ix)[nid := 0],
                      ix_labelToId := (ix_labelToId ix)(lab \<mapsto> nid),
                      ix_levels := (ix_levels ix)[nid := level],
                      ix_linksUpper := (if 0 < level
                        then (ix_linksUpper ix)[nid := replicate (nat level * ix_strideUpper ix) 0]
                        else ix_linksUpper ix)\<rparr>)
        else None)"

definition link_node :: "index \<Rightarrow> nat \<Rightarrow> int \<Rightarrow> index option" where
  "link_node ix nid level =
     (let curMaxLevel = ix_maxLevel ix; curEntry = ix_entryPoint ix
      in if curEntry = kNone then Some (ix\<lparr>ix_entryPoint := nid, ix_maxLevel := level\<rparr>)
         else case getData ix nid of None \<Rightarrow> None
           | Some q \<Rightarrow>
             (case (if level < curMaxLevel then descend ix q curEntry curMaxLevel level else Some curEntry) of
                None \<Rightarrow> None
              | Some cur \<Rightarrow>
                  map_option (\<lambda>ix'. if curMaxLevel < level
                                    then ix'\<lparr>ix_entryPoint := nid, ix_maxLevel := level\<rparr> else ix')
                    (connect_layers ix q nid cur (min level curMaxLevel))))"

definition addPoint :: "index \<Rightarrow> f32 list \<Rightarrow> label \<Rightarrow> int \<Rightarrow> ((exn + nat) \<times> index) option" where
  "addPoint ix v lab level =
     (if ix_labelToId ix lab \<noteq> None
      then Some (Inl (Runtime_error ''duplicate label; use updatePoint or a new label''), ix)
      else let nid = ix_count ix mod 2 ^ 32; ix1 = ix\<lparr>ix_count := (ix_count ix + 1) mod 2 ^ 64\<rparr>
        in if ix_maxElements ix \<le> nid
           then Some (Inl (Runtime_error ''index is full: raise maxElements''),
                      ix1\<lparr>ix_count := (ix_count ix1 + (2 ^ 64 - 1)) mod 2 ^ 64\<rparr>)
           else case put_node ix1 v lab nid level of None \<Rightarrow> None
             | Some ix2 \<Rightarrow> map_option (\<lambda>ix3. (Inr nid, ix3)) (link_node ix2 nid level))"

declare connect_layers.simps [simp del]

section \<open>Neighbour selection\<close>

interpretation cands: weak_order cand_less cand_ok
  by unfold_locales (auto simp: cand_less_def cand_ok_def less_f32_def)

lemma mset_sorted_cands [simp]: "mset (sorted_cands heap) = mset heap"
  using farther.pq.drain_elems [of heap] by (simp add: sorted_cands_def)

lemma set_sorted_cands [simp]: "set (sorted_cands heap) = set heap"
  by (metis mset_sorted_cands set_mset_mset)

lemma length_sorted_cands [simp]: "length (sorted_cands heap) = length heap"
  by (metis mset_sorted_cands size_mset)

lemma sorted_cands_sorted:
  "\<forall>c \<in> set heap. cand_ok c \<Longrightarrow> sorted_wrt (\<lambda>a b. \<not> cand_less b a) (sorted_cands heap)"
  unfolding sorted_cands_def
  by (rule cands.std_sort_sorted) (metis mset_std_sort set_mset_mset set_sorted_cands sorted_cands_def)

text \<open>
  \<open>c\<close> is occluded by \<open>r\<close> when it is closer to \<open>r\<close> than to the query. The kept
  candidates are those not occluded by one kept before.
\<close>

definition occluded :: "index \<Rightarrow> cand \<Rightarrow> nat \<Rightarrow> bool" where
  "occluded ix c r \<longleftrightarrow> rawDistance ix (vec ix (snd c)) (vec ix r) < fst c"

fun diverse :: "index \<Rightarrow> nat list \<Rightarrow> cand list \<Rightarrow> bool" where
  "diverse ix kept [] \<longleftrightarrow> True"
| "diverse ix kept (c # cs) \<longleftrightarrow> (\<forall>r \<in> set kept. \<not> occluded ix c r) \<and> diverse ix (kept @ [snd c]) cs"

lemma keeps_spec:
  assumes "shape ix" "snd c < ix_maxElements ix" "\<forall>r \<in> set kept. r < ix_maxElements ix"
  shows "keeps ix c kept = Some (\<forall>r \<in> set kept. \<not> occluded ix c r)"
  using assms by (induction kept) (auto simp: getData_vec occluded_def)

lemma backfill_take: "backfill M ds kept = kept @ map snd (take (M - length kept) ds)"
proof (induction ds arbitrary: kept)
  case (Cons d ds)
  then show ?case by (cases "M - length kept") (auto simp: diff_Suc split: nat.splits)
qed simp

text \<open>The loop splits the candidates into kept ones, discarded ones, and the rest after the break.\<close>

definition selection :: "index \<Rightarrow> nat \<Rightarrow> nat list \<Rightarrow> cand list \<Rightarrow> cand list \<Rightarrow> cand list \<Rightarrow> cand list \<Rightarrow> bool" where
  "selection ix M kept cs ks ds rest \<longleftrightarrow>
     mset ks + mset ds + mset rest = mset cs \<and> (rest = [] \<or> M \<le> length kept + length ks) \<and>
     (length kept \<le> M \<longrightarrow> length kept + length ks \<le> M) \<and> diverse ix kept ks \<and>
     (\<forall>d \<in> set ds. \<exists>r \<in> set kept \<union> snd ` set ks. occluded ix d r) \<and>
     (kept = [] \<and> 0 < M \<and> cs \<noteq> [] \<longrightarrow> ks \<noteq> [] \<and> hd ks = hd cs)"

lemma select_loop_spec:
  assumes "shape ix" "\<forall>c \<in> set cs. snd c < ix_maxElements ix" "\<forall>r \<in> set kept. r < ix_maxElements ix"
  shows "\<exists>ks ds rest. select_loop ix M cs kept disc = Some (kept @ map snd ks, disc @ ds) \<and>
    selection ix M kept cs ks ds rest"
  using assms(2,3)
proof (induction cs arbitrary: kept disc)
  case Nil
  have "selection ix M kept [] [] [] []" by (simp add: selection_def)
  then show ?case by fastforce
next
  case (Cons c cs)
  have k: "keeps ix c kept = Some (\<forall>r \<in> set kept. \<not> occluded ix c r)"
    using keeps_spec [OF assms(1)] Cons.prems by simp
  consider (full) "M \<le> length kept" | (keep) "length kept < M" "\<forall>r \<in> set kept. \<not> occluded ix c r"
    | (drop) "length kept < M" "\<exists>r \<in> set kept. occluded ix c r" by force
  then show ?case
  proof cases
    case full
    then have "selection ix M kept (c # cs) [] [] (c # cs)" by (auto simp: selection_def)
    then show ?thesis using full by fastforce
  next
    case keep
    obtain ks ds rest where r: "select_loop ix M cs (kept @ [snd c]) disc = Some ((kept @ [snd c]) @ map snd ks, disc @ ds)"
      "selection ix M (kept @ [snd c]) cs ks ds rest"
      using Cons.IH [of "kept @ [snd c]" disc] Cons.prems by auto
    then have "selection ix M kept (c # cs) (c # ks) ds rest" using keep by (auto simp: selection_def)
    moreover have "select_loop ix M (c # cs) kept disc = Some (kept @ map snd (c # ks), disc @ ds)"
      using keep k r(1) by simp
    ultimately show ?thesis by blast
  next
    case drop
    obtain ks ds rest where r: "select_loop ix M cs kept (disc @ [c]) = Some (kept @ map snd ks, (disc @ [c]) @ ds)"
      "selection ix M kept cs ks ds rest"
      using Cons.IH [of kept "disc @ [c]"] Cons.prems by auto
    then have "selection ix M kept (c # cs) ks (c # ds) rest" using drop by (auto simp: selection_def)
    moreover have "select_loop ix M (c # cs) kept disc = Some (kept @ map snd ks, disc @ (c # ds))"
      using drop k r(1) by auto
    ultimately show ?thesis by blast
  qed
qed

lemma select_spec:
  assumes "shape ix" "\<forall>c \<in> set heap. snd c < ix_maxElements ix"
  obtains ks ds where "selectNeighborsHeuristic ix heap M = Some (map snd (ks @ ds))"
    "mset (ks @ ds) \<subseteq># mset heap" "length (ks @ ds) = min M (length heap)"
    "0 < M \<and> heap \<noteq> [] \<longrightarrow> ks \<noteq> [] \<and> hd ks = hd (sorted_cands heap)"
    "M < length heap \<longrightarrow> diverse ix [] ks \<and> (\<forall>d \<in> set ds. \<exists>r \<in> snd ` set ks. occluded ix d r)"
proof (cases "length heap \<le> M")
  case True
  show ?thesis
    by (rule that [of "sorted_cands heap" "[]"])
       (use True in \<open>auto simp: selectNeighborsHeuristic_def Let_def dest: arg_cong [of _ _ length]\<close>)
next
  case False
  let ?cs = "sorted_cands heap"
  obtain ks ds rest where l: "select_loop ix M ?cs [] [] = Some (map snd ks, ds)" "selection ix M [] ?cs ks ds rest"
    using select_loop_spec [OF assms(1), of ?cs "[]" M "[]"] assms(2) by auto
  let ?ds = "take (M - length ks) ds"
  have p: "mset ks + mset ds + mset rest = mset heap" "rest = [] \<or> M \<le> length ks" "length ks \<le> M"
    "diverse ix [] ks" "\<forall>d \<in> set ds. \<exists>r \<in> snd ` set ks. occluded ix d r"
    "0 < M \<and> ?cs \<noteq> [] \<longrightarrow> ks \<noteq> [] \<and> hd ks = hd ?cs"
    using l(2) by (auto simp: selection_def)
  have len: "length ks + length ds + length rest = length heap" using arg_cong [OF p(1), of size] by simp
  have "mset ?ds \<subseteq># mset ds" by (metis append_take_drop_id mset_append mset_subset_eq_add_left)
  then have "mset (ks @ ?ds) \<subseteq># mset heap" unfolding p(1) [symmetric] by (simp add: subset_mset.add_mono subset_mset.trans [OF _ mset_subset_eq_add_left])
  moreover have "length (ks @ ?ds) = min M (length heap)" using False len p(2,3) by auto
  moreover have "selectNeighborsHeuristic ix heap M = Some (map snd (ks @ ?ds))"
    using False l(1) by (simp add: selectNeighborsHeuristic_def Let_def backfill_take)
  moreover have "?cs \<noteq> [] \<longleftrightarrow> heap \<noteq> []" by (metis length_0_conv length_sorted_cands)
  ultimately show ?thesis using p(4,5,6) by (intro that [of ks ?ds]) (auto dest: in_set_takeD)
qed

section \<open>Linking\<close>

text \<open>
  \<open>relinked ix ix'\<close>: only adjacency lists and visited lists differ, the lists of unused
  slots are untouched, and shapes and lists of \<open>ix'\<close> are well-formed.
\<close>

definition relinked :: "index \<Rightarrow> index \<Rightarrow> bool" where
  "relinked ix ix' \<longleftrightarrow> shape ix' \<and> graph_ok ix' \<and> (links_fit ix \<longrightarrow> links_fit ix') \<and>
     ix' = ix\<lparr>ix_linksL0 := ix_linksL0 ix', ix_linksUpper := ix_linksUpper ix', ix_visitedPool := ix_visitedPool ix'\<rparr> \<and>
     (\<forall>j. ix_count ix \<le> j \<and> j < ix_maxElements ix \<longrightarrow>
        blk ix' j 0 = blk ix j 0 \<and> ix_linksUpper ix' ! j = ix_linksUpper ix ! j)"

lemma relinked_fields:
  assumes "relinked ix ix'"
  shows "shape ix'" "graph_ok ix'" "ix_dim ix' = ix_dim ix" "ix_maxElements ix' = ix_maxElements ix"
    "ix_M ix' = ix_M ix" "ix_efConstruction ix' = ix_efConstruction ix" "ix_count ix' = ix_count ix"
    "ix_numDeleted ix' = ix_numDeleted ix" "ix_entryPoint ix' = ix_entryPoint ix" "ix_maxLevel ix' = ix_maxLevel ix"
    "ix_labelToId ix' = ix_labelToId ix" "ix_labels ix' = ix_labels ix" "ix_deleted ix' = ix_deleted ix"
    "ix_strideL0 ix' = ix_strideL0 ix" "vec ix' = vec ix" "lvl ix' = lvl ix" "node ix' = node ix"
    "maxDegree ix' = maxDegree ix" "is_del ix' = is_del ix" "rawDistance ix' = rawDistance ix" "dist ix' = dist ix"
proof -
  obtain a b c where e: "ix' = ix\<lparr>ix_linksL0 := a, ix_linksUpper := b, ix_visitedPool := c\<rparr>"
    using assms unfolding relinked_def by blast
  show "shape ix'" "graph_ok ix'" using assms by (simp_all add: relinked_def)
  show "ix_dim ix' = ix_dim ix" "ix_maxElements ix' = ix_maxElements ix"
    "ix_M ix' = ix_M ix" "ix_efConstruction ix' = ix_efConstruction ix" "ix_count ix' = ix_count ix"
    "ix_numDeleted ix' = ix_numDeleted ix" "ix_entryPoint ix' = ix_entryPoint ix" "ix_maxLevel ix' = ix_maxLevel ix"
    "ix_labelToId ix' = ix_labelToId ix" "ix_labels ix' = ix_labels ix" "ix_deleted ix' = ix_deleted ix"
    "ix_strideL0 ix' = ix_strideL0 ix" "vec ix' = vec ix" "lvl ix' = lvl ix" "node ix' = node ix"
    "maxDegree ix' = maxDegree ix" "is_del ix' = is_del ix" "rawDistance ix' = rawDistance ix" "dist ix' = dist ix"
    unfolding e by (simp_all add: fun_eq_iff vec_def lvl_def node_def maxDegree_def is_del_def
        rawDistance_def dist_def split: space.split)
qed

lemma relinked_config:
  assumes "relinked ix ix'" shows "config ix' = config ix"
proof -
  obtain a b c where e: "ix' = ix\<lparr>ix_linksL0 := a, ix_linksUpper := b, ix_visitedPool := c\<rparr>"
    using assms unfolding relinked_def by blast
  show ?thesis unfolding e by (simp add: config_def)
qed

lemma relinked_levels:
  assumes "relinked ix ix'" shows "ix_levels ix' = ix_levels ix"
proof -
  obtain a b c where e: "ix' = ix\<lparr>ix_linksL0 := a, ix_linksUpper := b, ix_visitedPool := c\<rparr>"
    using assms unfolding relinked_def by blast
  show ?thesis unfolding e by simp
qed

lemma relinked_refl: "shape ix \<Longrightarrow> graph_ok ix \<Longrightarrow> relinked ix ix"
  by (simp add: relinked_def)

lemma relinked_trans:
  assumes "relinked ix ix'" "relinked ix' ix''" shows "relinked ix ix''"
proof -
  obtain a b c where e: "ix' = ix\<lparr>ix_linksL0 := a, ix_linksUpper := b, ix_visitedPool := c\<rparr>"
    using assms(1) unfolding relinked_def by blast
  obtain a' b' c' where e': "ix'' = ix'\<lparr>ix_linksL0 := a', ix_linksUpper := b', ix_visitedPool := c'\<rparr>"
    using assms(2) unfolding relinked_def by blast
  have "ix'' = ix\<lparr>ix_linksL0 := ix_linksL0 ix'', ix_linksUpper := ix_linksUpper ix'', ix_visitedPool := ix_visitedPool ix''\<rparr>"
    unfolding e' e by simp
  then show ?thesis
    using assms relinked_fields(4,7) [OF assms(1)] unfolding relinked_def by simp
qed

lemma relinked_pool:
  assumes "shape ix" "graph_ok ix" "pool_ok p" "vp_n p = ix_maxElements ix"
  shows "relinked ix (ix\<lparr>ix_visitedPool := p\<rparr>)"
  using assms shape_pool [OF assms(1,3,4)] by (simp add: relinked_def graph_ok_def links_fit_def link_words_def)

lemma node_word: "shape ix \<Longrightarrow> node ix l i \<Longrightarrow> i < 2 ^ 32"
  using node_maxElements [of ix l i] by (simp add: shape_def)

text \<open>Replacing one adjacency list by a well-formed one.\<close>

lemma relinked_set_blk:
  assumes "shape ix" "graph_ok ix" "node ix l i" "length b = stride ix l" "b ! 0 \<le> maxDegree ix l"
    and "distinct (adj (set_blk ix i l b) i l)" "\<forall>j \<in> set (adj (set_blk ix i l b) i l). node ix l j \<and> j \<noteq> i"
    and "\<forall>x \<in> set b. x < 2 ^ 32 \<or> x \<in> set (blk ix i l)"
  shows "relinked ix (set_blk ix i l b)"
    "node ix m j \<Longrightarrow> (j, m) \<noteq> (i, l) \<Longrightarrow> adj (set_blk ix i l b) j m = adj ix j m"
proof -
  let ?ix = "set_blk ix i l b"
  note bs = blk_set_blk [OF assms(1,3) _ assms(4)]
  have other: "blk ?ix j 0 = blk ix j 0 \<and> ix_linksUpper ?ix ! j = ix_linksUpper ix ! j"
    if "j \<noteq> i" "j < ix_maxElements ix" for j
    using that assms(4) node_maxElements [OF assms(1,3)] shapeD(5) [OF assms(1)]
    by (auto simp: set_blk_def blk_def stride_def block_put_block [where n = "ix_maxElements ix"])
  show adj: "adj ?ix j m = adj ix j m" if "node ix m j" "(j, m) \<noteq> (i, l)" for j m
    using bs [OF that(1)] that(2) by (auto simp: adj_def)
  have "links_ok ?ix j m" if "node ix m j" for j m
  proof (cases "(j, m) = (i, l)")
    case True
    then show ?thesis using assms(5-7) bs [OF assms(3)] by (simp add: links_ok_def)
  next
    case False
    then show ?thesis
      using graph_adj(1) [OF assms(2) that] bs [OF that] adj [OF that False] by (auto simp: links_ok_def)
  qed
  then have "graph_ok ?ix" by (simp add: graph_ok_def)
  moreover have "?ix = ix\<lparr>ix_linksL0 := ix_linksL0 ?ix, ix_linksUpper := ix_linksUpper ?ix, ix_visitedPool := ix_visitedPool ?ix\<rparr>"
    by (simp add: set_blk_def)
  ultimately show "relinked ix ?ix"
    using shape_set_blk [OF assms(1,3,4)] set_blk_fit [OF assms(1,3) _ assms(8)] other nodeD(1) [OF assms(3)]
    unfolding relinked_def by auto
qed

text \<open>All adjacency lists but those at level \<open>l\<close> of the nodes in \<open>S\<close> agree.\<close>

definition adj_eq :: "index \<Rightarrow> nat set \<Rightarrow> int \<Rightarrow> index \<Rightarrow> bool" where
  "adj_eq ix S l ix' \<longleftrightarrow> (\<forall>m j. node ix m j \<longrightarrow> \<not> (j \<in> S \<and> m = l) \<longrightarrow> adj ix' j m = adj ix j m)"

lemma adj_eqD: "adj_eq ix S l ix' \<Longrightarrow> node ix m j \<Longrightarrow> j \<notin> S \<or> m \<noteq> l \<Longrightarrow> adj ix' j m = adj ix j m"
  by (simp add: adj_eq_def)

lemma setLinks_relinked:
  assumes "shape ix" "graph_ok ix" "node ix l i" "distinct ns" "\<forall>j \<in> set ns. node ix l j \<and> j \<noteq> i"
  shows "\<exists>ix'. setLinks ix i l ns = Some ix' \<and> relinked ix ix' \<and> adj_eq ix {i} l ix' \<and>
    adj ix' i l = take (maxDegree ix l) ns"
proof -
  obtain b where b: "setLinks ix i l ns = Some (set_blk ix i l b)" "length b = stride ix l"
    "adj (set_blk ix i l b) i l = take (maxDegree ix l) ns" "b ! 0 = min (length ns) (maxDegree ix l)"
    "set b \<subseteq> insert (min (length ns) (maxDegree ix l)) (set ns \<union> set (blk ix i l))"
    using setLinks_spec [OF assms(1,3)] .
  have "min (length ns) (maxDegree ix l) < 2 ^ 32"
    using maxDegree_pos [OF assms(1), of l] by (simp add: kMaxDegree_def min_less_iff_disj)
  then have w: "\<forall>x \<in> set b. x < 2 ^ 32 \<or> x \<in> set (blk ix i l)" using b(5) assms(5) node_word [OF assms(1)] by blast
  have "relinked ix (set_blk ix i l b)" "adj_eq ix {i} l (set_blk ix i l b)"
    using relinked_set_blk [OF assms(1-3) b(2) _ _ _ w] b(3,4) assms(4,5)
    by (auto simp: adj_eq_def dest: in_set_takeD)
  then show ?thesis using b by blast
qed

lemma take_Suc_update: "k < length xs \<Longrightarrow> take (Suc k) (xs[k := v]) = take k xs @ [v]"
  by (simp add: take_Suc_conv_app_nth)

lemma push_link:
  assumes "shape ix" "graph_ok ix" "node ix l n" "node ix l nid" "n \<noteq> nid" "nid \<notin> set (adj ix n l)"
    and deg: "deg = blk ix n l ! 0" "deg < maxDegree ix l"
  shows "\<exists>ix1 ix2. linkStore ix n l (deg + 1) nid = Some ix1 \<and> linkStore ix1 n l 0 ((deg + 1) mod 2 ^ 32) = Some ix2 \<and>
    relinked ix ix2 \<and> adj_eq ix {n} l ix2 \<and> adj ix2 n l = adj ix n l @ [nid]"
proof -
  let ?b1 = "(blk ix n l)[deg + 1 := nid]"
  let ?b2 = "?b1[0 := deg + 1]"
  let ?ix1 = "set_blk ix n l ?b1" and ?ix2 = "set_blk ix n l ?b2"
  note lk = graph_adj [OF assms(2,3)]
  have len: "length (blk ix n l) = maxDegree ix l + 1"
    using length_blk [OF assms(1,3)] stride_maxDegree [OF assms(1)] by simp
  have st: "stride ix l = maxDegree ix l + 1" by (rule stride_maxDegree [OF assms(1)])
  have l1: "length ?b1 = stride ix l" "length ?b2 = stride ix l" using len st by simp_all
  have m: "(deg + 1) mod 2 ^ 32 = deg + 1"
    using deg(2) maxDegree_pos [OF assms(1), of l] by (intro mod_less) (simp add: kMaxDegree_def)
  have s1: "linkStore ix n l (deg + 1) nid = Some ?ix1" using linkStore_set_blk [OF assms(1,3)] deg(2) st by simp
  have "linkStore ?ix1 n l 0 (deg + 1) = Some (set_blk ?ix1 n l ?b2)"
    using linkStore_set_blk [of ?ix1 l n 0] shape_set_blk [OF assms(1,3) l1(1)] blk_set_blk [OF assms(1,3,3) l1(1)]
      assms(3) st by simp
  then have s2: "linkStore ?ix1 n l 0 ((deg + 1) mod 2 ^ 32) = Some ?ix2"
    using m set_blk_twice [OF assms(1,3) l1(1)] by (simp only:)
  have b2: "blk ?ix2 n l = ?b2" using blk_set_blk [OF assms(1,3,3) l1(2)] by simp
  have "drop 1 ?b2 = (drop 1 (blk ix n l))[deg := nid]" by (simp add: drop_update_swap)
  moreover have "?b2 ! 0 = Suc deg" using len by simp
  ultimately have "adj ?ix2 n l = take (Suc deg) ((drop 1 (blk ix n l))[deg := nid])" by (simp only: adj_def b2)
  then have a: "adj ?ix2 n l = adj ix n l @ [nid]" using len deg by (simp add: adj_def take_Suc_update)
  have "deg + 1 < 2 ^ 32" using deg(2) maxDegree_pos [OF assms(1), of l] by (simp add: kMaxDegree_def)
  then have w: "\<forall>x \<in> set ?b2. x < 2 ^ 32 \<or> x \<in> set (blk ix n l)"
    using node_word [OF assms(1,4)] by (auto dest!: subsetD [OF set_update_subset_insert])
  have "relinked ix ?ix2" "adj_eq ix {n} l ?ix2"
    using relinked_set_blk [OF assms(1-3) l1(2) _ _ _ w] a lk links_okD [OF lk(1)] len deg(2) assms(4-6)
    by (auto simp: adj_eq_def)
  with s1 s2 a show ?thesis by blast
qed

lemma pool_fold:
  assumes "shape ix" "n < ix_maxElements ix" "\<forall>e \<in> set es. e < ix_maxElements ix"
  shows "\<exists>pool. foldM (pool_push ix n) [] es = Some pool \<and>
    mset pool = mset (map (\<lambda>e. (rawDistance ix (vec ix n) (vec ix e), e)) es)"
proof (rule foldM_rule)
  fix ys e zs p
  assume "es = ys @ e # zs" and p: "mset p = mset (map (\<lambda>e. (rawDistance ix (vec ix n) (vec ix e), e)) ys)"
  then have "e < ix_maxElements ix" using assms(3) by simp
  then show "\<exists>p'. pool_push ix n p e = Some p' \<and>
      mset p' = mset (map (\<lambda>e. (rawDistance ix (vec ix n) (vec ix e), e)) (ys @ [e]))"
    using assms(1,2) p by (simp add: pool_push_def getData_vec pq_push_mset)
qed simp

lemma link_back_spec:
  assumes "shape ix" "graph_ok ix" "node ix l n" "node ix l nid" "n \<noteq> nid" "nid \<notin> set (adj ix n l)"
  shows "\<exists>ix'. link_back nid l ix n = Some ix' \<and> relinked ix ix' \<and> adj_eq ix {n} l ix' \<and>
    set (adj ix' n l) \<subseteq> insert nid (set (adj ix n l))"
proof -
  note lk = graph_adj [OF assms(2,3)] and lkD = links_okD [OF graph_adj(1) [OF assms(2,3)]]
  obtain r where b: "linkBlock ix n l = Some (blk ix n l @ r)" using linkBlock_blk [OF assms(1,3)] .
  have len: "length (blk ix n l) = Suc (maxDegree ix l)"
    using length_blk [OF assms(1,3)] stride_maxDegree [OF assms(1)] by simp
  note rp = read_prefix [OF len lkD(1), of r, folded adj_def]
  show ?thesis
  proof (cases "blk ix n l ! 0 < maxDegree ix l")
    case True
    then show ?thesis
      using push_link [OF assms refl True] b rp by (auto simp: link_back_def)
  next
    case False
    let ?es = "nid # adj ix n l"
    have es: "\<forall>e \<in> set ?es. node ix l e \<and> e \<noteq> n" "distinct ?es" using lk(2) lkD(2,4) assms(4-6) by auto
    obtain pool where p: "foldM (pool_push ix n) [] ?es = Some pool"
      "mset pool = mset (map (\<lambda>e. (rawDistance ix (vec ix n) (vec ix e), e)) ?es)"
      using pool_fold [OF assms(1) node_maxElements [OF assms(1,3)], of ?es] es node_maxElements [OF assms(1)] by blast
    have ps: "mset (map snd pool) = mset ?es" using arg_cong [OF p(2), of "image_mset snd"] by (simp add: image_mset.compositionality o_def)
    have "\<forall>c \<in> set pool. snd c < ix_maxElements ix"
      using ps es(1) node_maxElements [OF assms(1)] by (metis image_eqI list.set_map mset_eq_setD)
    then obtain ks ds where s: "selectNeighborsHeuristic ix pool (maxDegree ix l) = Some (map snd (ks @ ds))"
      "mset (ks @ ds) \<subseteq># mset pool" using select_spec [OF assms(1)] by metis
    let ?sel = "map snd (ks @ ds)"
    have sub: "mset ?sel \<subseteq># mset ?es" using image_mset_subseteq_mono [OF s(2), of snd] ps by simp
    then have sel: "distinct ?sel" "set ?sel \<subseteq> set ?es"
      using distinct_submset [OF sub es(2)] set_mset_mono [OF sub] by (simp_all only: set_mset_mset)
    obtain ix' where ix': "setLinks ix n l ?sel = Some ix'" "relinked ix ix'" "adj_eq ix {n} l ix'"
      "adj ix' n l = take (maxDegree ix l) ?sel"
      using setLinks_relinked [OF assms(1-3) sel(1)] sel(2) es(1) by blast
    have "set (adj ix' n l) \<subseteq> set ?es" unfolding ix'(4) using set_take_subset sel(2) by (rule subset_trans)
    moreover have "link_back nid l ix n = Some ix'"
      by (simp only: link_back_def b rp option.case False if_False p(1) s(1) ix'(1))
    ultimately show ?thesis using ix'(2,3) by auto
  qed
qed

lemma link_all:
  assumes "shape ix" "graph_ok ix" "node ix l nid" "distinct sel"
    and "\<forall>n \<in> set sel. node ix l n \<and> n \<noteq> nid \<and> nid \<notin> set (adj ix n l)"
  shows "\<exists>ix'. foldM (link_back nid l) ix sel = Some ix' \<and> relinked ix ix' \<and> adj_eq ix (set sel) l ix'"
proof (rule foldM_rule)
  show "relinked ix ix \<and> adj_eq ix (set []) l ix" using relinked_refl [OF assms(1,2)] by (simp add: adj_eq_def)
next
  fix ys n zs ix1
  assume sel: "sel = ys @ n # zs" and i: "relinked ix ix1 \<and> adj_eq ix (set ys) l ix1"
  note f = relinked_fields [OF conjunct1 [OF i]]
  have n: "n \<notin> set ys" "node ix l n" "n \<noteq> nid" "nid \<notin> set (adj ix n l)" using sel assms(4,5) by auto
  moreover have "adj ix1 n l = adj ix n l" using adj_eqD [OF conjunct2 [OF i] n(2)] n(1) by simp
  ultimately obtain ix2 where "link_back nid l ix1 n = Some ix2" "relinked ix1 ix2" "adj_eq ix1 {n} l ix2"
    using link_back_spec [of ix1 l n nid] f assms(3) by (metis (lifting))
  moreover from this have "relinked ix ix2" "adj_eq ix (set (ys @ [n])) l ix2"
    using i relinked_trans f(17) by (auto simp: adj_eq_def)
  ultimately show "\<exists>ix2. link_back nid l ix1 n = Some ix2 \<and> relinked ix ix2 \<and> adj_eq ix (set (ys @ [n])) l ix2"
    by blast
qed

lemma connectNewElement_spec:
  assumes "shape ix" "graph_ok ix" "node ix l nid" "heap \<noteq> []" "distinct (map snd heap)"
    and heap: "\<forall>c \<in> set heap. node ix l (snd c) \<and> snd c \<noteq> nid"
    and no_in: "\<forall>j. node ix l j \<longrightarrow> nid \<notin> set (adj ix j l)"
  shows "\<exists>cur ix'. connectNewElement ix nid heap l = Some (cur, ix') \<and> relinked ix ix' \<and>
    adj_eq ix {j. node ix l j} l ix' \<and> node ix l cur \<and> cur \<noteq> nid \<and>
    selectNeighborsHeuristic ix heap (ix_M ix) = Some (adj ix' nid l) \<and>
    length (adj ix' nid l) = min (ix_M ix) (length heap)"
proof -
  have M: "0 < ix_M ix" "ix_M ix \<le> maxDegree ix l" using maxDegree_pos [OF assms(1), of l] by simp_all
  have "\<forall>c \<in> set heap. snd c < ix_maxElements ix" using heap node_maxElements [OF assms(1)] by blast
  then obtain ks ds where s: "selectNeighborsHeuristic ix heap (ix_M ix) = Some (map snd (ks @ ds))"
    "mset (ks @ ds) \<subseteq># mset heap" "length (ks @ ds) = min (ix_M ix) (length heap)"
    using select_spec [OF assms(1)] by metis
  define sel where "sel = map snd (ks @ ds)"
  have sub: "mset sel \<subseteq># mset (map snd heap)" using image_mset_subseteq_mono [OF s(2), of snd] by (simp add: sel_def)
  have len: "length sel = min (ix_M ix) (length heap)" using s(3) by (simp add: sel_def)
  have "0 < length sel" unfolding len using M(1) assms(4) by (simp add: min_def)
  then have ne: "sel \<noteq> []" by simp
  have sel: "distinct sel" "\<forall>n \<in> set sel. node ix l n \<and> n \<noteq> nid" "length sel \<le> maxDegree ix l"
    using distinct_submset [OF sub assms(5)] set_mset_mono [OF sub] heap len M(2) by auto
  obtain ix1 where ix1: "setLinks ix nid l sel = Some ix1" "relinked ix ix1" "adj_eq ix {nid} l ix1" "adj ix1 nid l = sel"
    using setLinks_relinked [OF assms(1-3) sel(1,2)] sel(3) by auto
  note f = relinked_fields [OF ix1(2)]
  have "\<forall>n \<in> set sel. node ix1 l n \<and> n \<noteq> nid \<and> nid \<notin> set (adj ix1 n l)"
    using sel(2) no_in adj_eqD [OF ix1(3)] f(17) by auto
  then obtain ix2 where ix2: "foldM (link_back nid l) ix1 sel = Some ix2" "relinked ix1 ix2" "adj_eq ix1 (set sel) l ix2"
    using link_all [of ix1 l nid sel] f sel(1) assms(3) by auto
  have "adj ix2 nid l = sel" using adj_eqD [OF ix2(3), of l nid] f(17) assms(3) sel(2) ix1(4) by auto
  moreover have "connectNewElement ix nid heap l = Some (hd sel, ix2)"
    using s(1) ne ix1(1) ix2(1) by (simp add: connectNewElement_def sel_def [symmetric] del: map_append)
  moreover have "adj_eq ix {j. node ix l j} l ix2"
    unfolding adj_eq_def
  proof (intro allI impI)
    fix m j assume n: "node ix m j" "\<not> (j \<in> {j. node ix l j} \<and> m = l)"
    then have "j \<notin> set sel \<or> m \<noteq> l" "j \<notin> {nid} \<or> m \<noteq> l" using sel(2) assms(3) by auto
    then show "adj ix2 j m = adj ix j m" using adj_eqD [OF ix1(3) n(1)] adj_eqD [OF ix2(3)] n(1) f(17) by simp
  qed
  ultimately show ?thesis
    using relinked_trans [OF ix1(2) ix2(2)] sel(2) hd_in_set [OF ne] s(1) [folded sel_def] len by auto
qed

section \<open>Inserting into all layers\<close>

text \<open>Nothing points to \<open>nid\<close> at the levels up to \<open>l\<close>.\<close>

definition no_in :: "index \<Rightarrow> nat \<Rightarrow> int \<Rightarrow> bool" where
  "no_in ix nid l \<longleftrightarrow> (\<forall>m j. m \<le> l \<longrightarrow> node ix m j \<longrightarrow> nid \<notin> set (adj ix j m))"

lemma no_in_reachable:
  assumes "no_in ix nid l" "cur \<noteq> nid" shows "nid \<notin> reachable ix l cur"
  using reachable_closed [of cur "- {nid}" ix l] assms by (auto simp: no_in_def)

lemma searchLayer_build:
  assumes "shape ix" "graph_ok ix" "node ix l cur" "no_in ix nid l" "cur \<noteq> nid"
  shows "\<exists>heap ix'. searchLayer ix q cur (ix_efConstruction ix) l False = Some (heap, ix') \<and> relinked ix ix' \<and>
    adj ix' = adj ix \<and> heap \<noteq> [] \<and> distinct (map snd heap) \<and> (\<forall>c \<in> set heap. node ix l (snd c) \<and> snd c \<noteq> nid)"
proof -
  obtain heap p where r: "searchLayer ix q cur (ix_efConstruction ix) l False = Some (heap, ix\<lparr>ix_visitedPool := p\<rparr>)"
    "pool_ok p" "vp_n p = ix_maxElements ix" "beam_result ix q (ix_efConstruction ix) l False cur heap"
    using searchLayer_spec [OF assms(1-3)] by blast
  have "cur \<in> reachable ix l cur" by (simp add: reachable_def)
  then have "heap \<noteq> []" using r(4) assms(1) by (auto simp: beam_result_def eligible_def shape_def)
  moreover have "\<forall>c \<in> set heap. node ix l (snd c) \<and> snd c \<noteq> nid" "distinct (map snd heap)"
    using r(4) no_in_reachable [OF assms(4,5)] by (auto simp: beam_result_def)
  ultimately show ?thesis using r(1) relinked_pool [OF assms(1,2) r(2,3)] by auto
qed

text \<open>The new node has neighbours, and at most \<open>M\<close>, in each of its layers up to \<open>l\<close>.\<close>

definition linked :: "index \<Rightarrow> nat \<Rightarrow> int \<Rightarrow> bool" where
  "linked ix nid l \<longleftrightarrow> (\<forall>m. 0 \<le> m \<and> m \<le> l \<longrightarrow> adj ix nid m \<noteq> [] \<and> length (adj ix nid m) \<le> ix_M ix)"

lemma connect_layers_spec:
  assumes "shape ix" "graph_ok ix" "no_in ix nid l" "cur \<noteq> nid" "-1 \<le> l"
    and "0 \<le> l \<longrightarrow> node ix l nid \<and> node ix l cur"
  shows "\<exists>ix'. connect_layers ix q nid cur l = Some ix' \<and> relinked ix ix' \<and> linked ix' nid l \<and>
    (\<forall>m j. l < m \<and> node ix m j \<longrightarrow> adj ix' j m = adj ix j m)"
  using assms
proof (induction "nat (l + 1)" arbitrary: ix cur l rule: less_induct)
  case less
  show ?case
  proof (cases "0 \<le> l")
    case False
    then show ?thesis
      using relinked_refl [OF less.prems(1,2)] by (subst connect_layers.simps) (auto simp: linked_def)
  next
    case True
    then have nd: "node ix l nid" "node ix l cur" using less.prems(6) by auto
    obtain heap ix1 where h: "searchLayer ix q cur (ix_efConstruction ix) l False = Some (heap, ix1)" "relinked ix ix1"
      "adj ix1 = adj ix" "heap \<noteq> []" "distinct (map snd heap)" "\<forall>c \<in> set heap. node ix l (snd c) \<and> snd c \<noteq> nid"
      using searchLayer_build [OF less.prems(1,2) nd(2) less.prems(3,4)] by blast
    note f1 = relinked_fields [OF h(2)]
    have "\<forall>j. node ix1 l j \<longrightarrow> nid \<notin> set (adj ix1 j l)" using less.prems(3) h(3) f1(17) by (auto simp: no_in_def)
    then obtain cur2 ix2 where c: "connectNewElement ix1 nid heap l = Some (cur2, ix2)" "relinked ix1 ix2"
      "adj_eq ix1 {j. node ix l j} l ix2" "node ix l cur2" "cur2 \<noteq> nid"
      "length (adj ix2 nid l) = min (ix_M ix) (length heap)"
      using connectNewElement_spec [of ix1 l nid heap] f1 nd(1) h(4-6) by auto
    note f2 = relinked_fields [OF c(2)]
    have ad: "adj ix2 j m = adj ix j m" if "node ix m j" "m \<noteq> l" for j m
      using adj_eqD [OF c(3)] that f1(17) h(3) by simp
    have ni: "no_in ix2 nid (l - 1)" using less.prems(3) ad f1(17) f2(17) by (auto simp: no_in_def)
    have nd': "0 \<le> l - 1 \<longrightarrow> node ix2 (l - 1) nid \<and> node ix2 (l - 1) cur2"
      using nd(1) c(4) f1(17) f2(17) by (auto simp: node_def)
    obtain ix3 where r: "connect_layers ix2 q nid cur2 (l - 1) = Some ix3" "relinked ix2 ix3" "linked ix3 nid (l - 1)"
      "\<forall>m j. l - 1 < m \<and> node ix2 m j \<longrightarrow> adj ix3 j m = adj ix2 j m"
      using less.hyps [OF _ f2(1,2) ni c(5) _ nd'] True by auto
    have "adj ix3 nid l = adj ix2 nid l" using r(4) nd(1) f1(17) f2(17) by auto
    moreover have "0 < min (ix_M ix) (length heap)" using h(4) less.prems(1) by (simp add: shape_def)
    ultimately have "0 < length (adj ix3 nid l)" "length (adj ix3 nid l) \<le> ix_M ix3"
      using c(6) f1(5) f2(5) relinked_fields(5) [OF r(2)] by simp_all
    then have l3: "adj ix3 nid l \<noteq> []" "length (adj ix3 nid l) \<le> ix_M ix3" by simp_all
    have "linked ix3 nid l"
      unfolding linked_def
    proof (intro allI impI)
      fix m :: int assume "0 \<le> m \<and> m \<le> l"
      then show "adj ix3 nid m \<noteq> [] \<and> length (adj ix3 nid m) \<le> ix_M ix3"
        using l3 r(3) by (cases "m = l") (auto simp: linked_def)
    qed
    moreover have "connect_layers ix q nid cur l = Some ix3"
      using True h(1) c(1) r(1) by (subst connect_layers.simps) simp
    ultimately show ?thesis
      using relinked_trans [OF relinked_trans [OF h(2) c(2)] r(2)] r(4) ad f1(17) f2(17) by auto
  qed
qed

section \<open>Insertion\<close>

text \<open>The invariant without the entry point.\<close>

definition wf_body :: "index \<Rightarrow> bool" where
  "wf_body ix \<longleftrightarrow> shape ix \<and> graph_ok ix \<and> labels_ok ix \<and> deleted_ok ix \<and> unused_ok ix"

lemma wf_body_entry [simp]: "wf_body (ix\<lparr>ix_entryPoint := e, ix_maxLevel := m\<rparr>) = wf_body ix"
proof -
  let ?ix = "ix\<lparr>ix_entryPoint := e, ix_maxLevel := m\<rparr>"
  have v: "vec ?ix = vec ix" "lvl ?ix = lvl ix" "blk ?ix = blk ix" "node ?ix = node ix"
    "adj ?ix = adj ix" "maxDegree ?ix = maxDegree ix" "is_del ?ix = is_del ix"
    by (simp_all add: fun_eq_iff vec_def lvl_def blk_def node_def adj_def maxDegree_def is_del_def)
  show ?thesis
    unfolding wf_body_def shape_def graph_ok_def links_ok_def labels_ok_def deleted_ok_def unused_ok_def v by simp
qed

lemma wf_body_relinked:
  assumes "wf_body ix" "relinked ix ix'" shows "wf_body ix'"
proof -
  note f = relinked_fields [OF assms(2)]
  have "labels_ok ix'" "deleted_ok ix'"
    using assms(1) by (simp_all add: wf_body_def labels_ok_def deleted_ok_def f)
  moreover have "unused_ok ix'"
    using assms by (simp add: wf_body_def unused_ok_def relinked_def f(3,4,7,12-16))
  ultimately show ?thesis using f(1,2) by (simp add: wf_body_def)
qed

lemma length_query_vec: "ix_dim ix \<le> length v \<Longrightarrow> length (query_vec ix v) = ix_dim ix"
  by (simp add: query_vec_def normalizeInPlace_def Let_def split: space.split)

text \<open>The state after the slot of the new node has been filled.\<close>

definition filled :: "index \<Rightarrow> f32 list \<Rightarrow> label \<Rightarrow> int \<Rightarrow> index \<Rightarrow> bool" where
  "filled ix sv lab level ix2 \<longleftrightarrow> wf_body ix2 \<and> ix_count ix2 = Suc (ix_count ix) \<and>
     ix_maxElements ix2 = ix_maxElements ix \<and> ix_dim ix2 = ix_dim ix \<and>
     ix_entryPoint ix2 = ix_entryPoint ix \<and> ix_maxLevel ix2 = ix_maxLevel ix \<and> ix_M ix2 = ix_M ix \<and>
     (\<forall>j < ix_count ix. lvl ix2 j = lvl ix j) \<and> lvl ix2 (ix_count ix) = level \<and>
     no_in ix2 (ix_count ix) level \<and> abs_ix ix2 = (abs_ix ix)(lab \<mapsto> (sv, False)) \<and>
     config ix2 = config ix"

definition put_node_state :: "index \<Rightarrow> f32 list \<Rightarrow> label \<Rightarrow> int \<Rightarrow> index" where
  "put_node_state ix sv lab level =
     (let n = ix_count ix in ix\<lparr>ix_count := Suc n, ix_data := put_block (ix_dim ix) (ix_data ix) n sv,
        ix_labels := (ix_labels ix)[n := lab], ix_deleted := (ix_deleted ix)[n := 0],
        ix_labelToId := (ix_labelToId ix)(lab \<mapsto> n), ix_levels := (ix_levels ix)[n := level],
        ix_linksUpper := (if 0 < level then (ix_linksUpper ix)[n := replicate (nat level * ix_strideUpper ix) 0]
                          else ix_linksUpper ix)\<rparr>)"

lemma put_node_state_fields [simp]:
  "ix_count (put_node_state ix sv lab level) = Suc (ix_count ix)"
  "ix_maxElements (put_node_state ix sv lab level) = ix_maxElements ix" "ix_M (put_node_state ix sv lab level) = ix_M ix"
  "ix_dim (put_node_state ix sv lab level) = ix_dim ix" "ix_strideL0 (put_node_state ix sv lab level) = ix_strideL0 ix"
  "ix_strideUpper (put_node_state ix sv lab level) = ix_strideUpper ix"
  "ix_entryPoint (put_node_state ix sv lab level) = ix_entryPoint ix"
  "ix_maxLevel (put_node_state ix sv lab level) = ix_maxLevel ix"
  "ix_numDeleted (put_node_state ix sv lab level) = ix_numDeleted ix"
  "ix_labels (put_node_state ix sv lab level) = (ix_labels ix)[ix_count ix := lab]"
  "ix_deleted (put_node_state ix sv lab level) = (ix_deleted ix)[ix_count ix := 0]"
  "ix_labelToId (put_node_state ix sv lab level) = (ix_labelToId ix)(lab \<mapsto> ix_count ix)"
  "maxDegree (put_node_state ix sv lab level) = maxDegree ix" "config (put_node_state ix sv lab level) = config ix"
  by (simp_all add: put_node_state_def Let_def fun_eq_iff maxDegree_def config_def)

lemma put_node_eq:
  assumes "shape ix" "ix_count ix < ix_maxElements ix" "ix_dim ix \<le> length v"
  shows "put_node (ix\<lparr>ix_count := Suc (ix_count ix)\<rparr>) v lab (ix_count ix) level =
    Some (put_node_state ix (query_vec ix v) lab level)"
proof -
  have "normalizeInPlace (ix\<lparr>ix_count := Suc (ix_count ix)\<rparr>) = normalizeInPlace ix"
    by (simp add: fun_eq_iff normalizeInPlace_def)
  then show ?thesis
    using assms shapeD [OF assms(1)] block_bound [OF assms(2), of "ix_dim ix"]
    by (simp add: put_node_def put_node_state_def query_vec_def rd_range_def Let_def split: space.split)
qed

text \<open>The views of the filled state.\<close>

lemma put_node_views:
  assumes w: "wf_ix ix" and n: "ix_count ix < ix_maxElements ix" and sv: "length sv = ix_dim ix" and l: "0 \<le> level"
  fixes lab
  defines "ix2 \<equiv> put_node_state ix sv lab level"
  shows "j < ix_maxElements ix \<Longrightarrow> vec ix2 j = (if j = ix_count ix then sv else vec ix j)"
    "j < ix_maxElements ix \<Longrightarrow> lvl ix2 j = (if j = ix_count ix then level else lvl ix j)"
    "is_del ix2 j \<longleftrightarrow> is_del ix j" "blk ix2 j 0 = blk ix j 0"
    "ix_linksUpper ix2 ! j = (if j = ix_count ix then replicate (nat level * ix_strideUpper ix) 0 else ix_linksUpper ix ! j)"
    "length (ix_linksUpper ix2) = ix_maxElements ix" "ix_deleted ix2 = ix_deleted ix"
proof -
  note s = shapeD [OF w [unfolded wf_ix_def, THEN conjunct1]]
  have u: "ix_deleted ix ! ix_count ix = 0" "ix_linksUpper ix ! ix_count ix = []"
    using w n by (auto simp: wf_ix_def unused_ok_def)
  show d: "ix_deleted ix2 = ix_deleted ix" using u(1) by (simp add: ix2_def list_update_same_conv s n)
  show "is_del ix2 j \<longleftrightarrow> is_del ix j" by (simp add: is_del_def d)
  show "blk ix2 j 0 = blk ix j 0" by (simp add: blk_def ix2_def put_node_state_def Let_def)
  show "length (ix_linksUpper ix2) = ix_maxElements ix" using s(6) by (simp add: ix2_def put_node_state_def Let_def)
  show "ix_linksUpper ix2 ! j = (if j = ix_count ix then replicate (nat level * ix_strideUpper ix) 0 else ix_linksUpper ix ! j)"
    using u(2) s(6) n l by (auto simp: ix2_def put_node_state_def Let_def)
  show "vec ix2 j = (if j = ix_count ix then sv else vec ix j)" if "j < ix_maxElements ix"
    using block_put_block [OF n that s(1) sv] by (simp add: vec_def ix2_def put_node_state_def Let_def)
  show "lvl ix2 j = (if j = ix_count ix then level else lvl ix j)" if "j < ix_maxElements ix"
    using that s(2) by (simp add: lvl_def ix2_def put_node_state_def Let_def)
qed

lemma put_node_lists:
  assumes w: "wf_ix ix" and n: "ix_count ix < ix_maxElements ix" and sv: "length sv = ix_dim ix" and l: "0 \<le> level"
  fixes lab
  defines "ix2 \<equiv> put_node_state ix sv lab level"
  shows "node ix2 m j \<longleftrightarrow> (if j = ix_count ix then 0 \<le> m \<and> m \<le> level else node ix m j)"
    "node ix m j \<Longrightarrow> blk ix2 j m = blk ix j m"
    "0 \<le> m \<Longrightarrow> m \<le> level \<Longrightarrow> blk ix2 (ix_count ix) m = replicate (stride ix m) 0"
proof -
  note v = put_node_views [OF w n sv l, where lab = lab, folded ix2_def]
  show "node ix2 m j \<longleftrightarrow> (if j = ix_count ix then 0 \<le> m \<and> m \<le> level else node ix m j)"
    using v(2) [of j] n by (auto simp: node_def ix2_def less_Suc_eq)
  show "node ix m j \<Longrightarrow> blk ix2 j m = blk ix j m"
    using v(4,5) by (cases "m = 0") (auto simp: blk_def node_def ix2_def)
  show "blk ix2 (ix_count ix) m = replicate (stride ix m) 0" if m: "0 \<le> m" "m \<le> level"
  proof (cases "m = 0")
    case True
    then show ?thesis using v(4) w n by (simp add: wf_ix_def unused_ok_def stride_def)
  next
    case False
    then have "nat (m - 1) < nat level" using m by auto
    from block_replicate [OF this] show ?thesis using False v(5) by (simp add: blk_def stride_def ix2_def)
  qed
qed

lemma put_node_shape:
  assumes w: "wf_ix ix" and n: "ix_count ix < ix_maxElements ix" and sv: "length sv = ix_dim ix" and l: "0 \<le> level"
  shows "shape (put_node_state ix sv lab level)"
proof -
  let ?ix = "put_node_state ix sv lab level"
  note v = put_node_views [OF w n sv l, where lab = lab]
  have sh: "shape ix" using w by (simp add: wf_ix_def)
  have "\<forall>i < Suc (ix_count ix). 0 \<le> lvl ?ix i \<and> length (ix_linksUpper ?ix ! i) = nat (lvl ?ix i) * ix_strideUpper ix"
    using sh n l v(2,5) by (auto simp: shape_def less_Suc_eq)
  then show ?thesis
    using sh n sv v(6,7) length_put_block [OF n shapeD(1) [OF sh] sv]
    unfolding shape_def by (simp add: put_node_state_def Let_def)
qed

lemma put_node_graph:
  assumes w: "wf_ix ix" and n: "ix_count ix < ix_maxElements ix" and sv: "length sv = ix_dim ix" and l: "0 \<le> level"
  shows "graph_ok (put_node_state ix sv lab level)" "no_in (put_node_state ix sv lab level) (ix_count ix) level"
proof -
  let ?ix = "put_node_state ix sv lab level"
  note p = put_node_lists [OF w n sv l, where lab = lab]
  have sh: "shape ix" "graph_ok ix" using w by (simp_all add: wf_ix_def)
  have nd: "j \<noteq> ix_count ix" if "node ix m j" for m j using that by (auto simp: node_def)
  have new: "adj ?ix (ix_count ix) m = []" "blk ?ix (ix_count ix) m ! 0 = 0" if "0 \<le> m" "m \<le> level" for m
    using p(3) [OF that] stride_maxDegree [OF sh(1), of m] by (simp_all add: adj_def)
  have old: "adj ?ix j m = adj ix j m" if "node ix m j" for m j using p(2) [OF that] by (simp add: adj_def)
  have "links_ok ?ix j m" if "node ?ix m j" for j m
  proof (cases "j = ix_count ix")
    case True
    then show ?thesis using that p(1) new by (simp add: links_ok_def)
  next
    case False
    then have o: "node ix m j" using that p(1) by simp
    note d = links_okD [OF graph_adj(1) [OF sh(2) o]]
    have "node ?ix m k" if "k \<in> set (adj ix j m)" for k using d(3) [OF that] nd [of m k] by (simp add: p(1))
    then show ?thesis using d(1,2,4) by (simp add: links_ok_def old [OF o] p(2) [OF o])
  qed
  then show "graph_ok ?ix" by (simp add: graph_ok_def)
  show "no_in ?ix (ix_count ix) level"
    unfolding no_in_def
  proof (intro allI impI)
    fix m j assume j: "m \<le> level" "node ?ix m j"
    show "ix_count ix \<notin> set (adj ?ix j m)"
    proof (cases "j = ix_count ix")
      case True
      then show ?thesis using new(1) [of m] j by (simp add: p(1))
    next
      case False
      then have o: "node ix m j" using j(2) by (simp add: p(1))
      then show ?thesis using graph_adj(2) [OF sh(2) o] nd unfolding old [OF o] by blast
    qed
  qed
qed

lemma put_node_rest:
  assumes w: "wf_ix ix" and n: "ix_count ix < ix_maxElements ix" and sv: "length sv = ix_dim ix" and l: "0 \<le> level"
    and fresh: "ix_labelToId ix lab = None"
  shows "labels_ok (put_node_state ix sv lab level)" "deleted_ok (put_node_state ix sv lab level)"
    "unused_ok (put_node_state ix sv lab level)"
    "abs_ix (put_node_state ix sv lab level) = (abs_ix ix)(lab \<mapsto> (sv, False))"
proof -
  let ?ix = "put_node_state ix sv lab level" and ?n = "ix_count ix"
  note v = put_node_views [OF w n sv l, where lab = lab]
  have s: "length (ix_labels ix) = ix_maxElements ix" using w by (simp add: wf_ix_def shape_def)
  have lab: "ix_labelToId ix lab' = Some i \<longleftrightarrow> i < ?n \<and> ix_labels ix ! i = lab'" for lab' i
    using w by (simp add: wf_ix_def labels_ok_def)
  have nd: "\<not> is_del ix ?n" using w n by (simp add: wf_ix_def unused_ok_def is_del_def)
  have "(ix_labelToId ?ix lab' = Some i) \<longleftrightarrow> i < Suc ?n \<and> (ix_labels ix)[?n := lab] ! i = lab'" for lab' i
    using lab [of lab' i] lab [of lab i] fresh n s by (cases "i = ?n") (auto simp: less_Suc_eq)
  then show "labels_ok ?ix" by (simp add: labels_ok_def)
  have "{i. i < Suc ?n \<and> is_del ?ix i} = {i. i < ?n \<and> is_del ix i}" using v(3) nd by (auto simp: less_Suc_eq)
  then show "deleted_ok ?ix" using w by (simp add: wf_ix_def deleted_ok_def)
  have un: "\<forall>i. ?n \<le> i \<and> i < ix_maxElements ix \<longrightarrow>
      vec ix i = replicate (ix_dim ix) 0 \<and> lvl ix i = 0 \<and> ix_labels ix ! i = Label 0 0 \<and>
      ix_deleted ix ! i = 0 \<and> blk ix i 0 = replicate (ix_strideL0 ix) 0 \<and> ix_linksUpper ix ! i = []"
    using w by (simp add: wf_ix_def unused_ok_def)
  show "unused_ok ?ix"
    unfolding unused_ok_def
  proof (intro allI impI)
    fix i assume i: "ix_count ?ix \<le> i \<and> i < ix_maxElements ?ix"
    then show "vec ?ix i = replicate (ix_dim ?ix) 0 \<and> lvl ?ix i = 0 \<and> ix_labels ?ix ! i = Label 0 0 \<and>
        ix_deleted ?ix ! i = 0 \<and> blk ?ix i 0 = replicate (ix_strideL0 ?ix) 0 \<and> ix_linksUpper ?ix ! i = []"
      using un v(1,2,4,5) by simp
  qed
  have "abs_ix ?ix lab' = ((abs_ix ix)(lab \<mapsto> (sv, False))) lab'" for lab'
  proof (cases "lab' = lab")
    case True
    then show ?thesis using v(1) [OF n] v(3) nd by (simp add: abs_ix_def)
  next
    case False
    have "vec ?ix i = vec ix i" if "ix_labelToId ix lab' = Some i" for i
      using that lab v(1) [of i] n by simp
    then show ?thesis using False v(3) by (auto simp: abs_ix_def map_option_case split: option.split)
  qed
  then show "abs_ix ?ix = (abs_ix ix)(lab \<mapsto> (sv, False))" by blast
qed

lemma put_node_filled:
  assumes "wf_ix ix" "ix_count ix < ix_maxElements ix" "length sv = ix_dim ix" "0 \<le> level" "ix_labelToId ix lab = None"
  shows "filled ix sv lab level (put_node_state ix sv lab level)"
  using put_node_shape [OF assms(1-4)] put_node_graph [OF assms(1-4)] put_node_rest [OF assms]
    put_node_views(2) [OF assms(1-4)] assms(2)
  by (simp add: filled_def wf_body_def)

lemma wf_ix_body: "wf_ix ix \<longleftrightarrow> wf_body ix \<and> entry_ok ix"
  by (auto simp: wf_ix_def wf_body_def)

lemma abs_entry [simp]: "abs_ix (ix\<lparr>ix_entryPoint := e, ix_maxLevel := m\<rparr>) = abs_ix ix"
  by (simp add: fun_eq_iff abs_ix_def vec_def is_del_def)

lemma abs_relinked: "relinked ix ix' \<Longrightarrow> abs_ix ix' = abs_ix ix"
  by (simp add: fun_eq_iff abs_ix_def relinked_fields)

lemma adj_entry [simp]: "adj (ix\<lparr>ix_entryPoint := e, ix_maxLevel := m\<rparr>) = adj ix"
  by (simp add: fun_eq_iff adj_def blk_def)

text \<open>Where the insertion enters the first layer it links.\<close>

lemma link_start:
  assumes "wf_ix ix" "filled ix sv lab level ix2" "ix_count ix \<noteq> 0" "0 \<le> level"
  defines "L \<equiv> ix_maxLevel ix"
  obtains cur where
    "(if level < L then descend ix2 q (ix_entryPoint ix) L level else Some (ix_entryPoint ix)) = Some cur"
    "node ix2 (min level L) cur" "cur \<noteq> ix_count ix" "0 \<le> L"
proof -
  let ?e = "ix_entryPoint ix"
  have e: "?e < ix_count ix" "lvl ix2 ?e = L" "lvl ix2 (ix_count ix) = level" "shape ix2" "graph_ok ix2"
    "ix_count ix2 = Suc (ix_count ix)"
    using assms by (auto simp: filled_def wf_ix_def entry_ok_def wf_body_def)
  have "0 \<le> lvl ix ?e" "lvl ix ?e = L" using assms(1,3) e(1) by (auto simp: wf_ix_def shape_def entry_ok_def L_def)
  then have ne: "node ix2 L ?e" "0 \<le> L" using e(1,2,6) by (auto simp: node_def)
  show ?thesis
  proof (cases "level < L")
    case True
    obtain c where c: "descend ix2 q ?e L level = Some c" "node ix2 (level + 1) c"
      using descend_spec [OF e(4,5) ne(1) assms(4)] True by auto
    have "c \<noteq> ix_count ix" using c(2) e(3) by (auto simp: node_def)
    then show ?thesis using that [of c] True c(1) node_mono [OF c(2)] assms(4) ne(2) by simp
  next
    case False
    then show ?thesis using that [of ?e] ne e(1) by simp
  qed
qed

lemma link_node_spec:
  assumes w: "wf_ix ix" and f: "filled ix sv lab level ix2" and n: "ix_count ix < ix_maxElements ix" and l: "0 \<le> level"
  shows "\<exists>ix3. link_node ix2 (ix_count ix) level = Some ix3 \<and> wf_ix ix3 \<and> ix_count ix3 = Suc (ix_count ix) \<and>
    abs_ix ix3 = (abs_ix ix)(lab \<mapsto> (sv, False)) \<and> lvl ix3 (ix_count ix) = level \<and> config ix3 = config ix \<and>
    (links_fit ix2 \<longrightarrow> links_fit ix3) \<and> ix_levels ix3 = ix_levels ix2 \<and>
    (ix_count ix \<noteq> 0 \<longrightarrow> linked ix3 (ix_count ix) (min level (ix_maxLevel ix)))"
proof -
  let ?n = "ix_count ix" and ?L = "ix_maxLevel ix"
  have F: "wf_body ix2" "ix_count ix2 = Suc ?n" "ix_entryPoint ix2 = ix_entryPoint ix" "ix_maxLevel ix2 = ?L"
    "\<forall>j < ?n. lvl ix2 j = lvl ix j" "lvl ix2 ?n = level" "no_in ix2 ?n level" "abs_ix ix2 = (abs_ix ix)(lab \<mapsto> (sv, False))"
    "ix_maxElements ix2 = ix_maxElements ix" "config ix2 = config ix"
    using f by (simp_all add: filled_def)
  have lvls: "lvl (i\<lparr>ix_entryPoint := e, ix_maxLevel := m\<rparr>) = lvl i" for i :: index and e m
    by (simp add: fun_eq_iff lvl_def)
  have cfg: "config (i\<lparr>ix_entryPoint := e, ix_maxLevel := m\<rparr>) = config i" for i :: index and e m
    by (simp add: config_def)
  have fit: "links_fit (i\<lparr>ix_entryPoint := e, ix_maxLevel := m\<rparr>) = links_fit i" for i :: index and e m
    by (simp add: links_fit_def link_words_def)
  show ?thesis
  proof (cases "?n = 0")
    case True
    then have "ix_entryPoint ix = kNone" using w by (simp add: wf_ix_def entry_ok_def)
    then have "link_node ix2 ?n level = Some (ix2\<lparr>ix_entryPoint := ?n, ix_maxLevel := level\<rparr>)"
      using F(3) by (simp add: link_node_def Let_def)
    moreover have "entry_ok (ix2\<lparr>ix_entryPoint := ?n, ix_maxLevel := level\<rparr>)"
      using True F(2,6) by (simp add: entry_ok_def lvls)
    ultimately show ?thesis using True F by (simp add: wf_ix_body lvls cfg fit)
  next
    case False
    have ek: "ix_entryPoint ix2 \<noteq> kNone" "ix_entryPoint ix < ?n" "lvl ix (ix_entryPoint ix) = ?L" "\<forall>i < ?n. lvl ix i \<le> ?L"
      using w False F(3) by (auto simp: wf_ix_def entry_ok_def shape_def kNone_def)
    have sg: "shape ix2" "graph_ok ix2" using F(1) by (simp_all add: wf_body_def)
    have gd: "getData ix2 ?n = Some (vec ix2 ?n)" using getData_vec [OF sg(1)] F(9) n by simp
    obtain cur where cur: "(if level < ?L then descend ix2 (vec ix2 ?n) (ix_entryPoint ix) ?L level else Some (ix_entryPoint ix)) = Some cur"
      "node ix2 (min level ?L) cur" "cur \<noteq> ?n" "0 \<le> ?L" using link_start [OF w f False l] .
    have "no_in ix2 ?n (min level ?L)" using F(7) by (simp add: no_in_def)
    moreover have "node ix2 (min level ?L) ?n" using F(2,6) l cur(4) by (simp add: node_def)
    ultimately obtain ix3 where c: "connect_layers ix2 (vec ix2 ?n) ?n cur (min level ?L) = Some ix3" "relinked ix2 ix3"
      "linked ix3 ?n (min level ?L)"
      using connect_layers_spec [where q = "vec ix2 ?n", OF sg _ cur(3), of "min level ?L"] cur(2,4) l by auto
    note r = relinked_fields [OF c(2)]
    define ix4 where "ix4 = (if ?L < level then ix3\<lparr>ix_entryPoint := ?n, ix_maxLevel := level\<rparr> else ix3)"
    have "link_node ix2 ?n level = Some ix4"
      using ek(1) gd cur(1) c(1) F(3,4) by (simp add: link_node_def Let_def ix4_def)
    moreover have "wf_body ix4" "abs_ix ix4 = (abs_ix ix)(lab \<mapsto> (sv, False))" "ix_count ix4 = Suc ?n"
      "lvl ix4 ?n = level" "linked ix4 ?n (min level ?L)" "config ix4 = config ix"
      using wf_body_relinked [OF F(1) c(2)] abs_relinked [OF c(2)] relinked_config [OF c(2)] F(2,6,8,10) r(7,16) c(3)
      by (simp_all add: ix4_def lvls linked_def cfg)
    moreover have "links_fit ix2 \<longrightarrow> links_fit ix4" "ix_levels ix4 = ix_levels ix2"
      using c(2) relinked_levels [OF c(2)] by (simp_all add: ix4_def fit relinked_def)
    moreover have "entry_ok ix4"
      using ek F(2-6) r(7,9,10,16) by (auto simp: entry_ok_def ix4_def lvls less_Suc_eq)
    ultimately show ?thesis by (simp add: wf_ix_body)
  qed
qed

lemma put_node_fit: "links_fit ix \<Longrightarrow> links_fit (put_node_state ix sv lab level)"
  by (auto simp: links_fit_def link_words_def put_node_state_def Let_def dest!: subsetD [OF set_update_subset_insert])

lemma put_node_levels: "ix_levels (put_node_state ix sv lab level) = (ix_levels ix)[ix_count ix := level]"
  by (simp add: put_node_state_def Let_def)

text \<open>The insertion as a whole: success, and the two errors.\<close>

lemma addPoint_ok:
  assumes w: "wf_ix ix" and fresh: "ix_labelToId ix lab = None" and n: "ix_count ix < ix_maxElements ix"
    and d: "ix_dim ix \<le> length v" and l: "0 \<le> level"
  shows "\<exists>ix'. addPoint ix v lab level = Some (Inr (ix_count ix), ix') \<and> wf_ix ix' \<and> ix_count ix' = Suc (ix_count ix) \<and>
    abs_ix ix' = (abs_ix ix)(lab \<mapsto> (query_vec ix v, False)) \<and> lvl ix' (ix_count ix) = level \<and> config ix' = config ix \<and>
    (links_fit ix \<longrightarrow> links_fit ix') \<and> ix_levels ix' = (ix_levels ix)[ix_count ix := level] \<and>
    (ix_count ix \<noteq> 0 \<longrightarrow> linked ix' (ix_count ix) (min level (ix_maxLevel ix)))"
proof -
  have m: "ix_maxElements ix < 2 ^ 32" "shape ix" using w by (auto simp: wf_ix_def shape_def)
  have c: "ix_count ix mod 2 ^ 32 = ix_count ix" "(ix_count ix + 1) mod 2 ^ 64 = Suc (ix_count ix)"
    using m(1) n by simp_all
  note f = put_node_filled [OF w n length_query_vec [OF d] l fresh]
  from link_node_spec [OF w f n l] show ?thesis
    using put_node_fit [of ix] put_node_levels fresh n put_node_eq [OF m(2) n d] unfolding addPoint_def Let_def c by auto
qed

lemma addPoint_duplicate:
  assumes "abs_ix ix lab \<noteq> None"
  shows "addPoint ix v lab level = Some (Inl (Runtime_error ''duplicate label; use updatePoint or a new label''), ix)"
  using assms by (simp add: addPoint_def abs_ix_def)

lemma addPoint_full:
  assumes "wf_ix ix" "abs_ix ix lab = None" "ix_count ix = ix_maxElements ix"
  shows "addPoint ix v lab level = Some (Inl (Runtime_error ''index is full: raise maxElements''), ix)"
proof -
  have m: "ix_count ix < 2 ^ 32" using assms(1,3) by (simp add: wf_ix_def shape_def)
  have "(Suc (ix_count ix) + (2 ^ 64 - 1)) mod 2 ^ 64 = ix_count ix" using sub_sz [of 1 "Suc (ix_count ix)"] m by simp
  then show ?thesis using assms(2,3) m by (simp add: addPoint_def abs_ix_def Let_def)
qed

end
