(* ===== verification/Hnsw_Ops.thy ===== *)
theory Hnsw_Ops
  imports Hnsw_Build
begin

text \<open>
  The public operations of \<open>hnsw::Index\<close> as one state machine, and what it refines: a bounded
  map from labels to vectors with tombstones (\<open>spec_step\<close>). \<open>step_op\<close> performs one
  operation on the index, \<open>run\<close> a sequence. Every operation of the program is a step of the
  specification, with the same answer. The properties of the class are at the end, with a small
  concrete index on which their hypotheses hold.
\<close>

section \<open>Operations\<close>

datatype index_op = Add "f32 list" label int | Mark label | Unmark label | Search "f32 list" nat nat

datatype outcome = Added "exn + nat" | Marked bool | Found "search_result list"

definition step_op :: "index \<Rightarrow> index_op \<Rightarrow> (outcome \<times> index) option" where
  "step_op ix opn =
     (case opn of
        Add v lab level \<Rightarrow> map_option (map_prod Added id) (addPoint ix v lab level)
      | Mark lab \<Rightarrow> map_option (map_prod Marked id) (markDeleted ix lab)
      | Unmark lab \<Rightarrow> map_option (map_prod Marked id) (unmarkDeleted ix lab)
      | Search q k ef \<Rightarrow> map_option (map_prod Found id) (search ix q k ef))"

fun run :: "index \<Rightarrow> index_op list \<Rightarrow> (outcome list \<times> index) option" where
  "run ix [] = Some ([], ix)"
| "run ix (opn # ops) =
     (case step_op ix opn of None \<Rightarrow> None
      | Some (o1, ix') \<Rightarrow> map_option (map_prod ((#) o1) id) (run ix' ops))"

text \<open>What the C++ caller owes: buffers of \<open>dim\<close> floats. Levels come from \<open>randomLevel\<close>.\<close>

fun valid_op :: "nat \<Rightarrow> index_op \<Rightarrow> bool" where
  "valid_op dim (Add v lab level) \<longleftrightarrow> dim \<le> length v \<and> 0 \<le> level"
| "valid_op dim (Search q k ef) \<longleftrightarrow> dim \<le> length q"
| "valid_op dim opn \<longleftrightarrow> True"

section \<open>The specification\<close>

type_synonym store = "label \<Rightarrow> (f32 list \<times> bool) option"

inductive spec_step ::
  "(f32 list \<Rightarrow> f32 list) \<Rightarrow> (f32 list \<Rightarrow> f32 list \<Rightarrow> f32) \<Rightarrow> nat \<Rightarrow> store \<Rightarrow> index_op \<Rightarrow> outcome \<Rightarrow> store \<Rightarrow> bool"
  for prep :: "f32 list \<Rightarrow> f32 list" and dst :: "f32 list \<Rightarrow> f32 list \<Rightarrow> f32" and cap :: nat where
  spec_add: "s lab = None \<Longrightarrow> card (dom s) < cap \<Longrightarrow>
    spec_step prep dst cap s (Add v lab level) (Added (Inr (card (dom s)))) (s(lab \<mapsto> (prep v, False)))"
| spec_duplicate: "s lab \<noteq> None \<Longrightarrow>
    spec_step prep dst cap s (Add v lab level)
      (Added (Inl (Runtime_error ''duplicate label; use updatePoint or a new label''))) s"
| spec_full: "s lab = None \<Longrightarrow> card (dom s) = cap \<Longrightarrow>
    spec_step prep dst cap s (Add v lab level)
      (Added (Inl (Runtime_error ''index is full: raise maxElements''))) s"
| spec_delete: "spec_mark True s lab = (b, s') \<Longrightarrow> spec_step prep dst cap s (Mark lab) (Marked b) s'"
| spec_undelete: "spec_mark False s lab = (b, s') \<Longrightarrow> spec_step prep dst cap s (Unmark lab) (Marked b) s'"
| spec_search: "length out \<le> k \<Longrightarrow> distinct (map sr_label out) \<Longrightarrow>
    \<forall>r \<in> set out. \<exists>v. s (sr_label r) = Some (v, False) \<and> sr_distance r = dst (prep q) v \<Longrightarrow>
    spec_step prep dst cap s (Search q k ef) (Found out) s"

inductive_cases spec_addE: "spec_step prep dst cap s (Add v lab level) o1 s'"
inductive_cases spec_searchE: "spec_step prep dst cap s (Search q k ef) o1 s'"

inductive spec_run ::
  "(f32 list \<Rightarrow> f32 list) \<Rightarrow> (f32 list \<Rightarrow> f32 list \<Rightarrow> f32) \<Rightarrow> nat \<Rightarrow> store \<Rightarrow> index_op list \<Rightarrow> outcome list \<Rightarrow> store \<Rightarrow> bool"
  for prep :: "f32 list \<Rightarrow> f32 list" and dst :: "f32 list \<Rightarrow> f32 list \<Rightarrow> f32" and cap :: nat where
  spec_run_Nil: "spec_run prep dst cap s [] [] s"
| spec_run_Cons: "spec_step prep dst cap s opn o1 s' \<Longrightarrow> spec_run prep dst cap s' ops os s'' \<Longrightarrow>
    spec_run prep dst cap s (opn # ops) (o1 # os) s''"

section \<open>The index refines the specification\<close>

lemma card_dom_abs:
  assumes "wf_ix ix" shows "card (dom (abs_ix ix)) = ix_count ix"
proof -
  have l: "ix_labelToId ix lab = Some i \<longleftrightarrow> i < ix_count ix \<and> ix_labels ix ! i = lab" for lab i
    using assms by (simp add: wf_ix_def labels_ok_def)
  have "dom (abs_ix ix) = (!) (ix_labels ix) ` {..<ix_count ix}"
  proof -
    have "dom (abs_ix ix) = {lab. \<exists>i. ix_labelToId ix lab = Some i}" by (auto simp: abs_ix_def dom_def)
    also have "\<dots> = {lab. \<exists>i. i < ix_count ix \<and> ix_labels ix ! i = lab}"
      by (simp only: l)
    finally show ?thesis by auto
  qed
  then show ?thesis using labels_inj_on [OF assms] by (simp add: card_image)
qed

lemma count_capacity: "wf_ix ix \<Longrightarrow> ix_count ix \<le> ix_maxElements ix"
  by (simp add: wf_ix_def shape_def)

lemma query_vec_cong:
  assumes "config ix' = config ix" shows "query_vec ix' = query_vec ix"
  by (simp add: fun_eq_iff query_vec_def config_cong [OF assms] split: space.split)

lemma config_pool: "config (ix\<lparr>ix_visitedPool := p\<rparr>) = config ix"
  by (simp add: config_def)

definition sim :: "index \<Rightarrow> index_op \<Rightarrow> bool" where
  "sim ix opn \<longleftrightarrow> (\<exists>o1 ix'. step_op ix opn = Some (o1, ix') \<and> wf_ix ix' \<and> config ix' = config ix \<and>
     spec_step (query_vec ix) (rawDistance ix) (ix_maxElements ix) (abs_ix ix) opn o1 (abs_ix ix'))"

lemma sim_add:
  assumes w: "wf_ix ix" and v: "ix_dim ix \<le> length v" "0 \<le> level"
  shows "sim ix (Add v lab level)"
proof -
  note c = card_dom_abs [OF w]
  have none: "ix_labelToId ix lab = None" if "abs_ix ix lab = None" using that by (simp add: abs_ix_def)
  consider (dup) "abs_ix ix lab \<noteq> None" | (full) "abs_ix ix lab = None" "ix_count ix = ix_maxElements ix"
    | (ok) "abs_ix ix lab = None" "ix_count ix < ix_maxElements ix"
    using count_capacity [OF w] by linarith
  then show ?thesis
  proof cases
    case dup
    then show ?thesis
      using w addPoint_duplicate [OF dup] spec_duplicate [of "abs_ix ix" lab, OF dup] by (simp add: sim_def step_op_def)
  next
    case full
    then show ?thesis
      using w addPoint_full [OF w full] spec_full [of "abs_ix ix" lab, OF full(1)] c by (simp add: sim_def step_op_def)
  next
    case ok
    from addPoint_ok [OF w none [OF ok(1)] ok(2) v] show ?thesis
      using spec_add [of "abs_ix ix" lab "ix_maxElements ix" "query_vec ix" "rawDistance ix" v level, OF ok(1)] c ok(2)
      by (auto simp: sim_def step_op_def)
  qed
qed

lemma sim_step:
  assumes w: "wf_ix ix" and v: "valid_op (ix_dim ix) opn"
  shows "sim ix opn"
proof (cases opn)
  case (Add v lab level)
  then show ?thesis using sim_add [OF w] v by simp
next
  case (Mark lab)
  then show ?thesis
    using markDeleted_ok [OF w, of lab] by (force simp: sim_def step_op_def intro: spec_delete)
next
  case (Unmark lab)
  then show ?thesis
    using unmarkDeleted_ok [OF w, of lab] by (force simp: sim_def step_op_def intro: spec_undelete)
next
  case (Search q k ef)
  then obtain out p where "search ix q k ef = Some (out, ix\<lparr>ix_visitedPool := p\<rparr>)" "wf_ix (ix\<lparr>ix_visitedPool := p\<rparr>)"
    "answers_ok ix (query_vec ix q) k out"
    using search_spec [OF w, of q k ef] v by auto
  moreover from this have "spec_step (query_vec ix) (rawDistance ix) (ix_maxElements ix) (abs_ix ix) opn (Found out) (abs_ix ix)"
    unfolding Search by (intro spec_search) (simp_all add: answers_ok_def)
  ultimately show ?thesis using Search by (simp add: sim_def step_op_def config_pool)
qed

lemma sim_run:
  assumes "wf_ix ix" "\<forall>opn \<in> set ops. valid_op (ix_dim ix) opn"
  shows "\<exists>os ix'. run ix ops = Some (os, ix') \<and> wf_ix ix' \<and> config ix' = config ix \<and>
    spec_run (query_vec ix) (rawDistance ix) (ix_maxElements ix) (abs_ix ix) ops os (abs_ix ix')"
  using assms
proof (induction ops arbitrary: ix)
  case Nil
  then show ?case by (auto intro: spec_run_Nil)
next
  case (Cons opn ops)
  then obtain o1 ix1 where s: "step_op ix opn = Some (o1, ix1)" "wf_ix ix1" "config ix1 = config ix"
    "spec_step (query_vec ix) (rawDistance ix) (ix_maxElements ix) (abs_ix ix) opn o1 (abs_ix ix1)"
    using sim_step [of ix opn] by (auto simp: sim_def)
  from Cons.IH [OF s(2)] Cons.prems(2) obtain os ix2 where r: "run ix1 ops = Some (os, ix2)" "wf_ix ix2" "config ix2 = config ix1"
    "spec_run (query_vec ix1) (rawDistance ix1) (ix_maxElements ix1) (abs_ix ix1) ops os (abs_ix ix2)"
    using config_cong [OF s(3)] by auto
  have "spec_run (query_vec ix) (rawDistance ix) (ix_maxElements ix) (abs_ix ix) (opn # ops) (o1 # os) (abs_ix ix2)"
    by (rule spec_run_Cons [OF s(4)]) (use r(4) config_cong [OF s(3)] query_vec_cong [OF s(3)] in simp)
  then show ?case using s r by auto
qed

text \<open>What a successful construction yields.\<close>

lemma Index_wf:
  assumes "Index avx sp dim n M efc = Inr ix" "n < 2 ^ 32" "n * dim < 2 ^ 64" "M < 2 ^ 63"
  shows "wf_ix ix" "ix_dim ix = dim" "ix_maxElements ix = n" "abs_ix ix = Map.empty"
proof -
  have "\<not> (dim = 0 \<or> n = 0 \<or> M = 0 \<or> 128 < M \<and> M < 2 ^ 63)"
  proof
    assume "dim = 0 \<or> n = 0 \<or> M = 0 \<or> 128 < M \<and> M < 2 ^ 63"
    from Index_Inl [OF this, of avx sp efc] assms(1) show False by simp
  qed
  then show "wf_ix ix" "ix_dim ix = dim" "ix_maxElements ix = n" "abs_ix ix = Map.empty"
    using Index_Inr [of dim n M avx sp efc] assms(1-4) by auto
qed

section \<open>A concrete index\<close>

text \<open>Two one-dimensional vectors, 1 and 2, in layer 0 of an index of capacity 3.\<close>

definition ex_empty :: index where
  "ex_empty = projr (Index False L2 1 3 2 2)"

definition ex_one :: index where
  "ex_one = snd (the (addPoint ex_empty [1] (Label 1 7) 0))"

definition ex_two :: index where
  "ex_two = snd (the (addPoint ex_one [1 + 1] (Label 1 8) 0))"

lemma ex_empty_wf: "wf_ix ex_empty" "ix_count ex_empty = 0" "ix_dim ex_empty = 1" "ix_maxElements ex_empty = 3"
  "abs_ix ex_empty = Map.empty" "ix_labelToId ex_empty lab = None"
  using Index_Inr [of 1 3 2 False L2 2] by (auto simp: ex_empty_def abs_ix_def fun_eq_iff)

lemma ex_one_wf: "wf_ix ex_one" "ix_count ex_one = 1" "ix_dim ex_one = 1" "ix_maxElements ex_one = 3"
proof -
  obtain ix' where "addPoint ex_empty [1] (Label 1 7) 0 = Some (Inr 0, ix')" "wf_ix ix'" "ix_count ix' = 1"
    "config ix' = config ex_empty"
    using addPoint_ok [of ex_empty "Label 1 7" "[1]" 0] ex_empty_wf by auto
  then show "wf_ix ex_one" "ix_count ex_one = 1" "ix_dim ex_one = 1" "ix_maxElements ex_one = 3"
    using config_cong(1,2) [of ix' ex_empty] ex_empty_wf by (simp_all add: ex_one_def)
qed

lemma ex_one_fresh: "ix_labelToId ex_one (Label 1 8) = None" "ix_labelToId ex_one (Label 1 7) = Some 0"
  by code_simp+

lemma ex_two_wf: "wf_ix ex_two" "ix_count ex_two = 2" "ix_dim ex_two = 1" "ix_maxElements ex_two = 3"
proof -
  obtain ix' where "addPoint ex_one [1 + 1] (Label 1 8) 0 = Some (Inr 1, ix')" "wf_ix ix'" "ix_count ix' = 2"
    "config ix' = config ex_one"
    using addPoint_ok [of ex_one "Label 1 8" "[1 + 1]" 0] ex_one_wf ex_one_fresh by auto
  then show "wf_ix ex_two" "ix_count ex_two = 2" "ix_dim ex_two = 1" "ix_maxElements ex_two = 3"
    using config_cong(1,2) [of ix' ex_one] ex_one_wf by (simp_all add: ex_two_def)
qed

definition ex_view :: "index \<Rightarrow> nat list \<times> nat \<times> int list \<times> f32 list \<times> space \<times> bool" where
  "ex_view ix = (ix_linksL0 ix, ix_strideL0 ix, ix_levels ix, ix_data ix, ix_space ix, ix_avx ix)"

lemma ex_two_view:
  "ex_view ex_two = ([1, 1, 0, 0, 0, 1, 0, 0, 0, 0, 0, 0, 0, 0, 0], 5, [0, 0, 0], [1, 1 + 1, 0], L2, False)"
  by code_simp

lemma ex_two_graph: "adj ex_two 0 0 = [1]" "adj ex_two 1 0 = [0]" "lvl ex_two 0 = 0" "lvl ex_two 1 = 0"
  using ex_two_view by (simp_all add: ex_view_def adj_def blk_def block_def lvl_def numeral_eq_Suc)

lemma ex_l2: "l2SquaredDistance False [1 :: f32] [1] 1 = 0" "l2SquaredDistance False [1 :: f32] [1 + 1] 1 = 1"
  by code_simp+

lemma ex_two_dist: "dist ex_two [1] 0 = 0" "dist ex_two [1] 1 = 1" "query_vec ex_two [1] = [1]"
  using ex_two_view ex_two_wf ex_l2
  by (simp_all add: ex_view_def dist_def rawDistance_def vec_def block_def query_vec_def numeral_eq_Suc)

lemma ex_two_nodes: "node ex_two l i \<longleftrightarrow> l = 0 \<and> (i = 0 \<or> i = 1)"
  using ex_two_wf ex_two_graph by (auto simp: node_def numeral_eq_Suc less_Suc_eq)

lemma ex_not_nan: "\<not> f32_is_nan 0" "\<not> f32_is_nan 1"
  by code_simp+

lemma ex_two_ok: "nan_free ex_two [1] 0" "connected0 ex_two" "activeSize ex_two \<le> max 2 1"
proof -
  show "nan_free ex_two [1] 0"
    using ex_two_dist ex_not_nan by (auto simp: nan_free_def ex_two_nodes)
  have "(0, 1) \<in> edges ex_two 0" "(1, 0) \<in> edges ex_two 0" by (simp_all add: edges_def ex_two_nodes ex_two_graph del: One_nat_def)
  then have "j \<in> reachable ex_two 0 i" if "i < 2" "j < 2" for i j
    using that by (auto simp: reachable_def numeral_eq_Suc less_Suc_eq)
  then show "connected0 ex_two" by (simp add: connected0_def ex_two_wf)
  have "activeSize ex_two \<le> card {i. i < ix_count ex_two}"
    unfolding activeSize_card [OF ex_two_wf(1)] by (intro card_mono) auto
  then show "activeSize ex_two \<le> max 2 1" by (simp add: ex_two_wf)
qed

lemma live_card:
  assumes "wf_ix ix" shows "card {lab. \<exists>v. abs_ix ix lab = Some (v, False)} = activeSize ix"
    and "finite {lab. \<exists>v. abs_ix ix lab = Some (v, False)}"
proof -
  have l: "ix_labelToId ix lab = Some i \<longleftrightarrow> i < ix_count ix \<and> ix_labels ix ! i = lab" for lab i
    using assms by (simp add: wf_ix_def labels_ok_def)
  have e: "{lab. \<exists>v. abs_ix ix lab = Some (v, False)} = (!) (ix_labels ix) ` {i. i < ix_count ix \<and> \<not> is_del ix i}"
    using l by (auto simp: abs_ix_def)
  have "inj_on ((!) (ix_labels ix)) {i. i < ix_count ix \<and> \<not> is_del ix i}"
    by (rule inj_on_subset [OF labels_inj_on [OF assms]]) auto
  then show "card {lab. \<exists>v. abs_ix ix lab = Some (v, False)} = activeSize ix"
    unfolding e by (simp add: card_image activeSize_card [OF assms])
  show "finite {lab. \<exists>v. abs_ix ix lab = Some (v, False)}" unfolding e by simp
qed

section \<open>Properties of the class\<close>

text \<open>
  C1: From a freshly constructed index, every sequence of insertions, deletions, undeletions and
  queries on valid buffers returns, keeps the invariant of the class, and answers as the bounded map
  with tombstones does.
\<close>

theorem index_refines_store:
  assumes "Index avx sp dim n M efc = Inr ix" "n < 2 ^ 32" "n * dim < 2 ^ 64" "M < 2 ^ 63"
    and "\<forall>opn \<in> set ops. valid_op dim opn"
  shows "\<exists>os ix'. run ix ops = Some (os, ix') \<and> wf_ix ix' \<and>
    spec_run (query_vec ix) (rawDistance ix) n Map.empty ops os (abs_ix ix')"
proof -
  note w = Index_wf [OF assms(1-4)]
  show ?thesis using sim_run [OF w(1), of ops] assms(5) w by auto
qed

theorem index_refines_store_witness:
  "\<exists>os ix'. run ex_empty [Add [1] (Label 1 7) 0, Mark (Label 1 7), Search [1] 1 1] = Some (os, ix') \<and> wf_ix ix' \<and>
    spec_run (query_vec ex_empty) (rawDistance ex_empty) 3 Map.empty
      [Add [1] (Label 1 7) 0, Mark (Label 1 7), Search [1] 1 1] os (abs_ix ix')"
proof -
  have "Index False L2 1 3 2 2 = Inr ex_empty"
    using Index_Inr [of 1 3 2 False L2 2] by (auto simp: ex_empty_def)
  then show ?thesis by (rule index_refines_store) simp_all
qed

text \<open>
  C2: An insertion of a new label into an index that is not full returns the next id, keeps the
  invariant, and adds to the store exactly the (normalised) vector under the label, live.
\<close>

theorem addPoint_inserts:
  assumes "wf_ix ix" "abs_ix ix lab = None" "ix_count ix < ix_maxElements ix" "ix_dim ix \<le> length v" "0 \<le> level"
  shows "\<exists>ix'. addPoint ix v lab level = Some (Inr (ix_count ix), ix') \<and> wf_ix ix' \<and>
    abs_ix ix' = (abs_ix ix)(lab \<mapsto> (query_vec ix v, False))"
proof -
  have "ix_labelToId ix lab = None" using assms(2) by (simp add: abs_ix_def)
  from addPoint_ok [OF assms(1) this assms(3-5)] show ?thesis by blast
qed

theorem addPoint_inserts_witness:
  "\<exists>ix'. addPoint ex_one [1 + 1] (Label 1 8) 0 = Some (Inr 1, ix') \<and> wf_ix ix' \<and>
    abs_ix ix' = (abs_ix ex_one)(Label 1 8 \<mapsto> (query_vec ex_one [1 + 1], False))"
  using addPoint_inserts [of ex_one "Label 1 8" "[1 + 1]" 0] ex_one_wf ex_one_fresh by (simp add: abs_ix_def)

text \<open>
  C12: The new node has between one and \<open>M\<close> neighbours in every layer it shares with the index
  it is inserted into, and no node of the resulting graph has more than \<open>maxM_\<close> neighbours
  (\<open>maxM0_\<close> in layer 0), a neighbour twice, itself as a neighbour, or one that is not in the layer.
\<close>

theorem addPoint_links:
  assumes "wf_ix ix" "abs_ix ix lab = None" "0 < ix_count ix" "ix_count ix < ix_maxElements ix"
    "ix_dim ix \<le> length v" "0 \<le> level"
  shows "\<exists>ix'. addPoint ix v lab level = Some (Inr (ix_count ix), ix') \<and>
    (\<forall>m. 0 \<le> m \<and> m \<le> min level (ix_maxLevel ix) \<longrightarrow>
       adj ix' (ix_count ix) m \<noteq> [] \<and> length (adj ix' (ix_count ix) m) \<le> ix_M ix') \<and>
    (\<forall>m i. node ix' m i \<longrightarrow> length (adj ix' i m) \<le> maxDegree ix' m \<and> distinct (adj ix' i m) \<and>
       (\<forall>j \<in> set (adj ix' i m). node ix' m j \<and> j \<noteq> i))"
proof -
  have "ix_labelToId ix lab = None" using assms(2) by (simp add: abs_ix_def)
  from addPoint_ok [OF assms(1) this assms(4-6)] assms(3) obtain ix' where
    a: "addPoint ix v lab level = Some (Inr (ix_count ix), ix')" "wf_ix ix'"
      "linked ix' (ix_count ix) (min level (ix_maxLevel ix))" by auto
  have "length (adj ix' i m) \<le> maxDegree ix' m \<and> distinct (adj ix' i m) \<and>
      (\<forall>j \<in> set (adj ix' i m). node ix' m j \<and> j \<noteq> i)" if "node ix' m i" for m i
  proof -
    have "links_ok ix' i m" using a(2) that by (simp add: wf_ix_def graph_ok_def)
    note d = links_okD [OF this]
    have "length (adj ix' i m) \<le> blk ix' i m ! 0" by (simp add: adj_def)
    then show ?thesis using d by (meson order_trans)
  qed
  then show ?thesis using a by (simp add: linked_def)
qed

theorem addPoint_links_witness:
  "\<exists>ix'. addPoint ex_one [1 + 1] (Label 1 8) 0 = Some (Inr 1, ix') \<and> ix_M ex_one \<le> 2 \<and>
    (\<forall>m i. node ix' m i \<longrightarrow> length (adj ix' i m) \<le> maxDegree ix' m)"
proof -
  have "ix_M ex_one \<le> 2" by code_simp
  moreover have "\<exists>ix'. addPoint ex_one [1 + 1] (Label 1 8) 0 = Some (Inr (ix_count ex_one), ix') \<and>
    (\<forall>m i. node ix' m i \<longrightarrow> length (adj ix' i m) \<le> maxDegree ix' m)"
    using addPoint_links [of ex_one "Label 1 8" "[1 + 1]" 0] ex_one_wf ex_one_fresh by (fastforce simp: abs_ix_def)
  ultimately show ?thesis by (simp add: ex_one_wf)
qed

text \<open>
  A duplicate label, or a new label on a full index, is an error of its own and leaves the
  index as it was, the element counter included.
\<close>

lemma addPoint_errors:
  assumes "wf_ix ix"
  shows "(abs_ix ix lab \<noteq> None \<longrightarrow> addPoint ix v lab level =
      Some (Inl (Runtime_error ''duplicate label; use updatePoint or a new label''), ix)) \<and>
    (abs_ix ix lab = None \<and> ix_count ix = ix_maxElements ix \<longrightarrow> addPoint ix v lab level =
      Some (Inl (Runtime_error ''index is full: raise maxElements''), ix))"
  using addPoint_duplicate addPoint_full [OF assms] by blast

lemma addPoint_errors_witness:
  "addPoint ex_one [1] (Label 1 7) 0 =
     Some (Inl (Runtime_error ''duplicate label; use updatePoint or a new label''), ex_one)"
  using addPoint_errors [OF ex_one_wf(1), of "Label 1 7" "[1]" 0] ex_one_fresh(2) by (simp add: abs_ix_def)

text \<open>
  C10: A query on a well-formed index returns (no loop runs forever, no array is left) and changes
  nothing a client can see. Its answers are at most \<open>k\<close> distinct live labels, each with the
  distance of its stored vector, in ascending order when no distance is a NaN.
\<close>

theorem search_sound:
  assumes "wf_ix ix" "ix_dim ix \<le> length query"
  shows "\<exists>out ix'. search ix query k ef = Some (out, ix') \<and> wf_ix ix' \<and> abs_ix ix' = abs_ix ix \<and>
    answers_ok ix (query_vec ix query) k out \<and> (nan_free ix (query_vec ix query) 0 \<longrightarrow> ascending out)"
  using search_spec [OF assms, of k ef] by (metis abs_pool)

theorem search_sound_witness:
  "\<exists>out ix'. search ex_two [1] 1 2 = Some (out, ix') \<and> answers_ok ex_two [1] 1 out \<and> ascending out"
  using search_sound [OF ex_two_wf(1), of "[1]" 1 2] ex_two_wf ex_two_dist ex_two_ok by auto

text \<open>
  C3: When every live node is reachable in layer 0, the beam is at least as wide as the number of
  live vectors and no distance from the query to a stored vector is a NaN, the query is exact: it
  returns \<open>k\<close> distinct live labels (all of them, if there are fewer) with the distances of
  their vectors, in ascending order, and no live vector that is left out is closer than one returned.
\<close>

theorem search_exact:
  assumes "wf_ix ix" "ix_dim ix \<le> length query" "nan_free ix (query_vec ix query) 0" "connected0 ix"
    "activeSize ix \<le> max ef k"
  shows "\<exists>out ix'. search ix query k ef = Some (out, ix') \<and> exact_knn ix (query_vec ix query) k out \<and>
    ascending out"
  using search_spec [OF assms(1,2), of k ef] assms(3-5) by blast

theorem search_exact_witness:
  "\<exists>out ix'. search ex_two [1] 1 2 = Some (out, ix') \<and> exact_knn ex_two [1] 1 out \<and> ascending out"
  using search_exact [OF ex_two_wf(1), of "[1]" 2 1] ex_two_wf ex_two_dist ex_two_ok by auto

text \<open>
  Deleting and undeleting. \<open>markDeleted\<close> and \<open>unmarkDeleted\<close> report whether they
  changed the tombstone of a known label, change nothing else of the store, and keep the invariant, of
  which the exact count of tombstones is a part.
\<close>

lemma deletes_refine:
  assumes "wf_ix ix"
  shows "(\<exists>b ix'. markDeleted ix lab = Some (b, ix') \<and> wf_ix ix' \<and> (b, abs_ix ix') = spec_mark True (abs_ix ix) lab) \<and>
    (\<exists>b ix'. unmarkDeleted ix lab = Some (b, ix') \<and> wf_ix ix' \<and> (b, abs_ix ix') = spec_mark False (abs_ix ix) lab)"
  using markDeleted_ok [OF assms] unmarkDeleted_ok [OF assms] by metis

lemma deletes_refine_witness:
  "\<exists>b ix'. markDeleted ex_two (Label 1 7) = Some (b, ix') \<and> (b, abs_ix ix') = spec_mark True (abs_ix ex_two) (Label 1 7)"
  using deletes_refine [OF ex_two_wf(1)] by blast

text \<open>
  Undeleting undoes a delete: both calls report a change, and the store and the number of live
  vectors are what they were; in between the vector is not live.
\<close>

lemma delete_undelete:
  assumes "wf_ix ix" "abs_ix ix lab = Some (v, False)"
  shows "\<exists>ix1 ix2. markDeleted ix lab = Some (True, ix1) \<and> unmarkDeleted ix1 lab = Some (True, ix2) \<and>
    abs_ix ix1 lab = Some (v, True) \<and> abs_ix ix2 = abs_ix ix \<and> activeSize ix2 = activeSize ix"
proof -
  obtain ix1 where 1: "markDeleted ix lab = Some (True, ix1)" "wf_ix ix1" "abs_ix ix1 = (abs_ix ix)(lab \<mapsto> (v, True))"
    using markDeleted_ok [OF assms(1), of lab] assms(2) by (auto simp: spec_mark_def)
  obtain ix2 where 2: "unmarkDeleted ix1 lab = Some (True, ix2)" "wf_ix ix2" "abs_ix ix2 = (abs_ix ix1)(lab \<mapsto> (v, False))"
    using unmarkDeleted_ok [OF 1(2), of lab] 1(3) by (auto simp: spec_mark_def)
  have "abs_ix ix2 = abs_ix ix" using 1(3) 2(3) assms(2) by auto
  then show ?thesis using 1 2 live_card(1) [OF 2(2)] live_card(1) [OF assms(1)] by simp
qed

lemma delete_undelete_witness:
  "\<exists>ix1 ix2. markDeleted ex_one (Label 1 7) = Some (True, ix1) \<and> unmarkDeleted ix1 (Label 1 7) = Some (True, ix2) \<and>
    abs_ix ix2 = abs_ix ex_one"
proof -
  have "abs_ix ex_one (Label 1 7) = Some ([1], False)" by code_simp
  from delete_undelete [OF ex_one_wf(1) this] show ?thesis by blast
qed

text \<open>
  C11: The beam search of one layer, for any beam width and from any node of the layer: it returns
  distinct nodes reachable from the entry, with their distances, deleted ones only if they are not
  filtered, and at most \<open>max ef 1\<close> of them; if fewer than \<open>ef\<close>, all there are. Without NaN
  distances no kept node has a neighbour that is closer than another kept node and was left out.
\<close>

theorem searchLayer_beam:
  assumes "wf_ix ix" "node ix l entry"
  shows "\<exists>res ix'. searchLayer ix q entry ef l filterDeleted = Some (res, ix') \<and> wf_ix ix' \<and>
    (\<forall>c \<in> set res. fst c = dist ix q (snd c) \<and> snd c \<in> reachable ix l entry \<and> eligible ix filterDeleted (snd c)) \<and>
    distinct (map snd res) \<and> length res \<le> max ef 1 \<and>
    (length res < ef \<longrightarrow> snd ` set res = {i \<in> reachable ix l entry. eligible ix filterDeleted i}) \<and>
    (nan_free ix q l \<and> 0 < ef \<longrightarrow> (\<forall>c \<in> set res. \<forall>j \<in> set (adj ix (snd c) l). eligible ix filterDeleted j \<longrightarrow>
       j \<in> snd ` set res \<or> (\<forall>y \<in> set res. \<not> dist ix q j < fst y)))"
proof -
  have "shape ix" "graph_ok ix" using assms(1) by (simp_all add: wf_ix_def)
  from searchLayer_spec [OF this assms(2), of q ef filterDeleted] obtain res p where
    r: "searchLayer ix q entry ef l filterDeleted = Some (res, ix\<lparr>ix_visitedPool := p\<rparr>)" "pool_ok p"
      "vp_n p = ix_maxElements ix" "beam_result ix q ef l filterDeleted entry res" by blast
  have "wf_ix (ix\<lparr>ix_visitedPool := p\<rparr>)" by (rule wf_pool [OF assms(1) r(2,3)])
  moreover have "\<forall>c \<in> set res. fst c = dist ix q (snd c) \<and> snd c \<in> reachable ix l entry \<and> eligible ix filterDeleted (snd c)"
    using r(4) by (simp add: beam_result_def)
  ultimately show ?thesis
    using r(1,4) unfolding beam_result_def by (intro exI [of _ res] exI [of _ "ix\<lparr>ix_visitedPool := p\<rparr>"]) argo
qed

theorem searchLayer_beam_witness:
  "\<exists>res ix'. searchLayer ex_two [1] 0 2 0 True = Some (res, ix') \<and> distinct (map snd res) \<and> length res \<le> 2"
  using searchLayer_beam [of ex_two 0 0 "[1]" 2 True] ex_two_wf by (auto simp: ex_two_nodes)

text \<open>
  C21: The greedy descent of a layer ends, in a node of the layer that is the entry or closer to the
  query than it, and none of whose neighbours is closer still.
\<close>

theorem greedyDescend_local_minimum:
  assumes "wf_ix ix" "node ix l entry"
  shows "\<exists>c. greedyDescend ix q entry l = Some (c, dist ix q c) \<and> node ix l c \<and>
    (c = entry \<or> dist ix q c < dist ix q entry) \<and> (\<forall>j \<in> set (adj ix c l). \<not> dist ix q j < dist ix q c)"
  using greedyDescend_spec [OF _ _ assms(2)] assms(1) by (simp add: wf_ix_def)

theorem greedyDescend_local_minimum_witness:
  "\<exists>c. greedyDescend ex_two [1] 1 0 = Some (c, dist ex_two [1] c) \<and> node ex_two 0 c \<and>
    (\<forall>j \<in> set (adj ex_two c 0). \<not> dist ex_two [1] j < dist ex_two [1] c)"
  using greedyDescend_local_minimum [of ex_two 0 1 "[1]"] ex_two_wf by (auto simp: ex_two_nodes)

text \<open>
  C20: Neighbour selection returns exactly \<open>min M n\<close> of the \<open>n\<close> candidates. When it has to
  choose, the selection is a list of candidates none of which is closer to an earlier one than to the
  query, followed by back-filled candidates each of which is occluded by one of the former; the closest
  candidate comes first.
\<close>

theorem selectNeighbors_diverse:
  assumes "shape ix" "\<forall>c \<in> set heap. snd c < ix_maxElements ix \<and> \<not> f32_is_nan (fst c)" "0 < M" "M < length heap"
  shows "\<exists>ks ds. selectNeighborsHeuristic ix heap M = Some (map snd (ks @ ds)) \<and> mset (ks @ ds) \<subseteq># mset heap \<and>
    length (ks @ ds) = M \<and> diverse ix [] ks \<and> (\<forall>d \<in> set ds. \<exists>r \<in> snd ` set ks. occluded ix d r) \<and>
    ks \<noteq> [] \<and> (\<forall>c \<in> set heap. \<not> fst c < fst (hd ks))"
proof -
  obtain ks ds where s: "selectNeighborsHeuristic ix heap M = Some (map snd (ks @ ds))"
    "mset (ks @ ds) \<subseteq># mset heap" "length (ks @ ds) = min M (length heap)"
    "0 < M \<and> heap \<noteq> [] \<longrightarrow> ks \<noteq> [] \<and> hd ks = hd (sorted_cands heap)"
    "M < length heap \<longrightarrow> diverse ix [] ks \<and> (\<forall>d \<in> set ds. \<exists>r \<in> snd ` set ks. occluded ix d r)"
    using select_spec [OF assms(1), of heap M] assms(2) by blast
  have "sorted_wrt (\<lambda>a b. \<not> cand_less b a) (sorted_cands heap)"
    using sorted_cands_sorted assms(2) by (simp add: cand_ok_def)
  moreover have "sorted_cands heap \<noteq> []" using assms(4) length_sorted_cands [of heap] by (metis less_zeroE list.size(3))
  ultimately have "\<not> cand_less c (hd (sorted_cands heap))" if "c \<in> set (sorted_cands heap)" for c
    using that cands.lt_asym by (cases "sorted_cands heap") auto
  then have "\<forall>c \<in> set heap. \<not> fst c < fst (hd (sorted_cands heap))" by (auto simp: cand_less_def)
  moreover have "heap \<noteq> []" "min M (length heap) = M" using assms(4) by auto
  ultimately show ?thesis using s assms(3,4) by (intro exI [of _ ks] exI [of _ ds]) simp
qed

theorem selectNeighbors_diverse_witness:
  "\<exists>ks ds. selectNeighborsHeuristic ex_two [(1, 1), (0, 0)] 1 = Some (map snd (ks @ ds)) \<and> length (ks @ ds) = 1 \<and>
    (\<forall>c \<in> set [(1 :: f32, 1 :: nat), (0, 0)]. \<not> fst c < fst (hd ks))"
proof -
  have "shape ex_two" using ex_two_wf by (simp add: wf_ix_def)
  from selectNeighbors_diverse [OF this, of "[(1, 1), (0, 0)]" 1] show ?thesis
    using ex_not_nan ex_two_wf by auto
qed

end
