(* ===== verification/Hnsw_Snapshot.thy ===== *)
theory Hnsw_Snapshot
  imports Hnsw_Ops
begin

text \<open>
  \<open>Index::save\<close> and \<open>Index::load\<close> of \<open>include/hnsw.hpp\<close>: the binary snapshot.
  A file is a list of bytes, numbers are little-endian (the program writes its memory as it is).

  An output stream is described by the device behind it (\<open>device\<close>): whether it opens, how many
  bytes it takes, and how many bytes are still in the stream's buffer when \<open>save\<close> tests it. An
  input stream is the bytes left and the good bit; a read that fails leaves a scalar with an arbitrary
  value (\<open>junk\<close>), and an array read that would leave its array is undefined behaviour. The
  length of an upper-layer list is such a scalar, and the list is resized to it before the stream is tested:
  a resize to an arbitrary length can fail (\<open>Bad_alloc\<close>).

  The main result is that loading what was saved restores the index, field for field, but for the pool
  of visited lists, which starts afresh.
\<close>

section \<open>Encoding of numbers\<close>

type_synonym byte = "8 word"

fun le :: "nat \<Rightarrow> nat \<Rightarrow> byte list" where
  "le 0 n = []"
| "le (Suc k) n = of_nat (n mod 256) # le k (n div 256)"

fun un_le :: "byte list \<Rightarrow> nat" where
  "un_le [] = 0"
| "un_le (b # bs) = unat b + 256 * un_le bs"

definition enc_f32 :: "f32 \<Rightarrow> byte list" where "enc_f32 x = le 4 (unat (f32_bits x))"
definition dec_f32 :: "byte list \<Rightarrow> f32" where "dec_f32 bs = F32 (of_nat (un_le bs))"

definition enc_i32 :: "int \<Rightarrow> byte list" where "enc_i32 x = le 4 (nat (x mod 2 ^ 32))"
definition to_i32 :: "nat \<Rightarrow> int" where "to_i32 n = (if n < 2 ^ 31 then int n else int n - 2 ^ 32)"
definition dec_i32 :: "byte list \<Rightarrow> int" where "dec_i32 bs = to_i32 (un_le bs)"

definition enc_label :: "label \<Rightarrow> byte list" where
  "enc_label l = le 8 (unat (clientId l)) @ le 8 (unat (label_no l))"
definition dec_label :: "byte list \<Rightarrow> label" where
  "dec_label bs = Label (of_nat (un_le (take 8 bs))) (of_nat (un_le (drop 8 bs)))"

section \<open>Saving\<close>

definition kMagic :: nat where "kMagic = 0x484E5357"
definition kVersion :: nat where "kVersion = 2"

record device =
  dev_opens :: bool
  dev_room :: nat
  dev_buffered :: nat

definition space_no :: "space \<Rightarrow> nat" where
  "space_no sp = (case sp of Cosine \<Rightarrow> 0 | L2 \<Rightarrow> 1)"

definition header_bytes :: "index \<Rightarrow> byte list" where
  "header_bytes ix =
     le 4 kMagic @ le 4 kVersion @ le 4 (space_no (ix_space ix)) @
     le 8 (ix_dim ix) @ le 8 (ix_maxElements ix) @ le 8 (ix_M ix) @ le 8 (ix_efConstruction ix) @
     le 8 (ix_count ix) @ le 8 (ix_numDeleted ix) @ enc_i32 (ix_maxLevel ix) @ le 4 (ix_entryPoint ix)"

definition upper_bytes :: "nat list \<Rightarrow> byte list" where
  "upper_bytes v = le 4 (length v) @ concat (map (le 4) (take (length v mod 2 ^ 32) v))"

definition snapshot_bytes :: "index \<Rightarrow> byte list option" where
  "snapshot_bytes ix =
     (let cnt = ix_count ix in
      case (rd_range (ix_data ix) 0 (cnt * ix_dim ix), rd_range (ix_levels ix) 0 cnt, rd_range (ix_labels ix) 0 cnt,
            rd_range (ix_deleted ix) 0 cnt, rd_range (ix_linksL0 ix) 0 (cnt * ix_strideL0 ix),
            rd_range (ix_linksUpper ix) 0 cnt) of
        (Some data, Some levels, Some labels, Some deleted, Some l0, Some upper) \<Rightarrow>
          Some (header_bytes ix @ concat (map enc_f32 data) @ concat (map enc_i32 levels) @
                concat (map enc_label labels) @ deleted @ concat (map (le 4) l0) @ concat (map upper_bytes upper))
      | _ \<Rightarrow> None)"

text \<open>
  The result and what the file holds afterwards (\<open>None\<close>: it was not opened). The test of the
  stream sees a failure only if bytes that have left the buffer did not fit.
\<close>

definition save :: "index \<Rightarrow> string \<Rightarrow> device \<Rightarrow> ((exn + unit) \<times> byte list option) option" where
  "save ix path dev =
     (if \<not> dev_opens dev then Some (Inl (Runtime_error (''cannot open '' @ path @ '' for writing'')), None)
      else case snapshot_bytes ix of None \<Rightarrow> None
        | Some bs \<Rightarrow>
            Some (if dev_room dev < length bs - dev_buffered dev
                  then Inl (Runtime_error (''write failed for '' @ path)) else Inr (),
                  Some (take (dev_room dev) bs)))"

section \<open>Loading\<close>

type_synonym reader = "byte list \<times> bool"

definition get :: "nat \<Rightarrow> nat \<Rightarrow> reader \<Rightarrow> nat \<times> reader" where
  "get w junk s =
     (case s of (bs, good) \<Rightarrow>
        if good \<and> w \<le> length bs then (un_le (take w bs), (drop w bs, True)) else (junk, ([], False)))"

fun decode_n :: "nat \<Rightarrow> (byte list \<Rightarrow> 'a) \<Rightarrow> nat \<Rightarrow> byte list \<Rightarrow> 'a list" where
  "decode_n w dec 0 bs = []"
| "decode_n w dec (Suc n) bs = dec (take w bs) # decode_n w dec n (drop w bs)"

text \<open>
  \<open>r(dst, n * w)\<close> into an array of \<open>w\<close>-byte elements. After a short read the stream is bad and
  the elements are not used again, so the array is left as it was.
\<close>

definition get_arr :: "nat \<Rightarrow> (byte list \<Rightarrow> 'a) \<Rightarrow> nat \<Rightarrow> 'a list \<Rightarrow> reader \<Rightarrow> ('a list \<times> reader) option" where
  "get_arr w dec n arr s =
     (case s of (bs, good) \<Rightarrow>
        if \<not> good then Some (arr, s)
        else if length arr * w < min (n * w mod 2 ^ 64) (length bs) then None
        else if n * w mod 2 ^ 64 \<le> length bs
          then Some (decode_n w dec (n * w mod 2 ^ 64 div w) bs @ drop (n * w mod 2 ^ 64 div w) arr,
                     (drop (n * w mod 2 ^ 64) bs, True))
        else Some (arr, ([], False)))"

record header =
  h_space :: nat
  h_dim :: nat
  h_maxEl :: nat
  h_M :: nat
  h_efc :: nat
  h_cnt :: nat
  h_ndel :: nat
  h_ml :: int
  h_ep :: nat

definition get_header :: "(nat \<Rightarrow> nat) \<Rightarrow> reader \<Rightarrow> header \<times> reader" where
  "get_header junk s0 =
     (case get 4 (junk 2) s0 of (sp, s1) \<Rightarrow> case get 8 (junk 3) s1 of (dim, s2) \<Rightarrow>
      case get 8 (junk 4) s2 of (maxEl, s3) \<Rightarrow> case get 8 (junk 5) s3 of (m, s4) \<Rightarrow>
      case get 8 (junk 6) s4 of (efc, s5) \<Rightarrow> case get 8 (junk 7) s5 of (cnt, s6) \<Rightarrow>
      case get 8 (junk 8) s6 of (ndel, s7) \<Rightarrow> case get 4 (junk 9) s7 of (ml, s8) \<Rightarrow>
      case get 4 (junk 10) s8 of (ep, s9) \<Rightarrow>
        (\<lparr>h_space = sp, h_dim = dim, h_maxEl = maxEl, h_M = m, h_efc = efc, h_cnt = cnt, h_ndel = ndel,
          h_ml = to_i32 ml, h_ep = ep\<rparr>, s9))"

definition resize :: "nat \<Rightarrow> nat list \<Rightarrow> nat list" where
  "resize n v = take n v @ replicate (n - length v) 0"

text \<open>
  One turn of the loop over the upper-layer lists; an exception ends it. When the length is not in the file,
  \<open>n\<close> holds any 32-bit value, and \<open>resize\<close> fails if the allocator has not as many entries:
  \<open>junk 11\<close> is what it has. (Lengths that are in the file are those of an index that was in memory;
  allocation is not assumed to fail for them.)
\<close>

definition get_upper ::
  "(nat \<Rightarrow> nat) \<Rightarrow> exn + nat list list \<times> reader \<Rightarrow> nat \<Rightarrow> (exn + nat list list \<times> reader) option" where
  "get_upper junk st i =
     (case st of Inl e \<Rightarrow> Some (Inl e)
      | Inr (upper, s) \<Rightarrow>
          case get 4 (junk (12 + i) mod 2 ^ 32) s of (n, s1) \<Rightarrow>
          case rd upper i of None \<Rightarrow> None
          | Some v \<Rightarrow>
              if \<not> snd s1 \<and> junk 11 < n then Some (Inl Bad_alloc)
              else if n = 0 then Some (Inr (upper[i := resize n v], s1))
              else (case get_arr 4 un_le n (resize n v) s1 of None \<Rightarrow> None
                    | Some (v', s2) \<Rightarrow> Some (Inr (upper[i := v'], s2))))"

definition index_labels :: "label list \<Rightarrow> (label \<Rightarrow> nat option) \<Rightarrow> nat \<Rightarrow> (label \<Rightarrow> nat option) option" where
  "index_labels labels mp i =
     (case rd labels i of None \<Rightarrow> None | Some lab \<Rightarrow> Some (mp(lab \<mapsto> i mod 2 ^ 32)))"

definition load_body :: "(nat \<Rightarrow> nat) \<Rightarrow> string \<Rightarrow> header \<Rightarrow> index \<Rightarrow> reader \<Rightarrow> (exn + index) option" where
  "load_body junk path h ix s0 =
     (let cnt = h_cnt h in
      case get_arr 4 dec_f32 (cnt * h_dim h) (ix_data ix) s0 of None \<Rightarrow> None | Some (data, s1) \<Rightarrow>
      case get_arr 4 dec_i32 cnt (ix_levels ix) s1 of None \<Rightarrow> None | Some (levels, s2) \<Rightarrow>
      case get_arr 16 dec_label cnt (ix_labels ix) s2 of None \<Rightarrow> None | Some (labels, s3) \<Rightarrow>
      case get_arr 1 hd cnt (ix_deleted ix) s3 of None \<Rightarrow> None | Some (deleted, s4) \<Rightarrow>
      case get_arr 4 un_le (cnt * ix_strideL0 ix) (ix_linksL0 ix) s4 of None \<Rightarrow> None | Some (l0, s5) \<Rightarrow>
      case foldM (get_upper junk) (Inr (ix_linksUpper ix, s5)) [0..<cnt] of None \<Rightarrow> None
      | Some (Inl e) \<Rightarrow> Some (Inl e) | Some (Inr (upper, s6)) \<Rightarrow>
      if \<not> snd s6 then Some (Inl (Runtime_error (''truncated index file '' @ path)))
      else case foldM (index_labels labels) (ix_labelToId ix) [0..<cnt] of None \<Rightarrow> None
        | Some mp \<Rightarrow>
            Some (Inr (ix\<lparr>ix_data := data, ix_levels := levels, ix_labels := labels, ix_deleted := deleted,
                          ix_linksL0 := l0, ix_linksUpper := upper, ix_count := cnt, ix_numDeleted := h_ndel h,
                          ix_maxLevel := h_ml h, ix_entryPoint := h_ep h, ix_labelToId := mp\<rparr>)))"

fun to_string :: "nat \<Rightarrow> string" where
  "to_string n = (if n < 10 then [char_of (48 + n)] else to_string (n div 10) @ [char_of (48 + n mod 10)])"

declare to_string.simps [simp del]

definition version_error :: "nat \<Rightarrow> exn" where
  "version_error v = Runtime_error (''index snapshot version '' @ to_string v @ '' is not supported (expected '' @
     to_string kVersion @ ''); this is a breaking format change (Label is now a 16-byte {clientId, label} '' @
     ''pair, not an 8-byte uint64) -- old snapshots cannot be loaded and must be rebuilt'')"

definition load :: "bool \<Rightarrow> (nat \<Rightarrow> nat) \<Rightarrow> string \<Rightarrow> byte list option \<Rightarrow> (exn + index) option" where
  "load avx junk path file =
     (case file of None \<Rightarrow> Some (Inl (Runtime_error (''cannot open '' @ path @ '' for reading'')))
      | Some bs \<Rightarrow>
          (case get 4 (junk 0) (bs, True) of (magic, s1) \<Rightarrow>
           case get 4 (junk 1) s1 of (version, s2) \<Rightarrow>
             if magic \<noteq> kMagic then Some (Inl (Runtime_error ''not an hnsw index file''))
             else if version \<noteq> kVersion then Some (Inl (version_error version))
             else case get_header junk s2 of (h, s3) \<Rightarrow>
               (case Index avx (if h_space h = 0 then Cosine else L2) (h_dim h) (h_maxEl h) (h_M h) (h_efc h) of
                  Inl e \<Rightarrow> Some (Inl e)
                | Inr ix \<Rightarrow> load_body junk path h ix s3)))"

section \<open>Codecs\<close>

lemma length_le [simp]: "length (le k n) = k"
  by (induction k arbitrary: n) auto

lemma un_le_le: "un_le (le k n) = n mod 256 ^ k"
proof (induction k arbitrary: n)
  case (Suc k)
  have "unat (of_nat (n mod 256) :: byte) = n mod 256" by (simp add: unat_of_nat take_bit_eq_mod)
  then show ?case using Suc by (simp add: mod_mult2_eq)
qed simp

lemma le_un_le: "length bs = k \<Longrightarrow> le k (un_le bs) = bs"
proof (induction k arbitrary: bs)
  case (Suc k)
  then obtain b bs' where b: "bs = b # bs'" "length bs' = k" by (cases bs) auto
  have u: "unat b < 256" using unsigned_less [of b] by simp
  then have "(unat b + 256 * un_le bs') mod 256 = unat b" "(unat b + 256 * un_le bs') div 256 = un_le bs'" by simp_all
  then show ?case using Suc.IH [OF b(2)] by (simp add: b(1))
qed simp

text \<open>The interface of an element encoding: fixed width, and decoding inverts encoding.\<close>

locale codec =
  fixes w :: nat and enc :: "'a \<Rightarrow> byte list" and dec :: "byte list \<Rightarrow> 'a" and ok :: "'a \<Rightarrow> bool"
  assumes width_pos: "0 < w" and enc_width: "length (enc x) = w" and dec_enc: "ok x \<Longrightarrow> dec (enc x) = x"
begin

lemma length_concat_enc: "length (concat (map enc xs)) = length xs * w"
  by (induction xs) (auto simp: enc_width)

lemma decode_concat: "\<forall>x \<in> set xs. ok x \<Longrightarrow> decode_n w dec (length xs) (concat (map enc xs) @ r) = xs"
  by (induction xs) (auto simp: enc_width dec_enc)

lemma get_arr_concat:
  assumes "\<forall>x \<in> set xs. ok x" "length xs \<le> length arr" "length xs * w < 2 ^ 64" "n = length xs"
  shows "get_arr w dec n arr (concat (map enc xs) @ r, True) = Some (xs @ drop n arr, (r, True))"
proof -
  have m: "n * w mod 2 ^ 64 = length xs * w" using assms(3,4) by simp
  have d: "length xs * w div w = length xs" using width_pos by simp
  have "length xs * w \<le> length arr * w" using assms(2) by (rule mult_le_mono1)
  then have "\<not> length arr * w < min (length xs * w) (length (concat (map enc xs) @ r))" by linarith
  then show ?thesis
    using assms decode_concat [OF assms(1), of r] by (simp add: get_arr_def m d length_concat_enc)
qed

lemma get_arr_take:
  assumes "\<forall>x \<in> set xs. ok x" "length xs \<le> length arr" "length xs * w < 2 ^ 64" "n = length xs"
  shows "get_arr w dec n arr (take k (concat (map enc xs) @ r), True) =
    (if length xs * w \<le> k then Some (xs @ drop n arr, (take (k - length xs * w) r, True)) else Some (arr, ([], False)))"
proof (cases "length xs * w \<le> k")
  case True
  then have "take k (concat (map enc xs) @ r) = concat (map enc xs) @ take (k - length xs * w) r"
    by (simp add: length_concat_enc)
  then show ?thesis using True get_arr_concat [OF assms] by simp
next
  case False
  have "length xs * w \<le> length arr * w" using assms(2) by (rule mult_le_mono1)
  then have "\<not> length arr * w < min (length xs * w) k" by linarith
  moreover have "n * w mod 2 ^ 64 = length xs * w" using assms(3,4) by simp
  ultimately show ?thesis using False by (simp add: get_arr_def length_concat_enc)
qed

end

interpretation c_u32: codec 4 "le 4" un_le "\<lambda>n. n < 2 ^ 32"
  by unfold_locales (auto simp: un_le_le)

interpretation c_f32: codec 4 enc_f32 dec_f32 "\<lambda>_. True"
proof
  fix x :: f32
  have "unat (f32_bits x) mod 256 ^ 4 = unat (f32_bits x)" using unat_f32_less [of x] by (intro mod_less) simp
  then show "dec_f32 (enc_f32 x) = x" by (simp add: dec_f32_def enc_f32_def un_le_le)
qed (simp_all add: enc_f32_def)

definition in_i32 :: "int \<Rightarrow> bool" where
  "in_i32 x \<longleftrightarrow> - (2 ^ 31) \<le> x \<and> x < 2 ^ 31"

lemma to_i32_enc: "in_i32 x \<Longrightarrow> to_i32 (nat (x mod 2 ^ 32)) = x"
proof (cases "0 \<le> x")
  case True
  moreover assume "in_i32 x"
  ultimately show ?thesis by (simp add: to_i32_def in_i32_def nat_less_iff)
next
  case False
  assume x: "in_i32 x"
  then have "(x + 2 ^ 32) mod 2 ^ 32 = x + 2 ^ 32" using False by (intro mod_pos_pos_trivial) (simp_all add: in_i32_def)
  then have "x mod 2 ^ 32 = x + 2 ^ 32" by simp
  then show ?thesis using x False by (simp add: to_i32_def in_i32_def nat_less_iff)
qed

interpretation c_i32: codec 4 enc_i32 dec_i32 in_i32
proof
  fix x :: int
  assume x: "in_i32 x"
  have "nat (x mod 2 ^ 32) mod 256 ^ 4 = nat (x mod 2 ^ 32)" by (intro mod_less) (simp add: nat_less_iff)
  then show "dec_i32 (enc_i32 x) = x" using to_i32_enc [OF x] by (simp add: dec_i32_def enc_i32_def un_le_le)
qed (simp_all add: enc_i32_def)

lemma of_nat_le8: "of_nat (un_le (le 8 (unat (x :: 64 word)))) = x"
proof -
  have "unat x < 2 ^ LENGTH(64)" by (rule unsigned_less)
  then have "unat x mod 256 ^ 8 = unat x" by (intro mod_less) simp
  then show ?thesis by (simp add: un_le_le)
qed

interpretation c_label: codec 16 enc_label dec_label "\<lambda>_. True"
  by unfold_locales (auto simp: enc_label_def dec_label_def of_nat_le8 Label_def)

interpretation c_u8: codec 1 "\<lambda>b. [b]" hd "\<lambda>_. True"
  by unfold_locales auto

lemma concat_map_single [simp]: "concat (map (\<lambda>b. [b]) xs) = xs"
  by (induction xs) auto

lemma get_le: "n < 256 ^ w \<Longrightarrow> get w j (le w n @ r, True) = (n, (r, True))"
  by (simp add: get_def un_le_le)

lemma get_le_end: "n < 256 ^ w \<Longrightarrow> get w j (le w n, True) = (n, ([], True))"
  using get_le [of n w j "[]"] by simp

section \<open>Reading back what was written\<close>

lemma upper_bytes_small: "length u < 2 ^ 32 \<Longrightarrow> upper_bytes u = le 4 (length u) @ concat (map (le 4) u)"
  by (simp add: upper_bytes_def)

lemma get_upper_loop:
  assumes us: "\<forall>u \<in> set us. length u < 2 ^ 32 \<and> (\<forall>x \<in> set u. x < 2 ^ 32)" and n: "length us \<le> n"
  shows "foldM (get_upper junk) (Inr (replicate n [], (concat (map upper_bytes us) @ r, True))) [0..<length us] =
    Some (Inr (us @ replicate (n - length us) [], (r, True)))"
proof -
  define s where "s k = (take k us @ replicate (n - k) [], (concat (map upper_bytes (drop k us)) @ r, True))" for k
  have "foldM (get_upper junk) (Inr (s 0)) [0..<length us] = Some (Inr (s (length us)))"
  proof (rule foldM_upt [of "length us" "get_upper junk" "Inr \<circ> s", unfolded o_def])
    fix k assume k: "k < length us"
    let ?u = "us ! k" and ?r = "concat (map upper_bytes (drop (Suc k) us)) @ r"
    have u: "length ?u < 2 ^ 32" "\<forall>x \<in> set ?u. x < 2 ^ 32" using us k by auto
    have d: "drop k us = ?u # drop (Suc k) us" using k by (simp add: Cons_nth_drop_Suc)
    have up: "(take k us @ replicate (n - k) [])[k := v] = take k us @ v # replicate (n - Suc k) []" for v :: "nat list"
      using k n by (simp add: list_update_append Suc_diff_Suc [symmetric])
    have at: "rd (take k us @ replicate (n - k) []) k = Some []"
      using k n by (simp add: rd_def nth_append Suc_diff_Suc [symmetric])
    have bytes: "snd (s k) = (le 4 (length ?u) @ (concat (map (le 4) ?u) @ ?r), True)" using u(1) by (simp add: s_def d upper_bytes_small)
    have g: "get 4 (junk (12 + k) mod 2 ^ 32) (snd (s k)) = (length ?u, (concat (map (le 4) ?u) @ ?r, True))"
      unfolding bytes by (rule get_le) (use u(1) in simp)
    have a: "get_arr 4 un_le (length ?u) (replicate (length ?u) 0) (concat (map (le 4) ?u) @ ?r, True) = Some (?u, (?r, True))"
      using c_u32.get_arr_concat [OF u(2), of "replicate (length ?u) 0" "length ?u" ?r] u(1) by simp
    have "fst (s k) = take k us @ replicate (n - k) []" by (simp add: s_def)
    then have "get_upper junk (Inr (s k)) k = Some (Inr (take k us @ ?u # replicate (n - Suc k) [], (?r, True)))"
      using g a at up by (cases "?u = []") (simp_all add: get_upper_def resize_def case_prod_unfold)
    moreover have "take k us @ ?u # replicate (n - Suc k) [] = take (Suc k) us @ replicate (n - Suc k) []"
      using k by (simp add: take_Suc_conv_app_nth)
    ultimately show "get_upper junk (Inr (s k)) k = Some (Inr (s (Suc k)))" by (simp add: s_def)
  qed
  then show ?thesis by (simp add: s_def)
qed

lemma index_labels_loop:
  assumes "labels_ok ix" "ix_count ix \<le> length (ix_labels ix)" "ix_count ix \<le> 2 ^ 32"
  shows "foldM (index_labels (ix_labels ix)) Map.empty [0..<ix_count ix] = Some (ix_labelToId ix)"
proof -
  define s where "s k = ix_labelToId ix |` {lab. \<exists>i < k. ix_labels ix ! i = lab}" for k
  have l: "ix_labelToId ix lab = Some i \<longleftrightarrow> i < ix_count ix \<and> ix_labels ix ! i = lab" for lab i
    using assms(1) by (simp add: labels_ok_def)
  have "foldM (index_labels (ix_labels ix)) (s 0) [0..<ix_count ix] = Some (s (ix_count ix))"
  proof (rule foldM_upt)
    fix k assume k: "k < ix_count ix"
    then have "ix_labelToId ix (ix_labels ix ! k) = Some k" by (simp add: l)
    then have "s (Suc k) = (s k)(ix_labels ix ! k \<mapsto> k)"
      by (auto simp: s_def fun_eq_iff restrict_map_def less_Suc_eq)
    then show "index_labels (ix_labels ix) (s k) k = Some (s (Suc k))"
      using k assms(2,3) by (simp add: index_labels_def rd_def)
  qed
  moreover have "s (ix_count ix) = ix_labelToId ix"
  proof
    fix lab show "s (ix_count ix) lab = ix_labelToId ix lab"
      using l by (cases "ix_labelToId ix lab") (auto simp: s_def restrict_map_def)
  qed
  moreover have "s 0 = Map.empty" by (simp add: s_def)
  ultimately show ?thesis by simp
qed

lemma drop_blocks:
  assumes "length xs = n * s" "\<And>i. c \<le> i \<Longrightarrow> i < n \<Longrightarrow> block s xs i = replicate s x"
  shows "drop (c * s) xs = replicate (n * s - c * s) x"
proof (rule nth_equalityI)
  fix m assume "m < length (drop (c * s) xs)"
  then have m: "c * s + m < n * s" using assms(1) by simp
  then have s: "0 < s" by (cases s) auto
  define i where "i = c + m div s"
  have e: "c * s + m = i * s + m mod s" by (simp add: i_def add_mult_distrib)
  have "i < n" using m e by (metis add_lessD1 mult_less_cancel2)
  then have "xs ! (i * s + m mod s) = x"
    using nth_block [OF _ assms(1), of i "m mod s"] assms(2) [of i] s by (simp add: i_def)
  moreover have "drop (c * s) xs ! m = xs ! (c * s + m)" by (rule nth_drop) (use m assms(1) in linarith)
  moreover have "m < n * s - c * s" using m by linarith
  ultimately show "drop (c * s) xs ! m = replicate (n * s - c * s) x ! m" by (simp only: nth_replicate e)
qed (simp add: assms(1))

lemma drop_const:
  assumes "length xs = n" "\<And>i. c \<le> i \<Longrightarrow> i < n \<Longrightarrow> xs ! i = x"
  shows "drop c xs = replicate (n - c) x"
  using assms by (intro nth_equalityI) auto

text \<open>Every number the index stores fits the C++ type of its field.\<close>

definition typed :: "index \<Rightarrow> bool" where
  "typed ix \<longleftrightarrow> ix_dim ix < 2 ^ 64 \<and> ix_efConstruction ix < 2 ^ 64 \<and> ix_maxElements ix * ix_dim ix * 4 < 2 ^ 64 \<and>
     in_i32 (ix_maxLevel ix) \<and> ix_entryPoint ix < 2 ^ 32 \<and> (\<forall>x \<in> set (ix_levels ix). in_i32 x) \<and>
     (\<forall>v \<in> set (ix_linksUpper ix). length v < 2 ^ 32) \<and> links_fit ix"

lemma typed_words:
  assumes "typed ix"
  shows "\<forall>x \<in> set (ix_linksL0 ix). x < 2 ^ 32"
    "\<forall>v \<in> set (ix_linksUpper ix). length v < 2 ^ 32 \<and> (\<forall>x \<in> set v. x < 2 ^ 32)"
  using assms by (auto simp: typed_def links_fit_def link_words_def)

lemma header_roundtrip:
  assumes "typed ix" "ix_maxElements ix < 2 ^ 64" "ix_M ix < 2 ^ 64" "ix_count ix < 2 ^ 64" "ix_numDeleted ix < 2 ^ 64"
  shows "get_header junk (drop 8 (header_bytes ix) @ r, True) =
    (\<lparr>h_space = space_no (ix_space ix), h_dim = ix_dim ix, h_maxEl = ix_maxElements ix, h_M = ix_M ix,
      h_efc = ix_efConstruction ix, h_cnt = ix_count ix, h_ndel = ix_numDeleted ix, h_ml = ix_maxLevel ix,
      h_ep = ix_entryPoint ix\<rparr>, (r, True))"
proof -
  have b: "space_no (ix_space ix) < 256 ^ 4" "ix_dim ix < 256 ^ 8" "ix_maxElements ix < 256 ^ 8" "ix_M ix < 256 ^ 8"
    "ix_efConstruction ix < 256 ^ 8" "ix_count ix < 256 ^ 8" "ix_numDeleted ix < 256 ^ 8"
    "nat (ix_maxLevel ix mod 2 ^ 32) < 256 ^ 4" "ix_entryPoint ix < 256 ^ 4"
    using assms by (auto simp: typed_def space_no_def nat_less_iff split: space.split)
  have i: "to_i32 (nat (ix_maxLevel ix mod 2 ^ 32)) = ix_maxLevel ix" 
    by (rule to_i32_enc) (use assms(1) in \<open>simp add: typed_def\<close>)
  show ?thesis
    unfolding get_header_def header_bytes_def enc_i32_def
    by (simp add: get_le [OF b(1)] get_le [OF b(2)] get_le [OF b(3)] get_le [OF b(4)] get_le [OF b(5)]
        get_le [OF b(6)] get_le [OF b(7)] get_le [OF b(8)] get_le [OF b(9)] i del: power_numeral)
qed

text \<open>The arrays of the index are their used part followed by what the constructor puts there.\<close>

lemma used_parts:
  assumes "wf_ix ix"
  defines "c \<equiv> ix_count ix" and "n \<equiv> ix_maxElements ix"
  shows "take (c * ix_dim ix) (ix_data ix) @ replicate (n * ix_dim ix - c * ix_dim ix) 0 = ix_data ix"
    "take c (ix_levels ix) @ replicate (n - c) 0 = ix_levels ix"
    "take c (ix_labels ix) @ replicate (n - c) (Label 0 0) = ix_labels ix"
    "take c (ix_deleted ix) @ replicate (n - c) 0 = ix_deleted ix"
    "take (c * ix_strideL0 ix) (ix_linksL0 ix) @ replicate (n * ix_strideL0 ix - c * ix_strideL0 ix) 0 = ix_linksL0 ix"
    "take c (ix_linksUpper ix) @ replicate (n - c) [] = ix_linksUpper ix"
proof -
  note s = shapeD [OF assms(1) [unfolded wf_ix_def, THEN conjunct1]]
  have u: "vec ix i = replicate (ix_dim ix) 0" "lvl ix i = 0" "ix_labels ix ! i = Label 0 0" "ix_deleted ix ! i = 0"
    "blk ix i 0 = replicate (ix_strideL0 ix) 0" "ix_linksUpper ix ! i = []" if "c \<le> i" "i < n" for i
    using assms(1) that by (auto simp: wf_ix_def unused_ok_def c_def n_def)
  show "take (c * ix_dim ix) (ix_data ix) @ replicate (n * ix_dim ix - c * ix_dim ix) 0 = ix_data ix"
    using drop_blocks [of "ix_data ix" n "ix_dim ix" c 0] s(1) u(1) by (simp add: vec_def n_def) (metis append_take_drop_id)
  show "take (c * ix_strideL0 ix) (ix_linksL0 ix) @ replicate (n * ix_strideL0 ix - c * ix_strideL0 ix) 0 = ix_linksL0 ix"
    using drop_blocks [of "ix_linksL0 ix" n "ix_strideL0 ix" c 0] s(5) u(5) by (simp add: blk_def n_def) (metis append_take_drop_id)
  have "drop c (ix_levels ix) = replicate (n - c) 0" "drop c (ix_labels ix) = replicate (n - c) (Label 0 0)"
    "drop c (ix_deleted ix) = replicate (n - c) 0" "drop c (ix_linksUpper ix) = replicate (n - c) []"
    using s(2,3,4,6) u(2,3,4,6) by (auto intro!: drop_const simp: n_def lvl_def)
  then show "take c (ix_levels ix) @ replicate (n - c) 0 = ix_levels ix"
    "take c (ix_labels ix) @ replicate (n - c) (Label 0 0) = ix_labels ix"
    "take c (ix_deleted ix) @ replicate (n - c) 0 = ix_deleted ix"
    "take c (ix_linksUpper ix) @ replicate (n - c) [] = ix_linksUpper ix"
    by (metis append_take_drop_id)+
qed

definition blank :: "bool \<Rightarrow> index \<Rightarrow> index" where
  "blank avx ix = ix\<lparr>ix_data := replicate (ix_maxElements ix * ix_dim ix) 0, ix_levels := replicate (ix_maxElements ix) 0,
      ix_labels := replicate (ix_maxElements ix) (Label 0 0), ix_deleted := replicate (ix_maxElements ix) 0,
      ix_linksL0 := replicate (ix_maxElements ix * ix_strideL0 ix) 0, ix_linksUpper := replicate (ix_maxElements ix) [],
      ix_count := 0, ix_numDeleted := 0, ix_entryPoint := kNone, ix_maxLevel := 0, ix_labelToId := Map.empty,
      ix_visitedPool := VisitedListPool 1 (ix_maxElements ix), ix_avx := avx\<rparr>"

lemma Index_of_wf:
  assumes "shape ix" "ix_maxElements ix * ix_dim ix < 2 ^ 64"
  shows "Index avx (ix_space ix) (ix_dim ix) (ix_maxElements ix) (ix_M ix) (ix_efConstruction ix) =
    Inr (blank avx ix)"
proof -
  have f: "0 < ix_dim ix" "0 < ix_maxElements ix" "0 < ix_M ix" "ix_M ix \<le> 128" "ix_maxM ix = ix_M ix"
    "ix_maxM0 ix = ix_M ix * 2" "max (ix_efConstruction ix) (ix_M ix) = ix_efConstruction ix"
    "ix_strideL0 ix = ix_M ix * 2 + 1" "ix_strideUpper ix = ix_M ix + 1" "ix_maxElements ix < 2 ^ 32"
    using assms(1) by (auto simp: shape_def)
  have "ix_maxElements ix * (ix_M ix * 2 + 1) \<le> 2 ^ 32 * 257" using f by (intro mult_le_mono) auto
  also have "\<dots> < (2 :: nat) ^ 64" by simp
  finally have m: "mul_sz (ix_maxElements ix) (ix_M ix * 2 + 1) = ix_maxElements ix * (ix_M ix * 2 + 1)"
    "mul_sz (ix_maxElements ix) (ix_dim ix) = ix_maxElements ix * ix_dim ix" "mul_sz (ix_M ix) 2 = ix_M ix * 2"
    "(ix_M ix * 2 + 1) mod 2 ^ 64 = ix_M ix * 2 + 1" "(ix_M ix + 1) mod 2 ^ 64 = ix_M ix + 1"
    using assms(2) f by (simp_all add: mul_sz_def)
  have "\<not> (ix_M ix = 0 \<or> kMaxDegree < mul_sz (ix_M ix) 2)" using f m(3) by (simp add: kMaxDegree_def)
  then show ?thesis
    using f unfolding Index_def m Let_def blank_def by (intro trans [OF if_not_P]) (cases ix, simp)+
qed

lemma snapshot_bytes_Some:
  assumes "shape ix"
  shows "snapshot_bytes ix = Some (header_bytes ix @
    concat (map enc_f32 (take (ix_count ix * ix_dim ix) (ix_data ix))) @ concat (map enc_i32 (take (ix_count ix) (ix_levels ix))) @
    concat (map enc_label (take (ix_count ix) (ix_labels ix))) @ take (ix_count ix) (ix_deleted ix) @
    concat (map (le 4) (take (ix_count ix * ix_strideL0 ix) (ix_linksL0 ix))) @
    concat (map upper_bytes (take (ix_count ix) (ix_linksUpper ix))))"
proof -
  note s = shapeD [OF assms]
  have "ix_count ix * ix_dim ix \<le> length (ix_data ix)" "ix_count ix * ix_strideL0 ix \<le> length (ix_linksL0 ix)"
    unfolding s(1,5) by (rule mult_le_mono1 [OF s(7)])+
  then show ?thesis using s by (simp add: snapshot_bytes_def rd_range_def Let_def)
qed

definition header_of :: "index \<Rightarrow> header" where
  "header_of ix = \<lparr>h_space = space_no (ix_space ix), h_dim = ix_dim ix, h_maxEl = ix_maxElements ix, h_M = ix_M ix,
      h_efc = ix_efConstruction ix, h_cnt = ix_count ix, h_ndel = ix_numDeleted ix, h_ml = ix_maxLevel ix,
      h_ep = ix_entryPoint ix\<rparr>"

text \<open>The used part of every array fits the array, and its size in bytes does not wrap.\<close>

lemma used_bounds:
  assumes "shape ix" "typed ix"
  shows "ix_count ix * ix_dim ix \<le> ix_maxElements ix * ix_dim ix"
    "ix_count ix * ix_strideL0 ix \<le> ix_maxElements ix * ix_strideL0 ix"
    "ix_count ix * ix_dim ix * 4 < 2 ^ 64" "ix_count ix * 16 < 2 ^ 64" "ix_count ix * ix_strideL0 ix * 4 < 2 ^ 64"
proof -
  note s = shapeD [OF assms(1)]
  show cd: "ix_count ix * ix_dim ix \<le> ix_maxElements ix * ix_dim ix"
    "ix_count ix * ix_strideL0 ix \<le> ix_maxElements ix * ix_strideL0 ix" using s(7) by (auto intro: mult_le_mono1)
  have "ix_maxElements ix * ix_dim ix * 4 < 2 ^ 64" using assms(2) by (simp only: typed_def)
  then show "ix_count ix * ix_dim ix * 4 < 2 ^ 64" using cd(1) by linarith
  show "ix_count ix * 16 < 2 ^ 64" using s(7,10) by simp
  have "ix_strideL0 ix \<le> 257" using assms(1) by (simp add: shape_def)
  then have "ix_count ix * ix_strideL0 ix \<le> 2 ^ 32 * 257" using s(7,10) by (intro mult_le_mono) auto
  then show "ix_count ix * ix_strideL0 ix * 4 < 2 ^ 64" by simp
qed

lemma load_body_roundtrip:
  assumes w: "wf_ix ix" and t: "typed ix"
    and ix0: "ix_data ix0 = replicate (ix_maxElements ix * ix_dim ix) 0" "ix_levels ix0 = replicate (ix_maxElements ix) 0"
      "ix_labels ix0 = replicate (ix_maxElements ix) (Label 0 0)" "ix_deleted ix0 = replicate (ix_maxElements ix) 0"
      "ix_linksL0 ix0 = replicate (ix_maxElements ix * ix_strideL0 ix) 0" "ix_linksUpper ix0 = replicate (ix_maxElements ix) []"
      "ix_strideL0 ix0 = ix_strideL0 ix" "ix_labelToId ix0 = Map.empty"
    and bs: "snapshot_bytes ix = Some (header_bytes ix @ bs)"
  shows "load_body junk path (header_of ix) ix0 (bs, True) =
    Some (Inr (ix0\<lparr>ix_data := ix_data ix, ix_levels := ix_levels ix, ix_labels := ix_labels ix, ix_deleted := ix_deleted ix,
      ix_linksL0 := ix_linksL0 ix, ix_linksUpper := ix_linksUpper ix, ix_count := ix_count ix,
      ix_numDeleted := ix_numDeleted ix, ix_maxLevel := ix_maxLevel ix, ix_entryPoint := ix_entryPoint ix,
      ix_labelToId := ix_labelToId ix\<rparr>))"
proof -
  let ?c = "ix_count ix" and ?n = "ix_maxElements ix" and ?d = "ix_dim ix" and ?s = "ix_strideL0 ix"
  have sh: "shape ix" and lo: "labels_ok ix" using w by (simp_all add: wf_ix_def)
  note s = shapeD [OF sh] and u = used_parts [OF w]
  define b1 where "b1 = concat (map upper_bytes (take ?c (ix_linksUpper ix)))"
  define b2 where "b2 = concat (map (le 4) (take (?c * ?s) (ix_linksL0 ix))) @ b1"
  define b3 where "b3 = take ?c (ix_deleted ix) @ b2"
  define b4 where "b4 = concat (map enc_label (take ?c (ix_labels ix))) @ b3"
  define b5 where "b5 = concat (map enc_i32 (take ?c (ix_levels ix))) @ b4"
  have bs': "bs = concat (map enc_f32 (take (?c * ?d) (ix_data ix))) @ b5"
    using bs snapshot_bytes_Some [OF sh] by (simp add: b1_def b2_def b3_def b4_def b5_def)
  note cd = used_bounds(1,2) [OF sh t] and big = used_bounds(3-5) [OF sh t]
  have 1: "get_arr 4 dec_f32 (?c * ?d) (ix_data ix0) (bs, True) = Some (ix_data ix, (b5, True))"
    unfolding bs' using c_f32.get_arr_concat [of "take (?c * ?d) (ix_data ix)" "ix_data ix0" "?c * ?d" b5] cd(1) big(1) s(1) u(1)
    by (simp add: ix0)
  have 2: "get_arr 4 dec_i32 ?c (ix_levels ix0) (b5, True) = Some (ix_levels ix, (b4, True))"
    unfolding b5_def using c_i32.get_arr_concat [of "take ?c (ix_levels ix)" "ix_levels ix0" ?c b4] big(2) s(2,7) u(2) t
    by (simp add: ix0 typed_def) (metis in_set_takeD)
  have 3: "get_arr 16 dec_label ?c (ix_labels ix0) (b4, True) = Some (ix_labels ix, (b3, True))"
    unfolding b4_def using c_label.get_arr_concat [of "take ?c (ix_labels ix)" "ix_labels ix0" ?c b3] big(2) s(3,7) u(3)
    by (simp add: ix0)
  have 4: "get_arr 1 hd ?c (ix_deleted ix0) (b3, True) = Some (ix_deleted ix, (b2, True))"
    unfolding b3_def using c_u8.get_arr_concat [of "take ?c (ix_deleted ix)" "ix_deleted ix0" ?c b2] big(2) s(4,7) u(4)
    by (simp add: ix0)
  have 5: "get_arr 4 un_le (?c * ?s) (ix_linksL0 ix0) (b2, True) = Some (ix_linksL0 ix, (b1, True))"
    unfolding b2_def using c_u32.get_arr_concat [of "take (?c * ?s) (ix_linksL0 ix)" "ix_linksL0 ix0" "?c * ?s" b1] cd(2) big(3) s(5) u(5) typed_words(1) [OF t]
    by (simp add: ix0) (metis in_set_takeD)
  have 6: "foldM (get_upper junk) (Inr (ix_linksUpper ix0, (b1, True))) [0..<?c] = Some (Inr (ix_linksUpper ix, ([], True)))"
    using get_upper_loop [of "take ?c (ix_linksUpper ix)" ?n junk "[]"] s(6,7) u(6) typed_words(2) [OF t]
    by (simp add: ix0 b1_def) (metis in_set_takeD)
  have 7: "foldM (index_labels (ix_labels ix)) Map.empty [0..<?c] = Some (ix_labelToId ix)"
    using index_labels_loop [OF lo] s(3,7,10) by simp
  show ?thesis by (simp add: load_body_def header_of_def Let_def 1 2 3 4 [simplified] 5 6 7 ix0(7,8))
qed

text \<open>The state after loading: everything but the pool, and the build's choice of kernels.\<close>

definition reloaded :: "bool \<Rightarrow> index \<Rightarrow> index" where
  "reloaded avx ix = ix\<lparr>ix_visitedPool := VisitedListPool 1 (ix_maxElements ix), ix_avx := avx\<rparr>"

text \<open>The header's checks and fields, also when its element count is not the one the arrays hold.\<close>

lemma load_after_header:
  assumes sh: "shape ix" and t: "typed ix" and nd: "ix_numDeleted ix < 2 ^ 64" and c: "c < 2 ^ 64"
  shows "load avx junk path (Some (header_bytes (ix\<lparr>ix_count := c\<rparr>) @ r)) =
    load_body junk path (header_of (ix\<lparr>ix_count := c\<rparr>)) (blank avx ix) (r, True)"
proof -
  let ?ix = "ix\<lparr>ix_count := c\<rparr>"
  have "ix_maxElements ix * ix_dim ix * 4 < 2 ^ 64" using t by (simp only: typed_def)
  then have md: "ix_maxElements ix * ix_dim ix < 2 ^ 64" by linarith
  let ?bs = "header_bytes ?ix @ r" and ?r = "drop 8 (header_bytes ?ix) @ r"
  have h: "?bs = le 4 kMagic @ (le 4 kVersion @ ?r)" by (simp add: header_bytes_def)
  have g: "get 4 (junk 0) (?bs, True) = (kMagic, (le 4 kVersion @ ?r, True))"
    "get 4 (junk 1) (le 4 kVersion @ ?r, True) = (kVersion, (?r, True))"
    unfolding h by (rule get_le; simp add: kMagic_def kVersion_def)+
  have hd: "get_header junk (?r, True) = (header_of ?ix, (r, True))"
    unfolding header_of_def by (rule header_roundtrip) (use sh t nd c in \<open>auto simp: typed_def shape_def links_fit_def link_words_def\<close>)
  have sp: "(if h_space (header_of ?ix) = 0 then Cosine else L2) = ix_space ix"
    by (cases "ix_space ix") (simp_all add: header_of_def space_no_def)
  show ?thesis using g hd sp Index_of_wf [OF sh md, of avx] by (simp add: load_def header_of_def)
qed

lemma load_after_header_wf:
  assumes "wf_ix ix" "typed ix"
  shows "load avx junk path (Some (header_bytes ix @ r)) = load_body junk path (header_of ix) (blank avx ix) (r, True)"
  using load_after_header [of ix "ix_count ix" avx junk path r] assms numDeleted_bound [OF assms(1)] by (simp add: wf_ix_def)

lemma load_roundtrip:
  assumes w: "wf_ix ix" and t: "typed ix" and bs: "snapshot_bytes ix = Some bs"
  shows "load avx junk path (Some bs) = Some (Inr (reloaded avx ix))"
proof -
  have sh: "shape ix" using w by (simp add: wf_ix_def)
  obtain r where r: "bs = header_bytes ix @ r" using bs snapshot_bytes_Some [OF sh] by (metis option.inject)
  have "load avx junk path (Some bs) = load_body junk path (header_of ix) (blank avx ix) (r, True)"
    unfolding r by (rule load_after_header_wf [OF w t])
  also have "\<dots> = Some (Inr ((blank avx ix)\<lparr>ix_data := ix_data ix, ix_levels := ix_levels ix, ix_labels := ix_labels ix,
      ix_deleted := ix_deleted ix, ix_linksL0 := ix_linksL0 ix, ix_linksUpper := ix_linksUpper ix, ix_count := ix_count ix,
      ix_numDeleted := ix_numDeleted ix, ix_maxLevel := ix_maxLevel ix, ix_entryPoint := ix_entryPoint ix,
      ix_labelToId := ix_labelToId ix\<rparr>))"
    by (rule load_body_roundtrip [OF w t]) (use bs r in \<open>simp_all add: blank_def\<close>)
  also have "\<dots> = Some (Inr (reloaded avx ix))" by (cases ix) (simp add: reloaded_def blank_def)
  finally show ?thesis .
qed

section \<open>Truncated files\<close>

text \<open>
  A reader from which the last \<open>m > 0\<close> bytes are missing, where \<open>rest\<close> should follow: it has the
  bytes before them, or has already failed.
\<close>

definition lost :: "nat \<Rightarrow> byte list \<Rightarrow> reader \<Rightarrow> bool" where
  "lost m rest s \<longleftrightarrow> (if m \<le> length rest then s = (take (length rest - m) rest, True) else \<not> snd s)"

lemma lost_failed: "0 < m \<Longrightarrow> lost m [] s \<Longrightarrow> \<not> snd s"
  by (simp add: lost_def)

lemma lost_short: "length rest < m \<Longrightarrow> lost m rest s \<longleftrightarrow> \<not> snd s"
  by (simp add: lost_def)

lemma lost_good:
  assumes "lost m (a @ r) s" "m \<le> length r" shows "s = (a @ take (length r - m) r, True)"
  using assms by (simp add: lost_def)

lemma lost_part:
  assumes "lost m (a @ r) s" "0 < m" "length r < m"
  obtains "\<not> snd s" | k where "k < length a" "s = (take k (a @ r), True)"
proof (cases "m \<le> length (a @ r)")
  case True
  then have "s = (take (length (a @ r) - m) (a @ r), True)" using assms(1) by (simp only: lost_def if_True)
  moreover have "length (a @ r) - m < length a" using True assms(2,3) by simp
  ultimately show ?thesis using that(2) by blast
next
  case False
  then have "\<not> snd s" using assms(1) by (simp only: lost_def if_False simp_thms)
  then show ?thesis by (rule that(1))
qed

lemma get_arr_bad: "\<not> snd s \<Longrightarrow> get_arr w dec n arr s = Some (arr, s)"
  by (cases s) (simp add: get_arr_def)

lemma get_bad: "\<not> snd s \<Longrightarrow> get w j s = (j, ([], False))"
  by (cases s) (simp add: get_def)

lemma get_take:
  "n < 256 ^ w \<Longrightarrow> get w j (take k (le w n @ r), True) = (if w \<le> k then (n, (take (k - w) r, True)) else (j, ([], False)))"
  by (simp add: get_def un_le_le)

lemma length_resize [simp]: "length (resize n v) = n"
  by (simp add: resize_def)

context codec
begin

lemma get_arr_lost:
  assumes "\<forall>x \<in> set xs. ok x" "length xs \<le> length arr" "length xs * w < 2 ^ 64" "n = length xs"
    and c: "lost m (concat (map enc xs) @ r) s" "0 < m"
  obtains arr' s' where "get_arr w dec n arr s = Some (arr', s')" "lost m r s'"
proof (cases "m \<le> length r")
  case True
  then have "get_arr w dec n arr s = Some (xs @ drop n arr, (take (length r - m) r, True))"
    unfolding lost_good [OF c(1) True] using get_arr_concat [OF assms(1-4)] by simp
  then show thesis by (rule that) (use True in \<open>simp add: lost_def\<close>)
next
  case False
  then have r: "length r < m" by simp
  from c r show thesis
  proof (cases rule: lost_part)
    case 1
    then show thesis using that get_arr_bad lost_short [OF r] by blast
  next
    case (2 k)
    then have "get_arr w dec n arr s = Some (arr, ([], False))"
      using get_arr_take [OF assms(1-4), of k r] by (simp add: length_concat_enc)
    then show thesis by (rule that) (simp add: lost_short [OF r])
  qed
qed

end

text \<open>One list: its length is in the file, or it is not and the allocator decides.\<close>

lemma get_upper_lost:
  assumes i: "i < length upper" and u: "length u < 2 ^ 32" "\<forall>x \<in> set u. x < 2 ^ 32"
    and c: "lost m (upper_bytes u @ r) s" "0 < m"
  shows "\<exists>st. get_upper junk (Inr (upper, s)) i = Some st \<and>
    (if length u * 4 + length r < m \<and> junk 11 < junk (12 + i) mod 2 ^ 32 then st = Inl Bad_alloc
     else \<exists>upper' s'. st = Inr (upper', s') \<and> length upper' = length upper \<and> lost m r s')"
proof -
  let ?c = "concat (map (le 4) u)" and ?j = "junk (12 + i) mod 2 ^ 32"
  have l: "length (?c @ r) = length u * 4 + length r" by (simp add: c_u32.length_concat_enc)
  have b: "upper_bytes u @ r = le 4 (length u) @ (?c @ r)" using u(1) by (simp add: upper_bytes_small)
  show ?thesis
  proof (cases "length u * 4 + length r < m")
    case True
    then have cr: "length (?c @ r) < m" "length r < m" using l by simp_all
    have g: "get 4 ?j s = (?j, ([], False))"
      using c(1) [unfolded b] c(2) cr(1)
    proof (cases rule: lost_part)
      case 1
      then show ?thesis by (rule get_bad)
    next
      case (2 k)
      then show ?thesis using get_take [of "length u" 4 ?j k "?c @ r"] u(1) by simp
    qed
    show ?thesis
    proof (cases "junk 11 < ?j")
      case alloc: True
      then show ?thesis using i True g by (simp add: get_upper_def rd_def)
    next
      case False
      then show ?thesis
        using i True g lost_short [OF cr(2)] by (cases "?j = 0") (auto simp: get_upper_def rd_def get_arr_bad intro: exI [of _ False])
    qed
  next
    case False
    then have m: "m \<le> length (?c @ r)" using l by simp
    let ?s1 = "(take (length (?c @ r) - m) (?c @ r), True)"
    have g: "get 4 ?j s = (length u, ?s1)"
      unfolding lost_good [OF c(1) [unfolded b] m] by (rule get_le) (use u(1) in simp)
    have c1: "lost m (?c @ r) ?s1" using m by (simp only: lost_def if_True)
    show ?thesis
    proof (cases "u = []")
      case True
      then show ?thesis using False i g c1 by (auto simp: get_upper_def rd_def intro: exI [of _ True])
    next
      case u0: False
      obtain v' s' where "get_arr 4 un_le (length u) (resize (length u) (upper ! i)) ?s1 = Some (v', s')" "lost m r s'"
        by (rule c_u32.get_arr_lost [OF u(2) _ _ _ c1 c(2), of "resize (length u) (upper ! i)" "length u"]) (use u(1) in auto)
      then show ?thesis using False i g u0 by (cases s') (simp add: get_upper_def rd_def)
    qed
  qed
qed

text \<open>The number of bytes behind the last length.\<close>

definition last_list :: "nat list list \<Rightarrow> nat" where
  "last_list us = (if us = [] then 0 else length (last us) * 4)"

lemma last_list_le: "\<forall>u \<in> set us. length u < 2 ^ 32 \<Longrightarrow> last_list us \<le> length (concat (map upper_bytes us))"
  by (cases us rule: rev_cases) (auto simp: last_list_def upper_bytes_small c_u32.length_concat_enc)

lemma foldM_get_upper_Inl: "foldM (get_upper junk) (Inl e) is = Some (Inl e)"
  by (induction "is") (simp_all add: get_upper_def)

lemma get_upper_loop_lost:
  assumes "\<forall>u \<in> set us. length u < 2 ^ 32 \<and> (\<forall>x \<in> set u. x < 2 ^ 32)" "i + length us \<le> length upper"
    and "lost m (concat (map upper_bytes us)) s" "0 < m"
  shows "\<exists>st. foldM (get_upper junk) (Inr (upper, s)) [i..<i + length us] = Some st \<and>
    (st = Inl Bad_alloc \<or> (\<exists>up bs. st = Inr (up, (bs, False)))) \<and> (m \<le> last_list us \<longrightarrow> \<not> isl st) \<and>
    (last_list us < m \<and> us \<noteq> [] \<and> (\<forall>j. junk 11 < junk (12 + j) mod 2 ^ 32) \<longrightarrow> isl st)"
  using assms(1-3)
proof (induction us arbitrary: i upper s)
  case Nil
  then have "\<not> snd s" using lost_failed [OF assms(4)] by simp
  then obtain bs where "s = (bs, False)" by (cases s) simp
  then show ?case by simp
next
  case (Cons u us)
  let ?r = "concat (map upper_bytes us)"
  have ll: "last_list us \<le> length ?r" using last_list_le [of us] Cons.prems(1) by simp
  have i: "i < length upper" using Cons.prems(2) by simp
  have upt: "[i..<i + length (u # us)] = i # [Suc i..<Suc i + length us]" by (simp add: upt_conv_Cons del: upt_Suc)
  obtain st where st: "get_upper junk (Inr (upper, s)) i = Some st"
    "if length u * 4 + length ?r < m \<and> junk 11 < junk (12 + i) mod 2 ^ 32 then st = Inl Bad_alloc
     else \<exists>upper' s'. st = Inr (upper', s') \<and> length upper' = length upper \<and> lost m ?r s'"
    using get_upper_lost [OF i _ _ _ assms(4), of u ?r s junk] Cons.prems(1,3) by auto
  have last: "last_list (u # us) = (if us = [] then length u * 4 else last_list us)" by (simp add: last_list_def)
  show ?case
  proof (cases "length u * 4 + length ?r < m \<and> junk 11 < junk (12 + i) mod 2 ^ 32")
    case True
    then have "st = Inl Bad_alloc" using st(2) by simp
    moreover have "last_list (u # us) < m" using True ll by (simp add: last split: if_splits)
    ultimately show ?thesis using st(1) unfolding upt by (simp add: foldM_get_upper_Inl)
  next
    case False
    then obtain upper' s' where n: "st = Inr (upper', s')" "length upper' = length upper" "lost m ?r s'" using st(2) by auto
    obtain st' where s': "foldM (get_upper junk) (Inr (upper', s')) [Suc i..<Suc i + length us] = Some st'"
      "st' = Inl Bad_alloc \<or> (\<exists>up bs. st' = Inr (up, (bs, False)))" "m \<le> last_list us \<longrightarrow> \<not> isl st'"
      "last_list us < m \<and> us \<noteq> [] \<and> (\<forall>j. junk 11 < junk (12 + j) mod 2 ^ 32) \<longrightarrow> isl st'"
      using Cons.IH [of "Suc i" upper' s'] Cons.prems(1,2) n(2,3) by auto
    have "us = [] \<Longrightarrow> \<not> isl st'" using s'(1) by auto
    then show ?thesis using s' st(1) n(1) False last ll unfolding upt by auto
  qed
qed

text \<open>The body of a file without its last \<open>m\<close> bytes: what the loop over the lists sees, and what becomes of it.\<close>

lemma load_body_lost:
  assumes sh: "shape ix" and t: "typed ix"
    and ix0: "length (ix_data ix0) = ix_maxElements ix * ix_dim ix" "length (ix_levels ix0) = ix_maxElements ix"
      "length (ix_labels ix0) = ix_maxElements ix" "length (ix_deleted ix0) = ix_maxElements ix"
      "length (ix_linksL0 ix0) = ix_maxElements ix * ix_strideL0 ix" "length (ix_linksUpper ix0) = ix_maxElements ix"
      "ix_strideL0 ix0 = ix_strideL0 ix"
    and bs: "snapshot_bytes ix = Some (header_bytes ix @ bs)" and c: "lost m bs s" "0 < m"
  defines "us \<equiv> take (ix_count ix) (ix_linksUpper ix)"
  shows "\<exists>e. load_body junk path (header_of ix) ix0 s = Some (Inl e) \<and>
    (e = Bad_alloc \<or> e = Runtime_error (''truncated index file '' @ path)) \<and> (m \<le> last_list us \<longrightarrow> e \<noteq> Bad_alloc) \<and>
    (last_list us < m \<and> us \<noteq> [] \<and> (\<forall>j. junk 11 < junk (12 + j) mod 2 ^ 32) \<longrightarrow> e = Bad_alloc)"
proof -
  let ?c = "ix_count ix" and ?n = "ix_maxElements ix" and ?d = "ix_dim ix" and ?s = "ix_strideL0 ix"
  note z = shapeD [OF sh] and cd = used_bounds(1,2) [OF sh t] and big = used_bounds(3-5) [OF sh t]
  define b1 where "b1 = concat (map upper_bytes us)"
  define b2 where "b2 = concat (map (le 4) (take (?c * ?s) (ix_linksL0 ix))) @ b1"
  define b3 where "b3 = concat (map (\<lambda>b. [b]) (take ?c (ix_deleted ix))) @ b2"
  define b4 where "b4 = concat (map enc_label (take ?c (ix_labels ix))) @ b3"
  define b5 where "b5 = concat (map enc_i32 (take ?c (ix_levels ix))) @ b4"
  have c0: "lost m (concat (map enc_f32 (take (?c * ?d) (ix_data ix))) @ b5) s"
    using c bs snapshot_bytes_Some [OF sh] by (simp add: b1_def b2_def b3_def b4_def b5_def us_def)
  obtain data s1 where 1: "get_arr 4 dec_f32 (?c * ?d) (ix_data ix0) s = Some (data, s1)" and c1: "lost m b5 s1"
    by (rule c_f32.get_arr_lost [OF _ _ _ _ c0 c(2), of "ix_data ix0" "?c * ?d"]) (use cd(1) big(1) z(1) ix0(1) in auto)
  obtain levels s2 where 2: "get_arr 4 dec_i32 ?c (ix_levels ix0) s1 = Some (levels, s2)" and c2: "lost m b4 s2"
    by (rule c_i32.get_arr_lost [OF _ _ _ _ c1 [unfolded b5_def] c(2), of "ix_levels ix0" ?c])
      (use t big(2) z(2,7) ix0(2) in \<open>auto simp: typed_def dest: in_set_takeD\<close>)
  obtain labels s3 where 3: "get_arr 16 dec_label ?c (ix_labels ix0) s2 = Some (labels, s3)" and c3: "lost m b3 s3"
    by (rule c_label.get_arr_lost [OF _ _ _ _ c2 [unfolded b4_def] c(2), of "ix_labels ix0" ?c]) (use big(2) z(3,7) ix0(3) in auto)
  obtain del s4 where 4: "get_arr 1 hd ?c (ix_deleted ix0) s3 = Some (del, s4)" and c4: "lost m b2 s4"
    by (rule c_u8.get_arr_lost [OF _ _ _ _ c3 [unfolded b3_def] c(2), of "ix_deleted ix0" ?c]) (use big(2) z(4,7) ix0(4) in auto)
  obtain l0 s5 where 5: "get_arr 4 un_le (?c * ?s) (ix_linksL0 ix0) s4 = Some (l0, s5)" and c5: "lost m b1 s5"
    by (rule c_u32.get_arr_lost [OF _ _ _ _ c4 [unfolded b2_def] c(2), of "ix_linksL0 ix0" "?c * ?s"])
      (use typed_words(1) [OF t] cd(2) big(3) z(5) ix0(5) in \<open>auto dest: in_set_takeD\<close>)
  have us: "\<forall>u \<in> set us. length u < 2 ^ 32 \<and> (\<forall>x \<in> set u. x < 2 ^ 32)" "length us = ?c" "0 + length us \<le> length (ix_linksUpper ix0)"
    using typed_words(2) [OF t] z(6,7) ix0(6) by (auto simp: us_def dest: in_set_takeD)
  obtain st where 6: "foldM (get_upper junk) (Inr (ix_linksUpper ix0, s5)) [0..<?c] = Some st"
    and st: "st = Inl Bad_alloc \<or> (\<exists>up bs. st = Inr (up, (bs, False)))" "m \<le> last_list us \<longrightarrow> \<not> isl st"
      "last_list us < m \<and> us \<noteq> [] \<and> (\<forall>j. junk 11 < junk (12 + j) mod 2 ^ 32) \<longrightarrow> isl st"
    using get_upper_loop_lost [OF us(1,3) c5 [unfolded b1_def] c(2), of junk] unfolding us(2) by auto
  have l: "load_body junk path (header_of ix) ix0 s =
      Some (Inl (case st of Inl e \<Rightarrow> e | Inr _ \<Rightarrow> Runtime_error (''truncated index file '' @ path)))"
    using st(1) by (auto simp: load_body_def header_of_def Let_def 1 2 3 4 [simplified] 5 6 ix0(7))
  show ?thesis using st unfolding l by (cases st) auto
qed

lemma length_header [simp]: "length (header_bytes ix) = 68"
  by (simp add: header_bytes_def enc_i32_def)

text \<open>A snapshot without its last bytes, cut behind the header: the errors, and which of the two it is.\<close>

lemma load_cut:
  assumes w: "wf_ix ix" and t: "typed ix" and bs: "snapshot_bytes ix = Some bs" and k: "68 \<le> k" "k < length bs"
  defines "us \<equiv> take (ix_count ix) (ix_linksUpper ix)"
  shows "\<exists>e. load avx junk path (Some (take k bs)) = Some (Inl e) \<and>
    (e = Bad_alloc \<or> e = Runtime_error (''truncated index file '' @ path)) \<and>
    (length bs \<le> k + last_list us \<longrightarrow> e \<noteq> Bad_alloc) \<and>
    (k + last_list us < length bs \<and> (\<forall>j. junk 11 < junk (12 + j) mod 2 ^ 32) \<longrightarrow> e = Bad_alloc)"
proof -
  have sh: "shape ix" using w by (simp add: wf_ix_def)
  obtain r where r: "bs = header_bytes ix @ r" using bs snapshot_bytes_Some [OF sh] by (metis option.inject)
  have m: "0 < length bs - k" "length bs - k \<le> length r" using k by (simp_all add: r)
  have "take k bs = header_bytes ix @ take (k - 68) r" using k(1) by (simp add: r)
  then have l: "load avx junk path (Some (take k bs)) = load_body junk path (header_of ix) (blank avx ix) (take (k - 68) r, True)"
    by (simp only: load_after_header_wf [OF w t])
  have "k - 68 = length r - (length bs - k)" using k by (simp add: r)
  then have lo: "lost (length bs - k) r (take (k - 68) r, True)" using m(2) by (simp only: lost_def if_True)
  have us: "us \<noteq> []"
  proof
    assume "us = []"
    then have c: "ix_count ix = 0" using shapeD(6,7) [OF sh] by (auto simp: us_def)
    have "bs = header_bytes ix" using bs snapshot_bytes_Some [OF sh] by (simp add: c)
    then show False using k by simp
  qed
  obtain e where e: "load_body junk path (header_of ix) (blank avx ix) (take (k - 68) r, True) = Some (Inl e)"
    "e = Bad_alloc \<or> e = Runtime_error (''truncated index file '' @ path)" "length bs - k \<le> last_list us \<longrightarrow> e \<noteq> Bad_alloc"
    "last_list us < length bs - k \<and> us \<noteq> [] \<and> (\<forall>j. junk 11 < junk (12 + j) mod 2 ^ 32) \<longrightarrow> e = Bad_alloc"
    using load_body_lost [OF sh t _ _ _ _ _ _ _ _ lo m(1), of "blank avx ix" junk path] bs r
    by (auto simp: blank_def us_def)
  then show ?thesis using l us k by (intro exI [of _ e]) auto
qed

lemma load_truncated:
  assumes "wf_ix ix" "typed ix" "snapshot_bytes ix = Some bs" "68 \<le> k" "k < length bs"
  obtains e where "load avx junk path (Some (take k bs)) = Some (Inl e)"
    "e = Bad_alloc \<or> e = Runtime_error (''truncated index file '' @ path)"
  using load_cut [OF assms, of avx junk path] by blast

section \<open>What the program can reach has its types\<close>

lemma Index_typed:
  assumes "Index avx sp dim n M efc = Inr ix" "wf_ix ix" "dim < 2 ^ 64" "efc < 2 ^ 64" "n * dim * 4 < 2 ^ 64"
  shows "typed ix"
proof -
  have f: "ix_dim ix = dim" "ix_maxElements ix = n" "ix_M ix = M" "ix_efConstruction ix = max efc M" "ix_maxLevel ix = 0"
    "ix_entryPoint ix = kNone" "set (ix_levels ix) \<subseteq> {0}" "set (ix_linksL0 ix) \<subseteq> {0}" "set (ix_linksUpper ix) \<subseteq> {[]}"
    using assms(1) unfolding Index_def Let_def by (auto split: if_splits)
  have "max efc M < 2 ^ 64" using assms(2,4) f(3) by (simp add: wf_ix_def shape_def)
  moreover have "links_fit ix" using f(8,9) by (auto simp: links_fit_def link_words_def)
  ultimately show ?thesis unfolding typed_def f(1,2,4-6) using assms(3,5) f(7,9) by (auto simp: in_i32_def kNone_def)
qed

lemma typed_add:
  assumes w: "wf_ix ix" "wf_ix ix'" and t: "typed ix" and c: "ix_count ix' = Suc (ix_count ix)" "config ix' = config ix"
    and l: "links_fit ix'" "ix_levels ix' = (ix_levels ix)[ix_count ix := level]" "0 \<le> level" "level \<le> 2 ^ 24"
  shows "typed ix'"
proof -
  note k = config_cong(1,2) [OF c(2)]
  have e: "ix_efConstruction ix' = ix_efConstruction ix" using c(2) by (simp add: config_def)
  have lv: "\<forall>x \<in> set (ix_levels ix'). in_i32 x"
    using t l by (auto simp: typed_def in_i32_def dest!: subsetD [OF set_update_subset_insert])
  have sh: "shape ix" "shape ix'" "unused_ok ix'" "entry_ok ix'" using w by (auto simp: wf_ix_def)
  have cl: "ix_count ix < ix_maxElements ix" using sh(2) c(1) k(2) by (simp add: shape_def)
  have "length (ix_linksUpper ix' ! j) < 2 ^ 32" if j: "j < ix_maxElements ix" for j
  proof -
    consider "j < ix_count ix" | "j = ix_count ix" | "ix_count ix' \<le> j" using c(1) by linarith
    then show ?thesis
    proof cases
      case 1
      then have "lvl ix' j = lvl ix j" using l(2) by (simp add: lvl_def)
      then have "length (ix_linksUpper ix' ! j) = length (ix_linksUpper ix ! j)"
        using 1 sh(1,2) c by (auto simp: shape_def config_def)
      then show ?thesis using t sh(1) j by (simp add: typed_def shape_def)
    next
      case 2
      then have "lvl ix' j = level" using l(2) sh(1) cl by (simp add: lvl_def shape_def)
      then have "length (ix_linksUpper ix' ! j) = nat level * (ix_M ix' + 1)" using 2 sh(2) c(1) by (auto simp: shape_def)
      also have "\<dots> \<le> 2 ^ 24 * 129" using l(4) sh(2) by (intro mult_le_mono) (auto simp: shape_def)
      finally show ?thesis by simp
    next
      case 3
      then show ?thesis using sh(3) j k(2) by (simp add: unused_ok_def)
    qed
  qed
  moreover have "in_i32 (ix_maxLevel ix')" "ix_entryPoint ix' < 2 ^ 32"
  proof -
    have ep: "ix_entryPoint ix' < ix_count ix'" "lvl ix' (ix_entryPoint ix') = ix_maxLevel ix'"
      using sh(4) c(1) by (auto simp: entry_ok_def)
    moreover have "ix_entryPoint ix' < length (ix_levels ix')" using ep(1) shapeD(2,7) [OF sh(2)] by linarith
    ultimately show "in_i32 (ix_maxLevel ix')" using lv nth_mem by (fastforce simp: lvl_def)
    show "ix_entryPoint ix' < 2 ^ 32" using ep(1) sh(2) by (simp add: shape_def)
  qed
  ultimately show ?thesis using t k e lv l(1) sh(2) by (auto simp: typed_def in_set_conv_nth shape_def)
qed

fun level_fits :: "index_op \<Rightarrow> bool" where
  "level_fits (Add v lab level) \<longleftrightarrow> level \<le> 2 ^ 24"
| "level_fits opn \<longleftrightarrow> True"

lemma typed_cong:
  assumes "typed ix"
  shows "typed (ix\<lparr>ix_visitedPool := p\<rparr>)" "typed (ix\<lparr>ix_deleted := d, ix_numDeleted := n\<rparr>)"
  using assms by (simp_all add: typed_def links_fit_def link_words_def)

lemma step_typed:
  assumes w: "wf_ix ix" and t: "typed ix" and v: "valid_op (ix_dim ix) opn" "level_fits opn"
    and s: "step_op ix opn = Some (o1, ix')"
  shows "typed ix'"
proof (cases opn)
  case (Add v lab level)
  have none: "ix_labelToId ix lab = None" if "abs_ix ix lab = None" using that by (simp add: abs_ix_def)
  consider (err) "abs_ix ix lab \<noteq> None \<or> ix_count ix = ix_maxElements ix"
    | (ok) "abs_ix ix lab = None" "ix_count ix < ix_maxElements ix"
    using count_capacity [OF w] by linarith
  then show ?thesis
  proof cases
    case err
    then have "ix' = ix" using s Add addPoint_duplicate [of ix lab v level] addPoint_full [OF w, of lab v level]
      by (cases "abs_ix ix lab") (auto simp: step_op_def)
    then show ?thesis using t by simp
  next
    case ok
    have d: "ix_dim ix \<le> length v" "0 \<le> level" "level \<le> 2 ^ 24" using assms(3,4) Add by simp_all
    from addPoint_ok [OF w none [OF ok(1)] ok(2) d(1,2)] s t
    have "wf_ix ix'" "ix_count ix' = Suc (ix_count ix)" "config ix' = config ix" "links_fit ix'"
      "ix_levels ix' = (ix_levels ix)[ix_count ix := level]"
      by (auto simp: step_op_def Add typed_def)
    from typed_add [OF w this(1) t this(2-5) d(2,3)] show ?thesis .
  qed
next
  case (Mark lab)
  then show ?thesis using s t typed_cong [OF t]
    by (auto simp: step_op_def markDeleted_def split: option.splits if_splits)
next
  case (Unmark lab)
  then show ?thesis using s t typed_cong [OF t]
    by (auto simp: step_op_def unmarkDeleted_def split: option.splits if_splits)
next
  case (Search q k ef)
  then show ?thesis using s t typed_cong [OF t] search_spec [OF w, of q k ef] v
    by (auto simp: step_op_def)
qed

lemma run_typed:
  assumes "wf_ix ix" "typed ix" "\<forall>opn \<in> set ops. valid_op (ix_dim ix) opn \<and> level_fits opn"
    "run ix ops = Some (os, ix')"
  shows "typed ix'"
  using assms
proof (induction ops arbitrary: ix os)
  case (Cons opn ops)
  then obtain o1 ix1 where s: "step_op ix opn = Some (o1, ix1)" "wf_ix ix1" "config ix1 = config ix"
    using sim_step [of ix opn] by (auto simp: sim_def)
  then obtain os1 where "run ix1 ops = Some (os1, ix')" using Cons.prems(4) by auto
  moreover have "typed ix1" using step_typed [OF Cons.prems(1,2) _ _ s(1)] Cons.prems(3) by simp
  ultimately show ?case using Cons.IH [OF s(2)] Cons.prems(3) config_cong(1) [OF s(3)] by simp
qed simp

section \<open>Properties\<close>

lemma avx_views:
  "vec (ix\<lparr>ix_avx := a\<rparr>) = vec ix" "lvl (ix\<lparr>ix_avx := a\<rparr>) = lvl ix" "blk (ix\<lparr>ix_avx := a\<rparr>) = blk ix"
  "adj (ix\<lparr>ix_avx := a\<rparr>) = adj ix" "node (ix\<lparr>ix_avx := a\<rparr>) = node ix" "maxDegree (ix\<lparr>ix_avx := a\<rparr>) = maxDegree ix"
  "is_del (ix\<lparr>ix_avx := a\<rparr>) = is_del ix" "links_ok (ix\<lparr>ix_avx := a\<rparr>) = links_ok ix"
  by (simp_all add: fun_eq_iff vec_def lvl_def blk_def adj_def node_def maxDegree_def is_del_def links_ok_def)

lemma reloaded_views: "abs_ix (reloaded avx ix) = abs_ix ix" "adj (reloaded avx ix) = adj ix"
  by (simp_all add: reloaded_def avx_views fun_eq_iff abs_ix_def)

lemma wf_avx: "wf_ix (ix\<lparr>ix_avx := a\<rparr>) = wf_ix ix"
proof -
  let ?ix = "ix\<lparr>ix_avx := a\<rparr>"
  have "shape ?ix = shape ix" by (simp add: shape_def avx_views)
  moreover have "graph_ok ?ix = graph_ok ix" "entry_ok ?ix = entry_ok ix" by (simp_all add: graph_ok_def entry_ok_def avx_views)
  moreover have "labels_ok ?ix = labels_ok ix" "deleted_ok ?ix = deleted_ok ix" "unused_ok ?ix = unused_ok ix"
    by (simp_all add: labels_ok_def deleted_ok_def unused_ok_def avx_views)
  ultimately show ?thesis by (simp add: wf_ix_def)
qed

lemma wf_reloaded:
  assumes "wf_ix ix" shows "wf_ix (reloaded avx ix)"
proof -
  have "wf_ix (ix\<lparr>ix_visitedPool := VisitedListPool 1 (ix_maxElements ix)\<rparr>)"
    by (rule wf_pool [OF assms pool_ok_new]) (simp add: VisitedListPool_def)
  then show ?thesis using wf_avx by (simp add: reloaded_def)
qed

lemma ex_two_run: "run ex_empty [Add [1] (Label 1 7) 0, Add [1 + 1] (Label 1 8) 0] = Some ([Added (Inr 0), Added (Inr 1)], ex_two)"
proof -
  obtain ix' where "addPoint ex_empty [1] (Label 1 7) 0 = Some (Inr 0, ix')"
    using addPoint_ok [of ex_empty "Label 1 7" "[1]" 0] ex_empty_wf by auto
  then have 1: "addPoint ex_empty [1] (Label 1 7) 0 = Some (Inr 0, ex_one)" by (simp add: ex_one_def)
  obtain ix'' where "addPoint ex_one [1 + 1] (Label 1 8) 0 = Some (Inr 1, ix'')"
    using addPoint_ok [of ex_one "Label 1 8" "[1 + 1]" 0] ex_one_wf ex_one_fresh by auto
  then have "addPoint ex_one [1 + 1] (Label 1 8) 0 = Some (Inr 1, ex_two)" by (simp add: ex_two_def)
  with 1 show ?thesis by (simp add: step_op_def)
qed

lemma ex_empty_Index: "Index False L2 1 3 2 2 = Inr ex_empty"
  using Index_Inr [of 1 3 2 False L2 2] by (auto simp: ex_empty_def)

lemma ex_two_typed: "typed ex_two"
proof -
  have "typed ex_empty" by (rule Index_typed [OF ex_empty_Index ex_empty_wf(1)]) simp_all
  then show ?thesis using run_typed [OF ex_empty_wf(1) _ _ ex_two_run] ex_empty_wf(3) by simp
qed

lemma snapshot_bytes_wf: "wf_ix ix \<Longrightarrow> \<exists>bs. snapshot_bytes ix = Some bs"
  using snapshot_bytes_Some by (auto simp: wf_ix_def)

lemma ex_two_bytes: obtains bs where "snapshot_bytes ex_two = Some bs" "68 < length bs"
proof -
  obtain bs where bs: "snapshot_bytes ex_two = Some bs" using snapshot_bytes_wf [OF ex_two_wf(1)] by blast
  moreover have "68 < length bs"
    using snapshot_bytes_Some [of ex_two] bs ex_two_wf c_f32.length_concat_enc shapeD(1) [of ex_two]
    by (auto simp: wf_ix_def)
  ultimately show ?thesis by (rule that)
qed

lemma run_from_fresh:
  assumes "Index avx sp dim n M efc = Inr ix0" "n < 2 ^ 32" "n * dim * 4 < 2 ^ 64" "M < 2 ^ 63" "dim < 2 ^ 64" "efc < 2 ^ 64"
    and "\<forall>opn \<in> set ops. valid_op dim opn \<and> level_fits opn"
  obtains os ix where "run ix0 ops = Some (os, ix)" "wf_ix ix" "typed ix" "config ix = config ix0"
proof -
  have "n * dim < 2 ^ 64" using assms(3) by linarith
  note w = Index_wf [OF assms(1,2) this assms(4)]
  note t = Index_typed [OF assms(1) w(1) assms(5,6,3)]
  obtain os ix where r: "run ix0 ops = Some (os, ix)" "wf_ix ix" "config ix = config ix0"
    using sim_run [OF w(1), of ops] assms(7) w(2) by auto
  then show thesis using that run_typed [OF w(1) t _ r(1)] assms(7) w(2) by simp
qed

text \<open>
  C28: Every field keeps to its C++ type. Whatever sequence of operations led to an index, its counters, levels, entry
  point, adjacency words and block sizes fit the widths the class gives them, so that the natural numbers
  of the model are the machine's; no more elements are counted than there is room for, and no more tombstones than elements.
\<close>

theorem fields_fit:
  assumes "Index avx sp dim n M efc = Inr ix0" "n < 2 ^ 32" "n * dim * 4 < 2 ^ 64" "M < 2 ^ 63" "dim < 2 ^ 64" "efc < 2 ^ 64"
    and "\<forall>opn \<in> set ops. valid_op dim opn \<and> level_fits opn"
  shows "\<exists>os ix. run ix0 ops = Some (os, ix) \<and> typed ix \<and> ix_numDeleted ix \<le> ix_count ix \<and> ix_count ix \<le> ix_maxElements ix \<and>
    ix_maxElements ix < 2 ^ 32"
proof -
  obtain os ix where r: "run ix0 ops = Some (os, ix)" "wf_ix ix" "typed ix" by (rule run_from_fresh [OF assms])
  then show ?thesis using numDeleted_bound [OF r(2)] by (auto simp: wf_ix_def shape_def)
qed

theorem fields_fit_witness:
  "\<exists>os ix. run ex_empty [Add [1] (Label 1 7) 0, Mark (Label 1 7)] = Some (os, ix) \<and> typed ix \<and> ix_numDeleted ix \<le> ix_count ix"
  using fields_fit [OF ex_empty_Index, of "[Add [1] (Label 1 7) 0, Mark (Label 1 7)]"] by auto

text \<open>
  C5: Round trip. Whatever sequence of operations led to an index, if the device takes the whole file then
  \<open>save\<close> succeeds and \<open>load\<close> of what it wrote gives the index back: every field but the pool of
  visited lists, hence the class invariant, the stored vectors, tombstones and labels, and the graph in
  every layer.
\<close>

theorem save_load_roundtrip:
  assumes "Index avx sp dim n M efc = Inr ix0" "n < 2 ^ 32" "n * dim * 4 < 2 ^ 64" "M < 2 ^ 63" "dim < 2 ^ 64" "efc < 2 ^ 64"
    and "\<forall>opn \<in> set ops. valid_op dim opn \<and> level_fits opn"
  shows "\<exists>os ix bs. run ix0 ops = Some (os, ix) \<and> snapshot_bytes ix = Some bs \<and>
    (\<forall>dev. dev_opens dev \<and> length bs \<le> dev_room dev \<longrightarrow> save ix path dev = Some (Inr (), Some bs)) \<and>
    load avx' junk path (Some bs) = Some (Inr (reloaded avx' ix)) \<and>
    wf_ix (reloaded avx' ix) \<and> abs_ix (reloaded avx' ix) = abs_ix ix \<and> adj (reloaded avx' ix) = adj ix"
proof -
  obtain os ix where r: "run ix0 ops = Some (os, ix)" "wf_ix ix" "typed ix" by (rule run_from_fresh [OF assms])
  moreover obtain bs where "snapshot_bytes ix = Some bs" using snapshot_bytes_wf [OF r(2)] by blast
  ultimately show ?thesis
    using load_roundtrip [OF r(2)] wf_reloaded [OF r(2)] reloaded_views by (auto simp: save_def)
qed

theorem save_load_roundtrip_witness:
  "\<exists>os ix bs. run ex_empty [Add [1] (Label 1 7) 0, Mark (Label 1 7)] = Some (os, ix) \<and> snapshot_bytes ix = Some bs \<and>
    load True id ''f'' (Some bs) = Some (Inr (reloaded True ix)) \<and> wf_ix (reloaded True ix)"
  using save_load_roundtrip [OF ex_empty_Index, of "[Add [1] (Label 1 7) 0, Mark (Label 1 7)]" "''f''" True id] by auto



text \<open>
  The checks of \<open>load\<close> before it builds anything: a file that cannot be opened, one that does
  not start with the magic number, and one of another version each get their own error, which for a
  version names both versions.
\<close>

lemma load_checks_header:
  "load avx junk path None = Some (Inl (Runtime_error (''cannot open '' @ path @ '' for reading''))) \<and>
   (m < 2 ^ 32 \<and> m \<noteq> kMagic \<longrightarrow>
      load avx junk path (Some (le 4 m @ r)) = Some (Inl (Runtime_error ''not an hnsw index file''))) \<and>
   (v < 2 ^ 32 \<and> v \<noteq> kVersion \<longrightarrow>
      load avx junk path (Some (le 4 kMagic @ (le 4 v @ r))) = Some (Inl (version_error v)))"
proof (intro conjI impI)
  assume m: "m < 2 ^ 32 \<and> m \<noteq> kMagic"
  then have "get 4 j (le 4 m @ r, True) = (m, (r, True))" for j by (intro get_le) simp
  then show "load avx junk path (Some (le 4 m @ r)) = Some (Inl (Runtime_error ''not an hnsw index file''))"
    using m by (simp add: load_def split: prod.split)
next
  assume v: "v < 2 ^ 32 \<and> v \<noteq> kVersion"
  then have "get 4 j (le 4 v @ r, True) = (v, (r, True))" for j by (intro get_le) simp
  moreover have "get 4 j (le 4 kMagic @ (le 4 v @ r), True) = (kMagic, (le 4 v @ r, True))" for j
    by (rule get_le) (simp add: kMagic_def)
  ultimately show "load avx junk path (Some (le 4 kMagic @ (le 4 v @ r))) = Some (Inl (version_error v))"
    using v by (simp add: load_def split: prod.split)
qed (simp add: load_def)

lemma load_checks_header_witness:
  "load False id ''f'' (Some (le 4 kMagic @ (le 4 1 @ []))) = Some (Inl (version_error 1)) \<and>
   load False id ''f'' (Some (le 4 7 @ [])) = Some (Inl (Runtime_error ''not an hnsw index file''))"
  using load_checks_header [of False id "''f''" 7 "[]" 1] by (simp add: kMagic_def kVersion_def)

text \<open>
  What \<open>save\<close> reports. It tests the stream before the stream is flushed, so it reports a failed
  write exactly when the bytes that do not fit are more than those still buffered. If they are not, it
  returns normally although the end of the file is missing, and a later \<open>load\<close> rejects the file.
\<close>

lemma save_reports:
  assumes "wf_ix ix" "typed ix" "snapshot_bytes ix = Some bs" "dev_opens dev"
  shows "save ix path dev =
      Some (if length bs \<le> dev_room dev + dev_buffered dev then Inr () else Inl (Runtime_error (''write failed for '' @ path)),
            Some (take (dev_room dev) bs)) \<and>
    (68 \<le> dev_room dev \<and> dev_room dev < length bs \<and> length bs \<le> dev_room dev + dev_buffered dev \<longrightarrow>
      (\<exists>file e. save ix path dev = Some (Inr (), Some file) \<and> load avx junk path (Some file) = Some (Inl e)))"
proof -
  have "dev_room dev < length bs - dev_buffered dev \<longleftrightarrow> \<not> length bs \<le> dev_room dev + dev_buffered dev" by linarith
  then have "save ix path dev =
      Some (if length bs \<le> dev_room dev + dev_buffered dev then Inr () else Inl (Runtime_error (''write failed for '' @ path)),
            Some (take (dev_room dev) bs))"
    using assms(3,4) by (simp add: save_def)
  then show ?thesis using load_cut [OF assms(1-3), of "dev_room dev" avx junk path] by auto
qed

lemma save_reports_witness:
  "\<exists>buf file e. save ex_two ''f'' \<lparr>dev_opens = True, dev_room = 68, dev_buffered = buf\<rparr> = Some (Inr (), Some file) \<and>
     load False id ''f'' (Some file) = Some (Inl e)"
proof -
  obtain bs where bs: "snapshot_bytes ex_two = Some bs" "68 < length bs" by (rule ex_two_bytes)
  let ?dev = "\<lparr>dev_opens = True, dev_room = 68, dev_buffered = length bs\<rparr>"
  from save_reports [OF ex_two_wf(1) ex_two_typed bs(1), of ?dev "''f''" False id] bs(2) show ?thesis by auto
qed

text \<open>
  \<open>load\<close> does not compare the element count of the header with the capacity it allocates. A file
  whose header claims more elements than \<open>maxElements\<close>, and that has the bytes for them, makes it
  write behind the end of the vector array.
\<close>

lemma load_unchecked_count:
  assumes "wf_ix ix" "typed ix" "ix_maxElements ix < c" "c * ix_dim ix * 4 < 2 ^ 64" "c * ix_dim ix * 4 \<le> length r"
  shows "load avx junk path (Some (header_bytes (ix\<lparr>ix_count := c\<rparr>) @ r)) = None"
proof -
  have sh: "shape ix" and d: "0 < ix_dim ix" and nd: "ix_numDeleted ix < 2 ^ 64"
    using assms(1) numDeleted_bound [OF assms(1)] by (auto simp: wf_ix_def shape_def)
  have "c * 1 \<le> c * ix_dim ix" using d by (intro mult_le_mono2) simp
  then have "c < 2 ^ 64" using assms(4) by linarith
  note l = load_after_header [OF sh assms(2) nd this]
  have "ix_maxElements ix * ix_dim ix < c * ix_dim ix" using assms(3) d by simp
  then have "get_arr 4 dec_f32 (c * ix_dim ix) (ix_data (blank avx ix)) (r, True) = None"
    using assms(4,5) by (simp add: get_arr_def blank_def)
  then show ?thesis unfolding l load_body_def Let_def by (simp add: header_of_def)
qed

lemma load_unchecked_count_witness:
  "load False id ''f'' (Some (header_bytes (ex_two\<lparr>ix_count := 4\<rparr>) @ replicate 16 0)) = None"
  by (rule load_unchecked_count [OF ex_two_wf(1) ex_two_typed]) (simp_all add: ex_two_wf)

text \<open>
  A file that ends inside the header is not recognised as such: the remaining header fields keep whatever
  their variables held, and the index is built from them before the stream is tested.
\<close>

lemma load_short_header:
  "load False (\<lambda>i. if i = 7 then 2 else 1) ''f'' (Some (le 4 kMagic @ le 4 kVersion)) = None"
  by code_simp

end
