(* ===== verification/Hnsw_C.thy ===== *)
theory Hnsw_C
  imports Hnsw_Snapshot
begin

text \<open>
  The C interface, \<open>include/hnsw_c.h\<close> and \<open>src/hnsw_c.cpp\<close>. A process is the heap of
  live indexes, the text of the last error of the calling thread, and the files. A handle is an address,
  0 the null pointer; \<open>new\<close> returns an address that was never used before. Following a handle that is
  not live is undefined behaviour (\<open>None\<close>), as is a write behind the end of a caller's buffer.

  Every exception that the operations of the index throw is one of the \<open>std::exception\<close>s of
  \<open>exn\<close>, so the \<open>catch (...)\<close> branches have no counterpart. The level that
  \<open>addPoint\<close> draws is an argument of \<open>hnsw_add\<close>, and \<open>hnsw_new\<close> therefore has no seed.

  The results: the return codes tell exactly what happened to the store, a query writes its answers and nothing
  else, a saved index can be loaded back. That no valid sequence of calls is undefined is shown in theory
  \<open>Api_Process\<close>.
\<close>

section \<open>Codes and state\<close>

definition HNSW_OK :: int where "HNSW_OK = 0"
definition HNSW_ERR_GENERIC :: int where "HNSW_ERR_GENERIC = -1"
definition HNSW_ERR_NULL :: int where "HNSW_ERR_NULL = -2"
definition HNSW_ERR_FULL :: int where "HNSW_ERR_FULL = -3"
definition HNSW_ERR_NOT_FOUND :: int where "HNSW_ERR_NOT_FOUND = -4"
definition HNSW_ERR_DUPLICATE :: int where "HNSW_ERR_DUPLICATE = -5"
definition HNSW_SPACE_COSINE :: int where "HNSW_SPACE_COSINE = 0"
definition HNSW_SPACE_L2 :: int where "HNSW_SPACE_L2 = 1"

lemmas codes = HNSW_OK_def HNSW_ERR_GENERIC_def HNSW_ERR_NULL_def HNSW_ERR_FULL_def HNSW_ERR_NOT_FOUND_def
  HNSW_ERR_DUPLICATE_def

record c_state =
  cs_objs :: "nat \<Rightarrow> index option"
  cs_next :: nat
  cs_lastError :: string
  cs_files :: "string \<Rightarrow> byte list option"

definition c_init :: c_state where
  "c_init = \<lparr>cs_objs = Map.empty, cs_next = 1, cs_lastError = [], cs_files = Map.empty\<rparr>"

definition setError :: "string \<Rightarrow> c_state \<Rightarrow> c_state" where
  "setError msg s = s\<lparr>cs_lastError := msg\<rparr>"

definition cast :: "c_state \<Rightarrow> nat \<Rightarrow> index option" where
  "cast s p = cs_objs s p"

fun what :: "exn \<Rightarrow> string" where
  "what (Invalid_argument msg) = msg"
| "what (Runtime_error msg) = msg"
| "what Bad_alloc = ''std::bad_alloc''"

text \<open>\<open>msg.find(sub) != npos\<close>.\<close>

fun contains :: "string \<Rightarrow> string \<Rightarrow> bool" where
  "contains sub [] \<longleftrightarrow> sub = []"
| "contains sub (c # cs) \<longleftrightarrow> take (length sub) (c # cs) = sub \<or> contains sub cs"

text \<open>A method call through a handle, and a new object.\<close>

definition call_on :: "c_state \<Rightarrow> nat \<Rightarrow> (index \<Rightarrow> ('r \<times> index) option) \<Rightarrow> ('r \<times> c_state) option" where
  "call_on s idx f =
     (case cast s idx of None \<Rightarrow> None
      | Some ix \<Rightarrow> map_option (map_prod id (\<lambda>ix'. s\<lparr>cs_objs := (cs_objs s)(idx \<mapsto> ix')\<rparr>)) (f ix))"

definition alloc :: "c_state \<Rightarrow> index \<Rightarrow> nat \<times> c_state" where
  "alloc s ix = (cs_next s, s\<lparr>cs_objs := (cs_objs s)(cs_next s \<mapsto> ix), cs_next := cs_next s + 1\<rparr>)"

section \<open>The functions of the interface\<close>

definition hnsw_new :: "bool \<Rightarrow> c_state \<Rightarrow> int \<Rightarrow> nat \<Rightarrow> nat \<Rightarrow> nat \<Rightarrow> nat \<Rightarrow> nat \<times> c_state" where
  "hnsw_new avx s space dim max_elements M ef_construction =
     (case Index avx (if space = HNSW_SPACE_L2 then L2 else Cosine) dim max_elements M ef_construction of
        Inr ix \<Rightarrow> alloc s ix
      | Inl e \<Rightarrow> (0, setError (what e) s))"

definition hnsw_free :: "c_state \<Rightarrow> nat \<Rightarrow> c_state option" where
  "hnsw_free s idx =
     (if idx = 0 then Some s
      else case cast s idx of None \<Rightarrow> None | Some _ \<Rightarrow> Some (s\<lparr>cs_objs := (cs_objs s)(idx := None)\<rparr>))"

definition hnsw_add :: "c_state \<Rightarrow> nat \<Rightarrow> f32 list option \<Rightarrow> 64 word \<Rightarrow> 64 word \<Rightarrow> int \<Rightarrow> (int \<times> c_state) option" where
  "hnsw_add s idx v client_id lab level =
     (if idx = 0 \<or> v = None then Some (HNSW_ERR_NULL, setError ''null argument'' s)
      else case call_on s idx (\<lambda>ix. addPoint ix (the v) (Label client_id lab) level) of None \<Rightarrow> None
        | Some (Inr _, s') \<Rightarrow> Some (HNSW_OK, s')
        | Some (Inl e, s') \<Rightarrow>
            Some (if contains ''full'' (what e) then HNSW_ERR_FULL
                  else if contains ''duplicate'' (what e) then HNSW_ERR_DUPLICATE
                  else HNSW_ERR_GENERIC, setError (what e) s'))"

record c_out =
  out_client_ids :: "64 word list"
  out_labels :: "64 word list"
  out_distances :: "f32 list"

definition put_result :: "search_result list \<Rightarrow> c_out \<Rightarrow> nat \<Rightarrow> c_out option" where
  "put_result res out i =
     (case (wr (out_client_ids out) i (clientId (sr_label (res ! i))), wr (out_labels out) i (label_no (sr_label (res ! i))),
            wr (out_distances out) i (sr_distance (res ! i))) of
        (Some cs, Some ls, Some ds) \<Rightarrow> Some \<lparr>out_client_ids = cs, out_labels = ls, out_distances = ds\<rparr>
      | _ \<Rightarrow> None)"

definition hnsw_search :: "c_state \<Rightarrow> nat \<Rightarrow> f32 list option \<Rightarrow> nat \<Rightarrow> nat \<Rightarrow> 64 word list option \<Rightarrow> 64 word list option \<Rightarrow>
    f32 list option \<Rightarrow> (int \<times> c_out option \<times> c_state) option" where
  "hnsw_search s idx query k ef client_ids labels distances =
     (if idx = 0 \<or> query = None \<or> client_ids = None \<or> labels = None \<or> distances = None
      then Some (HNSW_ERR_NULL, None, setError ''null argument'' s)
      else case call_on s idx (\<lambda>ix. search ix (the query) k ef) of None \<Rightarrow> None
        | Some (res, s') \<Rightarrow>
            (case foldM (put_result res)
                    \<lparr>out_client_ids = the client_ids, out_labels = the labels, out_distances = the distances\<rparr>
                    [0..<length res] of None \<Rightarrow> None
             | Some out \<Rightarrow> Some (to_i32 (length res mod 2 ^ 32), Some out, s')))"

definition hnsw_mark_deleted :: "c_state \<Rightarrow> nat \<Rightarrow> 64 word \<Rightarrow> 64 word \<Rightarrow> (int \<times> c_state) option" where
  "hnsw_mark_deleted s idx client_id lab =
     (if idx = 0 then Some (HNSW_ERR_NULL, setError ''null index'' s)
      else case call_on s idx (\<lambda>ix. markDeleted ix (Label client_id lab)) of None \<Rightarrow> None
        | Some (b, s') \<Rightarrow> Some (if b then (HNSW_OK, s')
            else (HNSW_ERR_NOT_FOUND, setError ''label not found or already deleted'' s')))"

definition hnsw_unmark_deleted :: "c_state \<Rightarrow> nat \<Rightarrow> 64 word \<Rightarrow> 64 word \<Rightarrow> (int \<times> c_state) option" where
  "hnsw_unmark_deleted s idx client_id lab =
     (if idx = 0 then Some (HNSW_ERR_NULL, setError ''null index'' s)
      else case call_on s idx (\<lambda>ix. unmarkDeleted ix (Label client_id lab)) of None \<Rightarrow> None
        | Some (b, s') \<Rightarrow> Some (if b then (HNSW_OK, s')
            else (HNSW_ERR_NOT_FOUND, setError ''label not found or not currently deleted'' s')))"

definition hnsw_size :: "c_state \<Rightarrow> nat \<Rightarrow> nat option" where
  "hnsw_size s idx = (if idx = 0 then Some 0 else map_option size_ix (cast s idx))"
definition hnsw_active_size :: "c_state \<Rightarrow> nat \<Rightarrow> nat option" where
  "hnsw_active_size s idx = (if idx = 0 then Some 0 else map_option activeSize (cast s idx))"
definition hnsw_dim :: "c_state \<Rightarrow> nat \<Rightarrow> nat option" where
  "hnsw_dim s idx = (if idx = 0 then Some 0 else map_option ix_dim (cast s idx))"
definition hnsw_capacity :: "c_state \<Rightarrow> nat \<Rightarrow> nat option" where
  "hnsw_capacity s idx = (if idx = 0 then Some 0 else map_option ix_maxElements (cast s idx))"
definition hnsw_memory_bytes :: "c_state \<Rightarrow> nat \<Rightarrow> nat option" where
  "hnsw_memory_bytes s idx = (if idx = 0 then Some 0 else map_option memoryBytes (cast s idx))"

definition hnsw_save :: "c_state \<Rightarrow> nat \<Rightarrow> string option \<Rightarrow> device \<Rightarrow> (int \<times> c_state) option" where
  "hnsw_save s idx path dev =
     (if idx = 0 \<or> path = None then Some (HNSW_ERR_NULL, setError ''null argument'' s)
      else case cast s idx of None \<Rightarrow> None
        | Some ix \<Rightarrow> (case save ix (the path) dev of None \<Rightarrow> None
          | Some (r, file) \<Rightarrow>
              (let s' = (case file of None \<Rightarrow> s | Some bs \<Rightarrow> s\<lparr>cs_files := (cs_files s)(the path \<mapsto> bs)\<rparr>)
               in Some (case r of Inr _ \<Rightarrow> (HNSW_OK, s') | Inl e \<Rightarrow> (HNSW_ERR_GENERIC, setError (what e) s')))))"

definition hnsw_load :: "bool \<Rightarrow> (nat \<Rightarrow> nat) \<Rightarrow> c_state \<Rightarrow> string option \<Rightarrow> (nat \<times> c_state) option" where
  "hnsw_load avx junk s path =
     (case path of None \<Rightarrow> Some (0, setError ''null path'' s)
      | Some p \<Rightarrow> (case load avx junk p (cs_files s p) of None \<Rightarrow> None
        | Some (Inr ix) \<Rightarrow> Some (alloc s ix)
        | Some (Inl e) \<Rightarrow> Some (0, setError (what e) s)))"

definition hnsw_last_error :: "c_state \<Rightarrow> string" where
  "hnsw_last_error s = (if cs_lastError s = [] then [] else cs_lastError s)"

section \<open>The invariant of a process\<close>

definition obj_ok :: "index \<Rightarrow> bool" where
  "obj_ok ix \<longleftrightarrow> wf_ix ix \<and> typed ix"

definition c_inv :: "c_state \<Rightarrow> bool" where
  "c_inv s \<longleftrightarrow> (\<forall>h ix. cs_objs s h = Some ix \<longrightarrow> 0 < h \<and> h < cs_next s \<and> obj_ok ix) \<and> 0 < cs_next s"

lemma c_inv_init: "c_inv c_init"
  by (simp add: c_inv_def c_init_def)

lemma c_inv_setError [simp]: "c_inv (setError msg s) = c_inv s"
  by (simp add: c_inv_def setError_def)

lemma setError_fields [simp]:
  "cs_objs (setError msg s) = cs_objs s" "cs_next (setError msg s) = cs_next s" "cs_files (setError msg s) = cs_files s"
  "cs_lastError (setError msg s) = msg"
  by (simp_all add: setError_def)

lemma c_inv_live: "c_inv s \<Longrightarrow> cs_objs s h = Some ix \<Longrightarrow> 0 < h \<and> h < cs_next s \<and> wf_ix ix \<and> typed ix"
  by (simp add: c_inv_def obj_ok_def)

lemma c_inv_update: "c_inv s \<Longrightarrow> cs_objs s h = Some ix \<Longrightarrow> obj_ok ix' \<Longrightarrow> c_inv (s\<lparr>cs_objs := (cs_objs s)(h \<mapsto> ix')\<rparr>)"
  by (auto simp: c_inv_def)

lemma c_inv_alloc: "c_inv s \<Longrightarrow> obj_ok ix \<Longrightarrow> alloc s ix = (h, s') \<Longrightarrow> c_inv s' \<and> 0 < h \<and> cs_objs s h = None"
  by (cases "cs_objs s (cs_next s)") (auto simp: c_inv_def alloc_def less_Suc_eq split: if_splits)

text \<open>
  The interface between the wrappers and the index: a method that, called on a well-formed index where
  \<open>pre\<close> holds, returns and leaves it well-formed.
\<close>

locale index_method =
  fixes pre :: "index \<Rightarrow> bool" and f :: "index \<Rightarrow> ('r \<times> index) option"
  assumes keeps: "wf_ix ix \<Longrightarrow> typed ix \<Longrightarrow> pre ix \<Longrightarrow> \<exists>r ix'. f ix = Some (r, ix') \<and> wf_ix ix' \<and> typed ix' \<and> config ix' = config ix"
begin

lemma call_ok:
  assumes "c_inv s" "cs_objs s h = Some ix" "pre ix"
  obtains r ix' where "f ix = Some (r, ix')" "call_on s h f = Some (r, s\<lparr>cs_objs := (cs_objs s)(h \<mapsto> ix')\<rparr>)"
    "c_inv (s\<lparr>cs_objs := (cs_objs s)(h \<mapsto> ix')\<rparr>)" "config ix' = config ix"
proof -
  obtain r ix' where "f ix = Some (r, ix')" "wf_ix ix'" "typed ix'" "config ix' = config ix"
    using keeps c_inv_live [OF assms(1,2)] assms(3) by blast
  then show ?thesis
    using that assms(2) c_inv_update [OF assms(1,2), of ix'] by (simp add: call_on_def cast_def obj_ok_def)
qed

end

lemma op_keeps:
  assumes "wf_ix ix" "typed ix" "valid_op (ix_dim ix) opn" "level_fits opn"
  shows "\<exists>r ix'. step_op ix opn = Some (r, ix') \<and> wf_ix ix' \<and> typed ix' \<and> config ix' = config ix"
  using sim_step [OF assms(1,3)] step_typed [OF assms] by (auto simp: sim_def)

interpretation add_m: index_method "\<lambda>ix. ix_dim ix \<le> length v \<and> 0 \<le> level \<and> level \<le> 2 ^ 24" "\<lambda>ix. addPoint ix v lab level"
  for v lab level
  by unfold_locales (use op_keeps [of _ "Add v lab level"] in \<open>fastforce simp: step_op_def\<close>)

interpretation mark_m: index_method "\<lambda>_. True" "\<lambda>ix. markDeleted ix lab" for lab
  by unfold_locales (use op_keeps [of _ "Mark lab"] in \<open>fastforce simp: step_op_def\<close>)

interpretation unmark_m: index_method "\<lambda>_. True" "\<lambda>ix. unmarkDeleted ix lab" for lab
  by unfold_locales (use op_keeps [of _ "Unmark lab"] in \<open>fastforce simp: step_op_def\<close>)

interpretation search_m: index_method "\<lambda>ix. ix_dim ix \<le> length q" "\<lambda>ix. search ix q k ef" for q k ef
  by unfold_locales (use op_keeps [of _ "Search q k ef"] in \<open>fastforce simp: step_op_def\<close>)

section \<open>The output buffers\<close>

lemma wr_overlay:
  assumes "k < length ys" "length ys \<le> length xs"
  shows "wr (take k ys @ drop k xs) k (ys ! k) = Some (take (Suc k) ys @ drop (Suc k) xs)"
  using assms by (simp add: wr_def list_update_append take_Suc_conv_app_nth Cons_nth_drop_Suc [symmetric])

lemma put_results:
  assumes "length res \<le> length (out_client_ids out)" "length res \<le> length (out_labels out)" "length res \<le> length (out_distances out)"
  shows "foldM (put_result res) out [0..<length res] =
    Some \<lparr>out_client_ids = map (clientId \<circ> sr_label) res @ drop (length res) (out_client_ids out),
          out_labels = map (label_no \<circ> sr_label) res @ drop (length res) (out_labels out),
          out_distances = map sr_distance res @ drop (length res) (out_distances out)\<rparr>"
proof -
  define s where "s k = \<lparr>out_client_ids = take k (map (clientId \<circ> sr_label) res) @ drop k (out_client_ids out),
    out_labels = take k (map (label_no \<circ> sr_label) res) @ drop k (out_labels out),
    out_distances = take k (map sr_distance res) @ drop k (out_distances out)\<rparr>" for k
  have "foldM (put_result res) (s 0) [0..<length res] = Some (s (length res))"
  proof (rule foldM_upt)
    fix k assume k: "k < length res"
    show "put_result res (s k) k = Some (s (Suc k))"
      using wr_overlay [of k "map (clientId \<circ> sr_label) res" "out_client_ids out"]
        wr_overlay [of k "map (label_no \<circ> sr_label) res" "out_labels out"]
        wr_overlay [of k "map sr_distance res" "out_distances out"] k assms
      by (simp add: put_result_def s_def)
  qed
  moreover have "s 0 = out" by (simp add: s_def)
  ultimately have "foldM (put_result res) out [0..<length res] = Some (s (length res))" by (simp only:)
  then show ?thesis by (simp add: s_def)
qed

lemma c_inv_files [simp]: "c_inv (s\<lparr>cs_files := f\<rparr>) = c_inv s"
  by (simp add: c_inv_def)

section \<open>Properties\<close>

definition cs_store :: "c_state \<Rightarrow> nat \<Rightarrow> store" where
  "cs_store s h = (case cs_objs s h of None \<Rightarrow> Map.empty | Some ix \<Rightarrow> abs_ix ix)"

text \<open>
  The return code of \<open>hnsw_add\<close>, derived in the code from the text of the exception, tells what
  happened to the store: \<open>HNSW_ERR_DUPLICATE\<close> exactly if the label was there, \<open>HNSW_ERR_FULL\<close>
  exactly if it was not and the capacity was used up, and otherwise \<open>HNSW_OK\<close> with the vector added.
\<close>

lemma hnsw_add_codes:
  assumes "c_inv s" "cs_objs s h = Some ix" "ix_dim ix \<le> length v" "0 \<le> level" "level \<le> 2 ^ 24"
  shows "\<exists>code s'. hnsw_add s h (Some v) cid lab level = Some (code, s') \<and> c_inv s' \<and>
    (if cs_store s h (Label cid lab) \<noteq> None
     then code = HNSW_ERR_DUPLICATE \<and> cs_store s' h = cs_store s h \<and> hnsw_last_error s' = ''duplicate label; use updatePoint or a new label''
     else if card (dom (cs_store s h)) = the (hnsw_capacity s h)
     then code = HNSW_ERR_FULL \<and> cs_store s' h = cs_store s h \<and> hnsw_last_error s' = ''index is full: raise maxElements''
     else code = HNSW_OK \<and> cs_store s' h = (cs_store s h)(Label cid lab \<mapsto> (query_vec ix v, False)) \<and>
       hnsw_last_error s' = hnsw_last_error s)"
proof -
  have live: "0 < h" "wf_ix ix" using c_inv_live [OF assms(1,2)] by auto
  have none: "ix_labelToId ix (Label cid lab) = None" if "abs_ix ix (Label cid lab) = None" using that by (simp add: abs_ix_def)
  note a = addPoint_duplicate [of ix "Label cid lab" v level] addPoint_full [OF live(2), of "Label cid lab" v level]
    addPoint_ok [OF live(2) none _ assms(3,4)]
  obtain r ix' where c: "addPoint ix v (Label cid lab) level = Some (r, ix')"
    "call_on s h (\<lambda>ix. addPoint ix v (Label cid lab) level) = Some (r, s\<lparr>cs_objs := (cs_objs s)(h \<mapsto> ix')\<rparr>)"
    "c_inv (s\<lparr>cs_objs := (cs_objs s)(h \<mapsto> ix')\<rparr>)"
    by (rule add_m.call_ok [OF assms(1,2), where v = v and lab = "Label cid lab" and level = level]) (use assms in auto)
  have cap: "the (hnsw_capacity s h) = ix_maxElements ix" "cs_store s h = abs_ix ix" "card (dom (abs_ix ix)) = ix_count ix"
    using live assms(2) card_dom_abs [OF live(2)] by (simp_all add: hnsw_capacity_def cast_def cs_store_def)
  have "ix_count ix \<le> ix_maxElements ix" using count_capacity [OF live(2)] .
  then consider (dup) "abs_ix ix (Label cid lab) \<noteq> None" | (full) "abs_ix ix (Label cid lab) = None" "ix_count ix = ix_maxElements ix"
    | (ok) "abs_ix ix (Label cid lab) = None" "ix_count ix < ix_maxElements ix" by linarith
  then show ?thesis
    by cases (use a c cap live(1) in \<open>auto simp: hnsw_add_def cs_store_def hnsw_last_error_def\<close>)
qed

text \<open>A process with one index of two vectors.\<close>

definition ex_proc :: c_state where
  "ex_proc = c_init\<lparr>cs_objs := [1 \<mapsto> ex_two], cs_next := 2\<rparr>"

lemma ex_proc_ok: "c_inv ex_proc" "cs_objs ex_proc 1 = Some ex_two"
  using ex_two_wf(1) ex_two_typed by (simp_all add: ex_proc_def c_inv_def c_init_def obj_ok_def)

lemma ex_proc_label: "cs_store ex_proc 1 (Label 1 7) \<noteq> None"
proof -
  have "ix_labelToId ex_two (Label 1 7) = Some 0" by code_simp
  then show ?thesis using ex_proc_ok(2) by (simp add: cs_store_def abs_ix_def)
qed

lemma hnsw_add_codes_witness:
  "\<exists>code s'. hnsw_add ex_proc 1 (Some [1]) 1 7 0 = Some (code, s') \<and> code = HNSW_ERR_DUPLICATE"
  using hnsw_add_codes [OF ex_proc_ok, of "[1]" 0 1 7] ex_proc_label by (auto simp: ex_two_wf)

text \<open>
  \<open>hnsw_mark_deleted\<close> and \<open>hnsw_unmark_deleted\<close> return \<open>HNSW_OK\<close> exactly if
  they changed the tombstone of the label, and \<open>HNSW_ERR_NOT_FOUND\<close> with the store unchanged otherwise.
\<close>

lemma hnsw_delete_codes:
  assumes "c_inv s" "cs_objs s h = Some ix"
  shows "\<exists>c1 s1 c2 s2. hnsw_mark_deleted s h cid lab = Some (c1, s1) \<and> c_inv s1 \<and>
      (c1 = HNSW_OK, cs_store s1 h) = spec_mark True (cs_store s h) (Label cid lab) \<and> c1 \<in> {HNSW_OK, HNSW_ERR_NOT_FOUND} \<and>
    hnsw_unmark_deleted s h cid lab = Some (c2, s2) \<and> c_inv s2 \<and>
      (c2 = HNSW_OK, cs_store s2 h) = spec_mark False (cs_store s h) (Label cid lab) \<and> c2 \<in> {HNSW_OK, HNSW_ERR_NOT_FOUND}"
proof -
  have live: "0 < h" "wf_ix ix" using c_inv_live [OF assms] by auto
  obtain b ix1 where 1: "markDeleted ix (Label cid lab) = Some (b, ix1)"
    "call_on s h (\<lambda>ix. markDeleted ix (Label cid lab)) = Some (b, s\<lparr>cs_objs := (cs_objs s)(h \<mapsto> ix1)\<rparr>)"
    "c_inv (s\<lparr>cs_objs := (cs_objs s)(h \<mapsto> ix1)\<rparr>)"
    by (rule mark_m.call_ok [OF assms, where lab = "Label cid lab"]) auto
  obtain b2 ix2 where 2: "unmarkDeleted ix (Label cid lab) = Some (b2, ix2)"
    "call_on s h (\<lambda>ix. unmarkDeleted ix (Label cid lab)) = Some (b2, s\<lparr>cs_objs := (cs_objs s)(h \<mapsto> ix2)\<rparr>)"
    "c_inv (s\<lparr>cs_objs := (cs_objs s)(h \<mapsto> ix2)\<rparr>)"
    by (rule unmark_m.call_ok [OF assms, where lab = "Label cid lab"]) auto
  have "(b, abs_ix ix1) = spec_mark True (abs_ix ix) (Label cid lab)" "(b2, abs_ix ix2) = spec_mark False (abs_ix ix) (Label cid lab)"
    using markDeleted_ok [OF live(2), of "Label cid lab"] unmarkDeleted_ok [OF live(2), of "Label cid lab"] 1(1) 2(1) by auto
  then show ?thesis
    using 1(2,3) 2(2,3) live(1) assms(2)
    by (cases b; cases b2) (auto simp: hnsw_mark_deleted_def hnsw_unmark_deleted_def cs_store_def codes)
qed

lemma hnsw_delete_codes_witness:
  "\<exists>c1 s1. hnsw_mark_deleted ex_proc 1 1 7 = Some (c1, s1) \<and>
     (c1 = HNSW_OK, cs_store s1 1) = spec_mark True (cs_store ex_proc 1) (Label 1 7)"
  using hnsw_delete_codes [OF ex_proc_ok, of 1 7] by auto

text \<open>
  C26: \<open>hnsw_search\<close> returns the number \<open>n \<le> k\<close> of its answers and writes exactly the first
  \<open>n\<close> entries of the three buffers: distinct live labels with their distances. It does not change the
  store, and for \<open>k < 2 ^ 31\<close> the count cannot be mistaken for an error code.
\<close>

theorem hnsw_search_fills:
  assumes "c_inv s" "cs_objs s h = Some ix" "ix_dim ix \<le> length q" "k \<le> length ids" "k \<le> length labels" "k \<le> length ds" "k < 2 ^ 31"
  shows "\<exists>n out s'. hnsw_search s h (Some q) k ef (Some ids) (Some labels) (Some ds) = Some (int n, Some out, s') \<and>
    c_inv s' \<and> cs_store s' h = cs_store s h \<and> n \<le> k \<and>
    distinct (zip (take n (out_client_ids out)) (take n (out_labels out))) \<and>
    (\<forall>i < n. \<exists>v. cs_store s h (Label (out_client_ids out ! i) (out_labels out ! i)) = Some (v, False) \<and>
        out_distances out ! i = rawDistance ix (query_vec ix q) v) \<and>
    drop n (out_client_ids out) = drop n ids \<and> drop n (out_labels out) = drop n labels \<and> drop n (out_distances out) = drop n ds"
proof -
  have live: "0 < h" "wf_ix ix" using c_inv_live [OF assms(1,2)] by auto
  obtain res ix' where c: "search ix q k ef = Some (res, ix')"
    "call_on s h (\<lambda>ix. search ix q k ef) = Some (res, s\<lparr>cs_objs := (cs_objs s)(h \<mapsto> ix')\<rparr>)"
    "c_inv (s\<lparr>cs_objs := (cs_objs s)(h \<mapsto> ix')\<rparr>)"
    by (rule search_m.call_ok [OF assms(1,2), where q = q and k = k and ef = ef]) (use assms in auto)
  obtain p where ix': "ix' = ix\<lparr>ix_visitedPool := p\<rparr>" and ok: "answers_ok ix (query_vec ix q) k res"
    using search_spec [OF live(2) assms(3), of k ef] c(1) by auto
  let ?n = "length res"
  have n: "?n \<le> k" using ok by (simp add: answers_ok_def)
  let ?out = "\<lparr>out_client_ids = map (clientId \<circ> sr_label) res @ drop ?n ids,
    out_labels = map (label_no \<circ> sr_label) res @ drop ?n labels, out_distances = map sr_distance res @ drop ?n ds\<rparr>"
  have "to_i32 (?n mod 2 ^ 32) = int ?n" using n assms(7) by (simp add: to_i32_def)
  then have "hnsw_search s h (Some q) k ef (Some ids) (Some labels) (Some ds) =
      Some (int ?n, Some ?out, s\<lparr>cs_objs := (cs_objs s)(h \<mapsto> ix')\<rparr>)"
    using c(2) live(1) n assms(4-6) put_results [of res "\<lparr>out_client_ids = ids, out_labels = labels, out_distances = ds\<rparr>"]
    by (simp add: hnsw_search_def)
  moreover have "distinct (zip (map (clientId \<circ> sr_label) res) (map (label_no \<circ> sr_label) res))"
  proof -
    have "zip (map (clientId \<circ> sr_label) res) (map (label_no \<circ> sr_label) res) =
        map (\<lambda>l. (clientId l, label_no l)) (map sr_label res)" by (simp add: zip_map_map zip_same_conv_map)
    moreover have "inj (\<lambda>l :: label. (clientId l, label_no l))" by (auto intro: injI)
    ultimately show ?thesis using ok by (simp only: distinct_map answers_ok_def) (auto intro: inj_on_subset)
  qed
  moreover have "\<exists>v. abs_ix ix (Label (clientId (sr_label (res ! i))) (label_no (sr_label (res ! i)))) = Some (v, False) \<and>
      sr_distance (res ! i) = rawDistance ix (query_vec ix q) v" if "i < ?n" for i
  proof -
    have "Label (clientId (sr_label (res ! i))) (label_no (sr_label (res ! i))) = sr_label (res ! i)" by (simp add: Label_def)
    then show ?thesis using ok nth_mem [OF that] by (simp add: answers_ok_def)
  qed
  ultimately show ?thesis
    using c(3) n assms(2) by (intro exI [of _ ?n] exI [of _ ?out]) (auto simp: cs_store_def ix' nth_append)
qed

theorem hnsw_search_fills_witness:
  "\<exists>n out s'. hnsw_search ex_proc 1 (Some [1]) 2 2 (Some [0, 0]) (Some [0, 0]) (Some [0, 0]) = Some (int n, Some out, s') \<and>
     n \<le> 2 \<and> c_inv s'"
  using hnsw_search_fills [OF ex_proc_ok, of "[1]" 2 "[0, 0]" "[0, 0]" "[0, 0]" 2] by (auto simp: ex_two_wf)

text \<open>
  An index saved under a path and loaded from it again is a second, separate index with the same
  store; the first one is unaffected.
\<close>

lemma hnsw_save_load:
  assumes "c_inv s" "cs_objs s h = Some ix" "dev_opens dev"
    and "\<forall>bs. snapshot_bytes ix = Some bs \<longrightarrow> length bs \<le> dev_room dev"
  shows "\<exists>s1 g s2. hnsw_save s h (Some path) dev = Some (HNSW_OK, s1) \<and> hnsw_load avx junk s1 (Some path) = Some (g, s2) \<and>
    c_inv s2 \<and> g \<noteq> 0 \<and> g \<noteq> h \<and> cs_objs s2 h = Some ix \<and> cs_store s2 g = cs_store s h \<and>
    hnsw_capacity s2 g = hnsw_capacity s h \<and> hnsw_active_size s2 g = hnsw_active_size s h"
proof -
  have live: "0 < h" "h < cs_next s" "wf_ix ix" "typed ix" using c_inv_live [OF assms(1,2)] by auto
  obtain bs where bs: "snapshot_bytes ix = Some bs" using snapshot_bytes_wf [OF live(3)] by blast
  let ?s1 = "s\<lparr>cs_files := (cs_files s)(path \<mapsto> bs)\<rparr>" and ?r = "reloaded avx ix"
  have "obj_ok ix" "obj_ok ?r" using live wf_reloaded [OF live(3)]
    by (simp_all add: obj_ok_def reloaded_def typed_def links_fit_def link_words_def)
  then have i1: "c_inv ?s1" using assms(1) by simp
  have 1: "hnsw_save s h (Some path) dev = Some (HNSW_OK, ?s1)"
  proof -
    have "\<not> dev_room dev < length bs - dev_buffered dev" using assms(4) bs by (auto intro: le_trans [OF diff_le_self])
    then show ?thesis using live(1) assms(2-4) bs by (simp add: hnsw_save_def cast_def save_def)
  qed
  obtain g s2 where a: "alloc ?s1 ?r = (g, s2)" by fastforce
  have 2: "hnsw_load avx junk ?s1 (Some path) = Some (g, s2)"
    using load_roundtrip [OF live(3,4) bs, of avx junk path] a by (simp add: hnsw_load_def)
  have f: "g = cs_next s" "cs_objs s2 = (cs_objs s)(g \<mapsto> ?r)" using a by (auto simp: alloc_def)
  have "c_inv s2" "g \<noteq> 0" using c_inv_alloc [OF i1 \<open>obj_ok ?r\<close> a] by auto
  moreover have "activeSize ?r = activeSize ix" "ix_maxElements ?r = ix_maxElements ix"
    by (simp_all add: activeSize_def reloaded_def)
  ultimately show ?thesis
    using 1 2 f live(1,2) assms(2) reloaded_views(1) [of avx ix]
    by (auto simp: cs_store_def hnsw_capacity_def hnsw_active_size_def cast_def)
qed

lemma hnsw_save_load_witness:
  "\<exists>n s1 g s2. hnsw_save ex_proc 1 (Some ''f'') \<lparr>dev_opens = True, dev_room = n, dev_buffered = 0\<rparr> = Some (HNSW_OK, s1) \<and>
     hnsw_load True id s1 (Some ''f'') = Some (g, s2) \<and> g \<noteq> 0 \<and> cs_store s2 g = cs_store ex_proc 1"
proof -
  obtain bs where bs: "snapshot_bytes ex_two = Some bs" by (rule ex_two_bytes)
  show ?thesis
    using hnsw_save_load [OF ex_proc_ok, of "\<lparr>dev_opens = True, dev_room = length bs, dev_buffered = 0\<rparr>" "''f''" True id] bs by auto
qed

text \<open>
  Null arguments: every function that takes pointers checks them first. It returns its error value, records
  a message and changes nothing else.
\<close>

lemma null_arguments:
  "hnsw_add s 0 v cid lab level = Some (HNSW_ERR_NULL, s\<lparr>cs_lastError := ''null argument''\<rparr>) \<and>
   hnsw_add s h None cid lab level = Some (HNSW_ERR_NULL, s\<lparr>cs_lastError := ''null argument''\<rparr>) \<and>
   hnsw_search s 0 q k ef ids labels ds = Some (HNSW_ERR_NULL, None, s\<lparr>cs_lastError := ''null argument''\<rparr>) \<and>
   hnsw_search s h None k ef ids labels ds = Some (HNSW_ERR_NULL, None, s\<lparr>cs_lastError := ''null argument''\<rparr>) \<and>
   hnsw_search s h q k ef ids None ds = Some (HNSW_ERR_NULL, None, s\<lparr>cs_lastError := ''null argument''\<rparr>) \<and>
   hnsw_mark_deleted s 0 cid lab = Some (HNSW_ERR_NULL, s\<lparr>cs_lastError := ''null index''\<rparr>) \<and>
   hnsw_unmark_deleted s 0 cid lab = Some (HNSW_ERR_NULL, s\<lparr>cs_lastError := ''null index''\<rparr>) \<and>
   hnsw_save s 0 path dev = Some (HNSW_ERR_NULL, s\<lparr>cs_lastError := ''null argument''\<rparr>) \<and>
   hnsw_save s h None dev = Some (HNSW_ERR_NULL, s\<lparr>cs_lastError := ''null argument''\<rparr>) \<and>
   hnsw_load avx junk s None = Some (0, s\<lparr>cs_lastError := ''null path''\<rparr>) \<and>
   hnsw_free s 0 = Some s \<and> hnsw_size s 0 = Some 0 \<and> hnsw_active_size s 0 = Some 0"
  by (simp add: hnsw_add_def hnsw_search_def hnsw_mark_deleted_def hnsw_unmark_deleted_def hnsw_save_def hnsw_load_def
      hnsw_free_def hnsw_size_def hnsw_active_size_def setError_def)

end
