(* ===== verification/Float64.thy ===== *)
theory Float64
  imports Complex_Main Float32
begin

text \<open>
  What the benchmarks compute in \<open>double\<close>: quotients and products of non-negative numbers, rounded to 53
  significant bits, ties to even. All values are far inside the normal range, so a double is the rational it
  stands for. \<open>percentile\<close> of \<open>src/benchmark.cpp\<close> and \<open>src/sift_bench.cpp\<close> is the same
  function in both.
\<close>

section \<open>Rounding\<close>

definition round_even :: "'a::floor_ceiling \<Rightarrow> int" where
  "round_even x = (let f = \<lfloor>x\<rfloor>; r = x - of_int f in if 1 / 2 < r \<or> r = 1 / 2 \<and> odd f then f + 1 else f)"

text \<open>The scale that gives \<open>x\<close> an integer part of 53 bits.\<close>

definition f64_scale :: "rat \<Rightarrow> int" where
  "f64_scale x =
     (case quotient_of x of (a, b) \<Rightarrow>
      let e = 53 + int (bitlen (nat b)) - int (bitlen (nat a)) in if 2 ^ 53 \<le> x * 2 powi e then e - 1 else e)"

definition f64_round :: "rat \<Rightarrow> rat" where
  "f64_round x = (if x \<le> 0 then 0 else of_int (round_even (x * 2 powi f64_scale x)) / 2 powi f64_scale x)"

definition percentile :: "rat list \<Rightarrow> nat \<Rightarrow> rat option" where
  "percentile v p =
     (if v = [] then Some 0
      else rd (sort v) (nat \<lfloor>f64_round (f64_round (of_nat p / 100) * f64_round (of_nat (length v - 1)))\<rfloor>))"

lemma round_even_error: "\<bar>of_int (round_even x) - x\<bar> \<le> 1 / 2"
  using floor_correct [of x] by (auto simp: round_even_def Let_def abs_le_iff)

lemma bitlen_bounds: "0 < n \<Longrightarrow> 2 ^ bitlen n \<le> 2 * n \<and> n < 2 ^ bitlen n"
proof (induction n rule: bitlen.induct)
  case (1 n)
  show ?case
  proof (cases "n div 2 = 0")
    case True
    then have "n = 1" using 1(2) by linarith
    then show ?thesis by (simp add: bitlen.simps)
  next
    case False
    have "bitlen n = Suc (bitlen (n div 2))" using 1(2) by (subst bitlen.simps) simp
    moreover have "2 ^ bitlen (n div 2) \<le> 2 * (n div 2)" "n div 2 < 2 ^ bitlen (n div 2)" using 1 False by auto
    ultimately show ?thesis by auto
  qed
qed

lemma f64_scale_bounds:
  assumes "0 < x"
  shows "2 ^ 52 \<le> x * 2 powi f64_scale x" "x * 2 powi f64_scale x < 2 ^ 53"
proof -
  obtain a b where q: "quotient_of x = (a, b)" by fastforce
  have b: "0 < b" and x: "x = of_int a / of_int b" using q quotient_of_denom_pos quotient_of_div by blast+
  have a: "0 < a" using assms b by (simp add: x zero_less_divide_iff)
  define la where "la = bitlen (nat a)"
  define lb where "lb = bitlen (nat b)"
  have n: "2 ^ la \<le> 2 * nat a" "nat a < 2 ^ la" "2 ^ lb \<le> 2 * nat b" "nat b < 2 ^ lb"
    using bitlen_bounds [of "nat a"] bitlen_bounds [of "nat b"] a b by (simp_all add: la_def lb_def)
  have c: "(of_int a :: rat) = of_nat (nat a)" "(of_int b :: rat) = of_nat (nat b)" using a b by simp_all
  have r: "(2::rat) ^ la \<le> 2 * of_int a" "(of_int a :: rat) < 2 ^ la" "(2::rat) ^ lb \<le> 2 * of_int b" "(of_int b :: rat) < 2 ^ lb"
    unfolding c using n [folded of_nat_less_iff [where ?'a = rat] of_nat_le_iff [where ?'a = rat]] by simp_all
  let ?y = "x * 2 powi (53 + int lb - int la)"
  have y: "?y = 2 ^ 53 * 2 ^ lb * of_int a / (of_int b * 2 ^ la)"
    by (simp add: x power_int_diff power_int_add)
  have pos: "0 < (of_int b :: rat) * 2 ^ la" using b by simp
  have "2 ^ 52 * (of_int b * 2 ^ la) \<le> (2 ^ 52 * (2 ^ lb * (2 * of_int a)) :: rat)"
    using r b a by (intro mult_left_mono mult_mono) auto
  then have lo: "2 ^ 52 \<le> ?y" unfolding y using pos by (simp add: le_divide_eq)
  have "2 ^ 53 * 2 ^ lb * (of_int a :: rat) < 2 ^ 53 * (2 * of_int b) * 2 ^ la"
    using r b a by (intro mult_le_less_imp_less mult_left_mono) auto
  then have hi: "?y < 2 ^ 54" unfolding y using pos by (simp add: divide_less_eq)
  have h: "x * 2 powi (53 + int lb - int la - 1) = ?y / 2" using power_int_diff [of "2::rat" "53 + int lb - int la" 1] by simp
  have "x * 2 powi f64_scale x = (if 2 ^ 53 \<le> ?y then ?y / 2 else ?y)"
    using h by (simp only: f64_scale_def q Let_def prod.case flip: la_def lb_def) (simp split: if_splits)
  then show "2 ^ 52 \<le> x * 2 powi f64_scale x" "x * 2 powi f64_scale x < 2 ^ 53" using lo hi by (simp_all only: split: if_splits) auto
qed

lemma round_even_le: "x \<le> of_int n \<Longrightarrow> round_even x \<le> n"
proof -
  assume x: "x \<le> of_int n"
  then have "\<lfloor>x\<rfloor> \<le> n" using floor_mono [OF x] by simp
  moreover have "\<lfloor>x\<rfloor> = n \<Longrightarrow> x = of_int n" using x of_int_floor_le [of x] by auto
  ultimately show ?thesis by (fastforce simp: round_even_def Let_def)
qed

lemma round_even_ge: "of_int n \<le> x \<Longrightarrow> n \<le> round_even x"
  using floor_mono [of "of_int n" x] by (auto simp: round_even_def Let_def)

lemma round_even_mono: "x \<le> y \<Longrightarrow> round_even x \<le> round_even y"
proof -
  assume xy: "x \<le> y"
  show ?thesis
  proof (cases "\<lfloor>x\<rfloor> = \<lfloor>y\<rfloor>")
    case True
    then show ?thesis using xy by (auto simp: round_even_def Let_def)
  next
    case False
    then have "\<lfloor>x\<rfloor> + 1 \<le> \<lfloor>y\<rfloor>" using floor_mono [OF xy] by linarith
    moreover have "round_even x \<le> \<lfloor>x\<rfloor> + 1" "\<lfloor>y\<rfloor> \<le> round_even y" by (auto simp: round_even_def Let_def)
    ultimately show ?thesis by linarith
  qed
qed

lemma f64_round_nonneg: "0 \<le> f64_round x"
proof (cases "0 < x")
  case True
  have "0 \<le> round_even (x * 2 powi f64_scale x)" using True by (intro round_even_ge) simp
  then show ?thesis using True by (simp add: f64_round_def)
qed (simp add: f64_round_def)

lemma scale_nonneg:
  assumes "0 < x" "x < 2 ^ 53" shows "0 \<le> f64_scale x"
proof (rule ccontr)
  assume "\<not> 0 \<le> f64_scale x"
  then have "(2::rat) powi f64_scale x \<le> 2 powi (- 1)" by (intro power_int_increasing) auto
  then have "x * 2 powi f64_scale x \<le> x * (1 / 2)" using assms(1) by (intro mult_left_mono) (auto simp: power_int_minus field_simps)
  then show False using f64_scale_bounds(1) [OF assms(1)] assms(2) by simp
qed

text \<open>Integers of up to 53 bits are doubles, and rounding does not pass a double.\<close>

lemma f64_round_le:
  assumes "x \<le> of_nat m" "m < 2 ^ 53" shows "f64_round x \<le> of_nat m"
proof (cases "0 < x")
  case True
  have "(of_nat m :: rat) < 2 ^ 53" using assms(2) by (metis of_nat_less_iff of_nat_numeral of_nat_power)
  then have "0 \<le> f64_scale x" using scale_nonneg [OF True] assms(1) by linarith
  then obtain e where e: "f64_scale x = int e" by (metis nonneg_int_cases)
  have "x * 2 ^ e \<le> of_nat m * 2 ^ e" using assms(1) by (intro mult_right_mono) auto
  then have "round_even (x * 2 ^ e) \<le> int m * 2 ^ e" by (intro round_even_le) simp
  then have "(of_int (round_even (x * 2 ^ e)) :: rat) \<le> of_int (int m * 2 ^ e)" by (simp only: of_int_le_iff)
  then show ?thesis using True by (simp add: f64_round_def e divide_le_eq)
qed (simp add: f64_round_def)

lemma f64_round_nat: "m < 2 ^ 53 \<Longrightarrow> f64_round (of_nat m) = of_nat m"
proof (cases "m = 0")
  case False
  assume m: "m < 2 ^ 53"
  then have "(of_nat m :: rat) < 2 ^ 53" by (metis of_nat_less_iff of_nat_numeral of_nat_power)
  then have "0 \<le> f64_scale (of_nat m)" using scale_nonneg [of "of_nat m"] False by simp
  then obtain e where e: "f64_scale (of_nat m) = int e" by (metis nonneg_int_cases)
  have "round_even (of_nat m * 2 ^ e :: rat) = int m * 2 ^ e"
    by (intro antisym round_even_le round_even_ge) simp_all
  then show ?thesis using False by (simp add: f64_round_def e)
qed (simp add: f64_round_def)

lemma percentile_index:
  assumes "v \<noteq> []" "length v < 2 ^ 53" "p \<le> 100"
  obtains i where "i < length v" "percentile v p = Some (sort v ! i)"
proof -
  let ?m = "length v - 1" and ?r = "f64_round (of_nat p / 100)"
  have r: "0 \<le> ?r" "?r \<le> 1" using f64_round_nonneg f64_round_le [of "of_nat p / 100" 1] assms(3) by simp_all
  have m: "f64_round (of_nat ?m) = of_nat ?m" using f64_round_nat [of ?m] assms(2) by simp
  have "?r * of_nat ?m \<le> of_nat ?m" using r by (intro mult_left_le_one_le) simp_all
  then have "f64_round (?r * of_nat ?m) \<le> of_nat ?m" using assms(2) by (intro f64_round_le) simp_all
  then have "\<lfloor>f64_round (?r * of_nat ?m)\<rfloor> \<le> int ?m" using floor_mono by fastforce
  then have "nat \<lfloor>f64_round (?r * of_nat ?m)\<rfloor> < length v" using assms(1) by (cases v) auto
  moreover from this have "percentile v p = Some (sort v ! nat \<lfloor>f64_round (?r * of_nat ?m)\<rfloor>)"
    unfolding percentile_def m rd_def using assms(1) by (simp only: if_True if_False length_sort)
  ultimately show ?thesis by (rule that)
qed

lemma percentile_mem:
  assumes "v \<noteq> []" "length v < 2 ^ 53" "p \<le> 100"
  obtains x where "percentile v p = Some x" "x \<in> set v"
  using percentile_index [OF assms] by (metis nth_mem length_sort set_sort)

end
