(* ===== verification/Hnsw_Level.thy ===== *)
theory Hnsw_Level
  imports Float64
begin

text \<open>
  The level distribution of \<open>hnsw::Index\<close>: \<open>randomLevel\<close> and the field
  \<open>levelMult_\<close>, in double arithmetic: quotient and product are rounded to 53 bits, ties to
  even. \<open>std::log\<close> is a parameter \<open>lg\<close>; what is known of it is the accuracy the C library
  documents, an error of at most one unit in the last place (\<open>log_accurate\<close>). All values are in
  the normal range, so a double is the real number it stands for. \<open>drawn\<close> names the levels
  \<open>addPoint\<close> can get: what the theories of the callers assume of a level.
\<close>

section \<open>Doubles\<close>

definition f64 :: "real \<Rightarrow> real" where
  "f64 x = (if x = 0 then 0 else let e = 52 - \<lfloor>log 2 \<bar>x\<bar>\<rfloor> in of_int (round_even (x * 2 powi e)) / 2 powi e)"

lemma f64_error: "\<bar>f64 x - x\<bar> \<le> \<bar>x\<bar> / 2 ^ 53"
proof (cases "x = 0")
  case False
  define e where "e = 52 - \<lfloor>log 2 \<bar>x\<bar>\<rfloor>"
  have p: "0 < (2::real) powi e" by simp
  have "2 powr of_int \<lfloor>log 2 \<bar>x\<bar>\<rfloor> \<le> \<bar>x\<bar>" using False by (simp flip: le_log_iff)
  then have "2 powi (52 - e) \<le> \<bar>x\<bar>" by (simp add: e_def powr_real_of_int')
  then have "2 ^ 52 \<le> \<bar>x\<bar> * 2 powi e" by (simp add: power_int_diff divide_le_eq)
  then have "1 / 2 \<le> \<bar>x\<bar> / 2 ^ 53 * 2 powi e" by (simp add: field_simps)
  then have "\<bar>of_int (round_even (x * 2 powi e)) - x * 2 powi e\<bar> \<le> \<bar>x\<bar> / 2 ^ 53 * 2 powi e"
    using round_even_error [of "x * 2 powi e"] by linarith
  moreover have "f64 x - x = (of_int (round_even (x * 2 powi e)) - x * 2 powi e) / 2 powi e"
    using False p by (simp add: f64_def e_def [symmetric] Let_def diff_divide_distrib)
  ultimately show ?thesis using p by (simp add: abs_divide divide_le_eq)
qed (simp add: f64_def)

text \<open>The accuracy of \<open>std::log\<close>: one unit in the last place of a 53-bit number.\<close>

definition log_accurate :: "(real \<Rightarrow> real) \<Rightarrow> bool" where
  "log_accurate lg \<longleftrightarrow> (\<forall>x \<ge> 1 / 2 ^ 1022. \<bar>lg x - ln x\<bar> \<le> \<bar>ln x\<bar> / 2 ^ 52)"

lemma log_accurate_rounded: "log_accurate (\<lambda>x. f64 (ln x))"
proof -
  have "\<bar>f64 (ln x) - ln x\<bar> \<le> \<bar>ln x\<bar> / 2 ^ 52" for x :: real
    using f64_error [of "ln x"] by simp
  then show ?thesis by (simp add: log_accurate_def)
qed

section \<open>The level of a new node\<close>

text \<open>
  \<open>levelMult_\<close> is \<open>1.0 / std::log(M)\<close>: for \<open>M = 1\<close> the logarithm is 0 and the quotient
  the infinity (\<open>None\<close>). \<open>randomLevel\<close> gets the draw \<open>u\<close> of the generator; the least
  normal double replaces a draw of 0, and the cast truncates towards 0. Casting an infinity, a NaN or a
  value outside \<open>int\<close> is undefined (\<open>None\<close>).
\<close>

definition levelMult :: "(real \<Rightarrow> real) \<Rightarrow> nat \<Rightarrow> real option" where
  "levelMult lg M = (if lg (real M) = 0 then None else Some (f64 (1 / lg (real M))))"

definition to_int :: "real \<Rightarrow> int option" where
  "to_int x =
     (let t = (if x < 0 then - \<lfloor>- x\<rfloor> else \<lfloor>x\<rfloor>) in if - (2 ^ 31) \<le> t \<and> t < 2 ^ 31 then Some t else None)"

definition randomLevel :: "(real \<Rightarrow> real) \<Rightarrow> nat \<Rightarrow> real \<Rightarrow> int option" where
  "randomLevel lg M u =
     (case levelMult lg M of None \<Rightarrow> None
      | Some m \<Rightarrow> let u' = (if u \<le> 0 then 1 / 2 ^ 1022 else u) in to_int (f64 (- lg u' * m)))"

text \<open>A draw: what \<open>std::uniform_real_distribution\<close> returns, or less than it as far as the code cares.\<close>

definition draw :: "real \<Rightarrow> bool" where
  "draw u \<longleftrightarrow> u \<le> 0 \<or> 1 / 2 ^ 1022 \<le> u \<and> u \<le> 1"

definition drawn :: "(real \<Rightarrow> real) \<Rightarrow> nat \<Rightarrow> int \<Rightarrow> bool" where
  "drawn lg M level \<longleftrightarrow> (\<exists>u. draw u \<and> randomLevel lg M u = Some level)"

section \<open>The rounding errors\<close>

lemma rel_factor:
  assumes "\<bar>a - b\<bar> \<le> \<bar>b\<bar> * d" "0 \<le> d"
  obtains p :: real where "a = b * p" "1 - d \<le> p" "p \<le> 1 + d"
proof (cases "b = 0")
  case False
  have "\<bar>a / b - 1\<bar> = \<bar>a - b\<bar> / \<bar>b\<bar>" using False by (simp add: abs_divide [symmetric] diff_divide_distrib)
  also have "\<dots> \<le> d" using assms(1) False by (simp add: divide_le_eq mult.commute)
  finally show ?thesis using False by (intro that [of "a / b"]) auto
qed (use assms that [of 1] in simp)

lemma f64_factor: obtains p where "f64 x = x * p" "1 - 1 / 2 ^ 52 \<le> p" "p \<le> 1 + 1 / 2 ^ 52"
proof -
  have "\<bar>f64 x - x\<bar> \<le> \<bar>x\<bar> * (1 / 2 ^ 52)" using f64_error [of x] by simp
  from rel_factor [OF this] that show ?thesis by auto
qed

lemma log_factor:
  assumes "log_accurate lg" "1 / 2 ^ 1022 \<le> x"
  obtains p where "lg x = ln x * p" "1 - 1 / 2 ^ 52 \<le> p" "p \<le> 1 + 1 / 2 ^ 52"
proof -
  have "\<bar>lg x - ln x\<bar> \<le> \<bar>ln x\<bar> * (1 / 2 ^ 52)" using assms by (auto simp: log_accurate_def)
  from rel_factor [OF this] that show ?thesis by auto
qed

text \<open>Four operations, each with a relative error of at most \<open>2\<^bsup>- 52\<^esup>\<close>.\<close>

lemma four_factors:
  fixes p q r s :: real
  assumes "1 - 1 / 2 ^ 52 \<le> p" "p \<le> 1 + 1 / 2 ^ 52" "1 - 1 / 2 ^ 52 \<le> q" "q \<le> 1 + 1 / 2 ^ 52"
    "1 - 1 / 2 ^ 52 \<le> r" "r \<le> 1 + 1 / 2 ^ 52" "1 - 1 / 2 ^ 52 \<le> s" "s \<le> 1 + 1 / 2 ^ 52"
  shows "1 - 1 / 2 ^ 49 \<le> p * r * s / q" "p * r * s / q \<le> 1 + 1 / 2 ^ 49"
proof -
  let ?l = "1 - 1 / 2 ^ 52 :: real" and ?h = "1 + 1 / 2 ^ 52 :: real"
  have pos: "0 < ?l" by simp
  have q: "0 < q" using assms(3) pos by linarith
  have "p * r * s \<le> ?h * ?h * ?h" using assms pos by (intro mult_mono mult_nonneg_nonneg) linarith+
  also have "\<dots> \<le> (1 + 1 / 2 ^ 49) * ?l" by simp
  also have "\<dots> \<le> (1 + 1 / 2 ^ 49) * q" using assms(3) by (intro mult_left_mono) auto
  finally show "p * r * s / q \<le> 1 + 1 / 2 ^ 49" using q by (simp add: divide_le_eq)
  have "(1 - 1 / 2 ^ 49) * q \<le> (1 - 1 / 2 ^ 49) * ?h" using assms(4) by (intro mult_left_mono) auto
  also have "\<dots> \<le> ?l * ?l * ?l" by simp
  also have "\<dots> \<le> p * r * s" using assms pos by (intro mult_mono mult_nonneg_nonneg) linarith+
  finally show "1 - 1 / 2 ^ 49 \<le> p * r * s / q" using q by (simp add: le_divide_eq)
qed

text \<open>The number that is cast to \<open>int\<close> is \<open>- ln u / ln M\<close> up to a relative error of \<open>2\<^bsup>- 49\<^esup>\<close>.\<close>

lemma factors_collect: "- (a * p) * (1 / (b * q) * r) * s = - a / b * (p * r * s / q)" for a :: real
  by (simp add: divide_inverse ac_simps)

lemma computed_exponent:
  assumes "log_accurate lg" "2 \<le> M" "1 / 2 ^ 1022 \<le> v" "v \<le> 1"
  shows "\<exists>m. levelMult lg M = Some m \<and> 0 \<le> - ln v / ln (real M) \<and>
    - ln v / ln (real M) * (1 - 1 / 2 ^ 49) \<le> f64 (- lg v * m) \<and> f64 (- lg v * m) \<le> - ln v / ln (real M) * (1 + 1 / 2 ^ 49)"
proof -
  let ?x = "- ln v / ln (real M)"
  have M: "0 < ln (real M)" "1 / 2 ^ 1022 \<le> real M" using assms(2) by auto
  have "(0::real) < 1 / 2 ^ 1022" by simp
  then have v: "0 < v" using assms(3) by linarith
  then have x: "0 \<le> ?x" using assms(4) M(1) by (simp add: divide_nonpos_pos)
  obtain p where p: "lg v = ln v * p" "1 - 1 / 2 ^ 52 \<le> p" "p \<le> 1 + 1 / 2 ^ 52" using log_factor [OF assms(1,3)] .
  obtain q where q: "lg (real M) = ln (real M) * q" "1 - 1 / 2 ^ 52 \<le> q" "q \<le> 1 + 1 / 2 ^ 52" using log_factor [OF assms(1) M(2)] .
  obtain r where r: "f64 (1 / lg (real M)) = 1 / lg (real M) * r" "1 - 1 / 2 ^ 52 \<le> r" "r \<le> 1 + 1 / 2 ^ 52" using f64_factor .
  let ?m = "f64 (1 / lg (real M))"
  obtain s where s: "f64 (- lg v * ?m) = - lg v * ?m * s" "1 - 1 / 2 ^ 52 \<le> s" "s \<le> 1 + 1 / 2 ^ 52" using f64_factor .
  have "(0::real) < 1 - 1 / 2 ^ 52" by simp
  then have "0 < q" using q(2) by linarith
  then have "lg (real M) \<noteq> 0" using M(1) by (simp add: q(1))
  then have m: "levelMult lg M = Some ?m" by (simp add: levelMult_def)
  have "- lg v * ?m * s = - (ln v * p) * (1 / (ln (real M) * q) * r) * s"
    unfolding r(1) unfolding p(1) q(1) by (rule refl)
  also have "\<dots> = ?x * (p * r * s / q)" by (rule factors_collect)
  finally have y: "f64 (- lg v * ?m) = ?x * (p * r * s / q)" unfolding s(1) .
  note f = four_factors [OF p(2,3) q(2,3) r(2,3) s(2,3)]
  show ?thesis
    by (intro exI [of _ ?m] conjI m x)
       (simp_all only: y mult_left_mono [OF f(1) x] mult_left_mono [OF f(2) x])
qed

lemma exponent_bound:
  assumes "2 \<le> M" "1 / 2 ^ 1022 \<le> v" shows "- ln v / ln (real M) \<le> 1022"
proof -
  have "- ln v \<le> - ln (1 / 2 ^ 1022)" using assms(2) by (simp del: power_numeral) (smt (verit) ln_le_cancel_iff zero_less_divide_1_iff zero_less_power)
  also have "\<dots> = 1022 * ln (2 :: real)" by (simp add: ln_div ln_realpow del: power_numeral)
  also have "\<dots> \<le> 1022 * ln (real M)" using assms(1) by simp
  finally have "- ln v \<le> 1022 * ln (real M)" .
  moreover have "0 < ln (real M)" using assms(1) by simp
  ultimately show ?thesis by (simp only: pos_divide_le_eq)
qed

lemma exponent_powr:
  assumes "2 \<le> M" "0 < v" shows "t \<le> - ln v / ln (real M) \<longleftrightarrow> v \<le> real M powr - t"
proof -
  have M: "0 < ln (real M)" using assms(1) by simp
  have "t \<le> - ln v / ln (real M) \<longleftrightarrow> ln v \<le> - t * ln (real M)" 
    by (subst pos_le_divide_eq [OF M]) (simp only: le_minus_iff [of "t * ln (real M)"] mult_minus_left)
  also have "\<dots> \<longleftrightarrow> ln v \<le> ln (real M powr - t)" using assms(1) by (simp add: ln_powr)
  also have "\<dots> \<longleftrightarrow> v \<le> real M powr - t" using assms by (intro ln_le_cancel_iff) auto
  finally show ?thesis .
qed

lemma randomLevel_levels:
  assumes "log_accurate lg" "2 \<le> M" "1 / 2 ^ 1022 \<le> v" "v \<le> 1"
  shows "\<exists>lev. randomLevel lg M v = Some lev \<and> 0 \<le> lev \<and> lev \<le> 1022 \<and>
    (\<forall>l. (v \<le> real M powr - (real l * (1 + 1 / 2 ^ 48)) \<longrightarrow> int l \<le> lev) \<and>
      (int l \<le> lev \<longrightarrow> v \<le> real M powr - (real l * (1 - 1 / 2 ^ 48))))"
proof -
  let ?x = "- ln v / ln (real M)"
  obtain m where m: "levelMult lg M = Some m" "0 \<le> ?x" "?x * (1 - 1 / 2 ^ 49) \<le> f64 (- lg v * m)"
    "f64 (- lg v * m) \<le> ?x * (1 + 1 / 2 ^ 49)"
    using computed_exponent [OF assms] by blast
  define y where "y = f64 (- lg v * m)"
  have "(0::real) < 1 / 2 ^ 1022" by simp
  then have v: "0 < v" using assms(3) by linarith
  have "0 \<le> ?x * (1 - 1 / 2 ^ 49)" using m(2) by (intro mult_nonneg_nonneg) auto
  then have y0: "0 \<le> y" using m(3) by (simp add: y_def)
  have "?x * (1 + 1 / 2 ^ 49) \<le> 1022 * (1 + 1 / 2 ^ 49)"
    using exponent_bound [OF assms(2,3)] by (intro mult_right_mono) auto
  also have "\<dots> < 1023" by simp
  finally have y1: "y < 1023" using m(4) unfolding y_def by linarith
  have f: "0 \<le> \<lfloor>y\<rfloor>" "\<lfloor>y\<rfloor> \<le> 1022" using y0 y1 by (simp, linarith)
  have r: "randomLevel lg M v = Some \<lfloor>y\<rfloor>"
  proof -
    have "to_int y = Some \<lfloor>y\<rfloor>" using f y0 by (simp add: to_int_def Let_def)
    then show ?thesis using v by (simp add: randomLevel_def m(1) Let_def y_def del: mult_minus_left)
  qed
  have up: "int l \<le> \<lfloor>y\<rfloor>" if "real l * (1 + 1 / 2 ^ 48) \<le> ?x" for l
  proof -
    have "real l * 1 \<le> real l * ((1 + 1 / 2 ^ 48) * (1 - 1 / 2 ^ 49))" by (intro mult_left_mono) auto
    also have "\<dots> = real l * (1 + 1 / 2 ^ 48) * (1 - 1 / 2 ^ 49)" by (simp only: mult.assoc)
    also have "\<dots> \<le> ?x * (1 - 1 / 2 ^ 49)" using that by (intro mult_right_mono) auto
    finally have "real l \<le> y" using m(3) unfolding y_def by linarith
    then show ?thesis by (simp add: le_floor_iff)
  qed
  have down: "real l * (1 - 1 / 2 ^ 48) \<le> ?x" if "int l \<le> \<lfloor>y\<rfloor>" for l
  proof -
    have "real l \<le> y" using that by (simp add: le_floor_iff)
    then have "real l \<le> ?x * (1 + 1 / 2 ^ 49)" using m(4) unfolding y_def by linarith
    then have "real l * (1 - 1 / 2 ^ 48) \<le> ?x * (1 + 1 / 2 ^ 49) * (1 - 1 / 2 ^ 48)" by (intro mult_right_mono) auto
    also have "\<dots> = ?x * ((1 + 1 / 2 ^ 49) * (1 - 1 / 2 ^ 48))" by (simp only: mult.assoc)
    also have "\<dots> \<le> ?x * 1" using m(2) by (intro mult_left_mono) auto
    finally show ?thesis by simp
  qed
  show ?thesis using r f up down exponent_powr [OF assms(2) v] by blast
qed

lemma drawn_levels:
  assumes "log_accurate lg" "0 < M" "drawn lg M level"
  shows "2 \<le> M" "0 \<le> level" "level \<le> 1022"
proof -
  obtain u where u: "draw u" "randomLevel lg M u = Some level" using assms(3) by (auto simp: drawn_def)
  have one: "lg 1 = 0" using assms(1) unfolding log_accurate_def by (auto dest: spec [of _ 1])
  show M: "2 \<le> M"
  proof (rule ccontr)
    assume "\<not> 2 \<le> M"
    then have "M = 1" using assms(2) by simp
    then show False using u(2) one by (simp add: randomLevel_def levelMult_def)
  qed
  define v where "v = (if u \<le> 0 then 1 / 2 ^ 1022 else u)"
  have v: "1 / 2 ^ 1022 \<le> v" "v \<le> 1" using u(1) by (auto simp: v_def draw_def)
  have "randomLevel lg M v = randomLevel lg M u" by (simp add: randomLevel_def v_def)
  then show "0 \<le> level" "level \<le> 1022" using randomLevel_levels [OF assms(1) M v] u(2) by auto
qed

text \<open>
  C24: The level, in double arithmetic. For \<open>M \<ge> 2\<close>, every draw and every logarithm as accurate as
  the C library's, \<open>randomLevel\<close> returns a level between 0 and 1022. It is at least \<open>l\<close> when the draw
  (or what replaces a draw of 0) is at most \<open>M\<close> to the power \<open>- l (1 + 2\<^bsup>- 48\<^esup>)\<close>, and only if it is at most
  \<open>M\<close> to the power \<open>- l (1 - 2\<^bsup>- 48\<^esup>)\<close>: up to the rounding, layers thin out by the factor \<open>M\<close>. For
  \<open>M = 1\<close>, which the constructor accepts, the cast is undefined for every draw.
\<close>

theorem randomLevel_distribution:
  assumes "log_accurate lg" "2 \<le> M" "draw u"
  shows "(\<exists>lev. randomLevel lg M u = Some lev \<and> 0 \<le> lev \<and> lev \<le> 1022 \<and>
      (\<forall>l. let v = if u \<le> 0 then 1 / 2 ^ 1022 else u in
        (v \<le> real M powr - (real l * (1 + 1 / 2 ^ 48)) \<longrightarrow> int l \<le> lev) \<and>
        (int l \<le> lev \<longrightarrow> v \<le> real M powr - (real l * (1 - 1 / 2 ^ 48))))) \<and>
    randomLevel lg 1 u = None"
proof -
  define v where "v = (if u \<le> 0 then 1 / 2 ^ 1022 else u)"
  have v: "1 / 2 ^ 1022 \<le> v" "v \<le> 1" using assms(3) by (auto simp: v_def draw_def)
  have r: "randomLevel lg M u = randomLevel lg M v" by (simp add: randomLevel_def v_def)
  have "lg 1 = 0" using assms(1) unfolding log_accurate_def by (auto dest: spec [of _ 1])
  then have "randomLevel lg 1 u = None" by (simp add: randomLevel_def levelMult_def)
  then show ?thesis
    using randomLevel_levels [OF assms(1,2) v] unfolding r Let_def v_def [symmetric] by blast
qed

theorem randomLevel_distribution_witness:
  "\<exists>lev. randomLevel (\<lambda>x. f64 (ln x)) 16 (1 / 512) = Some lev \<and> 2 \<le> lev \<and> lev < 3"
proof -
  have d: "draw (1 / 512)" by (simp add: draw_def)
  obtain lev where l: "randomLevel (\<lambda>x. f64 (ln x)) 16 (1 / 512) = Some lev"
    "\<forall>l. ((1 :: real) / 512 \<le> 16 powr - (real l * (1 + 1 / 2 ^ 48)) \<longrightarrow> int l \<le> lev) \<and>
      (int l \<le> lev \<longrightarrow> (1 :: real) / 512 \<le> 16 powr - (real l * (1 - 1 / 2 ^ 48)))"
    using randomLevel_distribution [OF log_accurate_rounded _ d, of 16] by auto
  have p: "(1 :: real) / 512 = 16 powr - (9 / 4)"
  proof -
    have "(16 :: real) powr - (9 / 4) = (2 powr 4) powr - (9 / 4)" by simp
    also have "\<dots> = 2 powr - 9" by (simp only: powr_powr) simp
    also have "\<dots> = 1 / 512" by (simp add: powr_minus_divide)
    finally show ?thesis by simp
  qed
  have "2 \<le> lev" using l(2) [rule_format, of 2] unfolding p by simp
  moreover have "\<not> 3 \<le> lev" using l(2) [rule_format, of 3] unfolding p by simp
  ultimately show ?thesis using l(1) by auto
qed

end
