(* ===== verification/Api_Process.thy ===== *)
theory Api_Process
  imports Hnsw_C Hnsw_Level
begin

text \<open>
  Processes that use the C interface: the calls of theory \<open>Hnsw_C\<close> as steps, what a caller owes
  (\<open>valid_call\<close>), and the states that valid calls reach. The level of an insertion is one that
  \<open>randomLevel\<close> can return for the index (\<open>drawn_call\<close>), whatever the generator draws and for any
  logarithm as accurate as the C library's.

  The result: no valid call is undefined, each keeps the invariant of every index in the process, and touches only the
  index it names.
\<close>

section \<open>Calls as steps of a process\<close>

datatype api_call =
    C_new int nat nat nat nat
  | C_free nat
  | C_add nat "f32 list option" "64 word" "64 word" int
  | C_search nat "f32 list option" nat nat "64 word list option" "64 word list option" "f32 list option"
  | C_mark nat "64 word" "64 word"
  | C_unmark nat "64 word" "64 word"
  | C_save nat "string option" device
  | C_load "nat \<Rightarrow> nat" "string option"

datatype api_ret = Handle nat | Code int | Answers int "c_out option" | Nothing

definition exec :: "bool \<Rightarrow> c_state \<Rightarrow> api_call \<Rightarrow> (api_ret \<times> c_state) option" where
  "exec avx s c =
     (case c of
        C_new space d n M efc \<Rightarrow> Some (map_prod Handle id (hnsw_new avx s space d n M efc))
      | C_free idx \<Rightarrow> map_option (Pair Nothing) (hnsw_free s idx)
      | C_add idx v cid lab level \<Rightarrow> map_option (map_prod Code id) (hnsw_add s idx v cid lab level)
      | C_search idx q k ef ids labels ds \<Rightarrow>
          map_option (\<lambda>(n, out, s'). (Answers n out, s')) (hnsw_search s idx q k ef ids labels ds)
      | C_mark idx cid lab \<Rightarrow> map_option (map_prod Code id) (hnsw_mark_deleted s idx cid lab)
      | C_unmark idx cid lab \<Rightarrow> map_option (map_prod Code id) (hnsw_unmark_deleted s idx cid lab)
      | C_save idx path dev \<Rightarrow> map_option (map_prod Code id) (hnsw_save s idx path dev)
      | C_load junk path \<Rightarrow> map_option (map_prod Handle id) (hnsw_load avx junk s path))"

text \<open>
  What a caller owes: live or null handles, buffers that are long enough or null, sizes that fit; no
  insertion into an index with \<open>M = 1\<close> (the constructor takes it, but drawing a level is undefined), and
  no load of a file that is not a complete snapshot (of a short one \<open>load\<close> uses uninitialised variables).
\<close>

definition live :: "c_state \<Rightarrow> nat \<Rightarrow> (index \<Rightarrow> bool) \<Rightarrow> bool" where
  "live s h P \<longleftrightarrow> h = 0 \<or> (\<exists>ix. cs_objs s h = Some ix \<and> P ix)"

definition buffer :: "nat \<Rightarrow> 'a list option \<Rightarrow> bool" where
  "buffer n b \<longleftrightarrow> (case b of None \<Rightarrow> True | Some xs \<Rightarrow> n \<le> length xs)"

definition complete :: "byte list \<Rightarrow> bool" where
  "complete bs \<longleftrightarrow> (\<exists>ix. obj_ok ix \<and> snapshot_bytes ix = Some bs)"

fun valid_call :: "c_state \<Rightarrow> api_call \<Rightarrow> bool" where
  "valid_call s (C_new space d n M efc) \<longleftrightarrow> n < 2 ^ 32 \<and> n * d * 4 < 2 ^ 64 \<and> M < 2 ^ 63 \<and> d < 2 ^ 64 \<and> efc < 2 ^ 64"
| "valid_call s (C_free h) \<longleftrightarrow> live s h (\<lambda>_. True)"
| "valid_call s (C_add h v cid lab level) \<longleftrightarrow> live s h (\<lambda>ix. buffer (ix_dim ix) v \<and> 2 \<le> ix_M ix)"
| "valid_call s (C_search h q k ef ids labels ds) \<longleftrightarrow>
     live s h (\<lambda>ix. buffer (ix_dim ix) q) \<and> buffer k ids \<and> buffer k labels \<and> buffer k ds"
| "valid_call s (C_mark h cid lab) \<longleftrightarrow> live s h (\<lambda>_. True)"
| "valid_call s (C_unmark h cid lab) \<longleftrightarrow> live s h (\<lambda>_. True)"
| "valid_call s (C_save h path dev) \<longleftrightarrow> live s h (\<lambda>_. True)"
| "valid_call s (C_load junk path) \<longleftrightarrow>
     (case path of None \<Rightarrow> True | Some p \<Rightarrow> (case cs_files s p of None \<Rightarrow> True | Some bs \<Rightarrow> complete bs))"

text \<open>What the caller does not control: the level is one that \<open>randomLevel\<close> returns for the index.\<close>

definition drawn_call :: "(real \<Rightarrow> real) \<Rightarrow> c_state \<Rightarrow> api_call \<Rightarrow> bool" where
  "drawn_call lg s c \<longleftrightarrow>
     (case c of C_add h v cid lab level \<Rightarrow> \<forall>ix. cs_objs s h = Some ix \<longrightarrow> drawn lg (ix_M ix) level | _ \<Rightarrow> True)"

fun target :: "api_call \<Rightarrow> nat" where
  "target (C_free h) = h"
| "target (C_add h v cid lab level) = h"
| "target (C_search h q k ef ids labels ds) = h"
| "target (C_mark h cid lab) = h"
| "target (C_unmark h cid lab) = h"
| "target _ = 0"

definition frame :: "api_call \<Rightarrow> c_state \<Rightarrow> c_state \<Rightarrow> bool" where
  "frame c s s' \<longleftrightarrow> cs_next s \<le> cs_next s' \<and> (\<forall>h ix. cs_objs s h = Some ix \<longrightarrow> h \<noteq> target c \<longrightarrow> cs_objs s' h = Some ix)"

definition safe :: "bool \<Rightarrow> c_state \<Rightarrow> api_call \<Rightarrow> bool" where
  "safe avx s c \<longleftrightarrow> (\<exists>r s'. exec avx s c = Some (r, s') \<and> c_inv s' \<and> frame c s s')"

lemma frame_update: "target c = h \<Longrightarrow> frame c s (s\<lparr>cs_objs := (cs_objs s)(h := o1)\<rparr>)"
  by (simp add: frame_def)

lemma frame_error [simp]: "frame c s (setError msg s') = frame c s s'"
  by (simp add: frame_def)

lemma frame_refl [simp]: "frame c s s"
  by (simp add: frame_def)

lemma frame_alloc: "c_inv s \<Longrightarrow> alloc s ix = (h, s') \<Longrightarrow> frame c s s'"
  by (fastforce simp: frame_def alloc_def c_inv_def)

section \<open>Every call is safe\<close>

lemma safe_new: "c_inv s \<Longrightarrow> valid_call s (C_new space d n M efc) \<Longrightarrow> safe avx s (C_new space d n M efc)"
proof -
  assume s: "c_inv s" and v: "valid_call s (C_new space d n M efc)"
  let ?sp = "if space = HNSW_SPACE_L2 then L2 else Cosine"
  have v': "n < 2 ^ 32" "n * d * 4 < 2 ^ 64" "M < 2 ^ 63" "d < 2 ^ 64" "efc < 2 ^ 64" using v by simp_all
  have nd: "n * d < 2 ^ 64" using v'(2) by linarith
  show ?thesis
  proof (cases "Index avx ?sp d n M efc")
    case (Inl e)
    then show ?thesis using s by (simp add: safe_def exec_def hnsw_new_def)
  next
    case (Inr ix)
    obtain h s' where a: "alloc s ix = (h, s')" by fastforce
    have "obj_ok ix" using Index_wf(1) [OF Inr v'(1) nd v'(3)] Index_typed [OF Inr _ v'(4,5,2)] by (simp add: obj_ok_def)
    then show ?thesis
      using Inr a c_inv_alloc [OF s _ a] frame_alloc [OF s a] by (simp add: safe_def exec_def hnsw_new_def)
  qed
qed

lemma safe_free: "c_inv s \<Longrightarrow> valid_call s (C_free h) \<Longrightarrow> safe avx s (C_free h)"
  by (auto simp: safe_def exec_def hnsw_free_def live_def cast_def frame_update c_inv_def)

lemma safe_add:
  assumes s: "c_inv s" and v: "valid_call s (C_add h v cid lab level)"
    and lg: "log_accurate lg" "drawn_call lg s (C_add h v cid lab level)"
  shows "safe avx s (C_add h v cid lab level)"
proof (cases "h = 0 \<or> v = None")
  case True
  then show ?thesis using s by (simp add: safe_def exec_def hnsw_add_def)
next
  case False
  then obtain x ix where x: "v = Some x" "cs_objs s h = Some ix" "ix_dim ix \<le> length x" "2 \<le> ix_M ix"
    using v by (auto simp: live_def buffer_def)
  have "drawn lg (ix_M ix) level" using lg(2) x(2) by (simp add: drawn_call_def)
  then have lv: "0 \<le> level" "level \<le> 2 ^ 24" using drawn_levels [OF lg(1), of "ix_M ix" level] x(4) by auto
  obtain r ix' where "call_on s h (\<lambda>ix. addPoint ix x (Label cid lab) level) = Some (r, s\<lparr>cs_objs := (cs_objs s)(h \<mapsto> ix')\<rparr>)"
    "c_inv (s\<lparr>cs_objs := (cs_objs s)(h \<mapsto> ix')\<rparr>)"
    by (rule add_m.call_ok [OF s x(2), where v = x and lab = "Label cid lab" and level = level]) (use x lv in auto)
  then show ?thesis
    using False x(1) frame_update [of "C_add h v cid lab level" h s "Some ix'"]
    by (cases r) (simp_all add: safe_def exec_def hnsw_add_def)
qed

lemma safe_search:
  assumes s: "c_inv s" and v: "valid_call s (C_search h q k ef ids labels ds)"
  shows "safe avx s (C_search h q k ef ids labels ds)"
proof (cases "h = 0 \<or> q = None \<or> ids = None \<or> labels = None \<or> ds = None")
  case True
  then show ?thesis using s by (simp add: safe_def exec_def hnsw_search_def)
next
  case False
  then obtain x ix a b c where x: "q = Some x" "cs_objs s h = Some ix" "ix_dim ix \<le> length x" "ids = Some a" "labels = Some b"
    "ds = Some c" "k \<le> length a" "k \<le> length b" "k \<le> length c" using v by (auto simp: live_def buffer_def)
  obtain res ix' where r: "search ix x k ef = Some (res, ix')"
    "call_on s h (\<lambda>ix. search ix x k ef) = Some (res, s\<lparr>cs_objs := (cs_objs s)(h \<mapsto> ix')\<rparr>)"
    "c_inv (s\<lparr>cs_objs := (cs_objs s)(h \<mapsto> ix')\<rparr>)"
    by (rule search_m.call_ok [OF s x(2), where q = x and k = k and ef = ef]) (use x in auto)
  have "length res \<le> k"
    using search_spec [of ix x k ef] c_inv_live [OF s x(2)] x(3) r(1) by (auto simp: answers_ok_def)
  then have "\<exists>out. foldM (put_result res) \<lparr>out_client_ids = a, out_labels = b, out_distances = c\<rparr> [0..<length res] = Some out"
    using put_results [of res "\<lparr>out_client_ids = a, out_labels = b, out_distances = c\<rparr>"] x(7-9) by simp
  then show ?thesis
    using False x r(2,3) frame_update [of "C_search h q k ef ids labels ds" h s "Some ix'"]
    by (auto simp: safe_def exec_def hnsw_search_def)
qed

lemma safe_mark:
  assumes s: "c_inv s" and v: "live s h (\<lambda>_. True)"
  shows "safe avx s (C_mark h cid lab)" "safe avx s (C_unmark h cid lab)"
proof -
  have "safe avx s (C_mark h cid lab) \<and> safe avx s (C_unmark h cid lab)"
  proof (cases "h = 0")
    case True
    then show ?thesis using s by (simp add: safe_def exec_def hnsw_mark_deleted_def hnsw_unmark_deleted_def)
  next
    case False
    then obtain ix where x: "cs_objs s h = Some ix" using v by (auto simp: live_def)
    obtain b ix' where 1: "call_on s h (\<lambda>ix. markDeleted ix (Label cid lab)) = Some (b, s\<lparr>cs_objs := (cs_objs s)(h \<mapsto> ix')\<rparr>)"
      "c_inv (s\<lparr>cs_objs := (cs_objs s)(h \<mapsto> ix')\<rparr>)"
      by (rule mark_m.call_ok [OF s x, where lab = "Label cid lab"]) auto
    obtain b2 ix2 where 2: "call_on s h (\<lambda>ix. unmarkDeleted ix (Label cid lab)) = Some (b2, s\<lparr>cs_objs := (cs_objs s)(h \<mapsto> ix2)\<rparr>)"
      "c_inv (s\<lparr>cs_objs := (cs_objs s)(h \<mapsto> ix2)\<rparr>)"
      by (rule unmark_m.call_ok [OF s x, where lab = "Label cid lab"]) auto
    show ?thesis
      using False 1 2 frame_update [of "C_mark h cid lab" h s "Some ix'"] frame_update [of "C_unmark h cid lab" h s "Some ix2"]
      by (simp add: safe_def exec_def hnsw_mark_deleted_def hnsw_unmark_deleted_def)
  qed
  then show "safe avx s (C_mark h cid lab)" "safe avx s (C_unmark h cid lab)" by simp_all
qed

lemma safe_save:
  assumes s: "c_inv s" and v: "valid_call s (C_save h path dev)"
  shows "safe avx s (C_save h path dev)"
proof (cases "h = 0 \<or> path = None")
  case True
  then show ?thesis using s by (simp add: safe_def exec_def hnsw_save_def)
next
  case False
  then obtain p ix where x: "path = Some p" "cs_objs s h = Some ix" using v by (auto simp: live_def)
  have "wf_ix ix" using c_inv_live [OF s x(2)] by simp
  then obtain bs where bs: "snapshot_bytes ix = Some bs" using snapshot_bytes_wf by blast
  show ?thesis
    using False x bs s by (auto simp: safe_def exec_def hnsw_save_def cast_def save_def frame_def)
qed

lemma load_complete:
  assumes "complete bs"
  shows "\<exists>ix. load avx junk p (Some bs) = Some (Inr ix) \<and> obj_ok ix"
proof -
  obtain ix where i: "obj_ok ix" "snapshot_bytes ix = Some bs" using assms by (auto simp: complete_def)
  have w: "wf_ix ix" "typed ix" using i(1) by (simp_all add: obj_ok_def)
  have "obj_ok (reloaded avx ix)" using wf_reloaded [OF w(1)] w(2)
    by (simp add: obj_ok_def reloaded_def typed_def links_fit_def link_words_def)
  then show ?thesis using load_roundtrip [OF w i(2)] by blast
qed

lemma safe_load:
  assumes s: "c_inv s" and v: "valid_call s (C_load junk path)"
  shows "safe avx s (C_load junk path)"
proof (cases path)
  case None
  then show ?thesis using s by (simp add: safe_def exec_def hnsw_load_def)
next
  case (Some p)
  consider (none) "cs_files s p = None" | (ok) ix where "load avx junk p (cs_files s p) = Some (Inr ix)" "obj_ok ix"
    using v Some load_complete [of _ avx junk p] by (cases "cs_files s p") auto
  then show ?thesis
  proof cases
    case none
    then show ?thesis using s Some by (simp add: safe_def exec_def hnsw_load_def load_def)
  next
    case ok
    obtain h s' where a: "alloc s ix = (h, s')" by fastforce
    show ?thesis using ok a Some c_inv_alloc [OF s ok(2) a] frame_alloc [OF s a] by (simp add: safe_def exec_def hnsw_load_def)
  qed
qed

lemmas safe_calls = safe_new safe_free safe_search safe_mark safe_save safe_load

text \<open>The states a process can reach with valid calls.\<close>

inductive c_reach :: "(real \<Rightarrow> real) \<Rightarrow> bool \<Rightarrow> c_state \<Rightarrow> bool" for lg :: "real \<Rightarrow> real" and avx :: bool where
  c_reach_init: "c_reach lg avx c_init"
| c_reach_call: "c_reach lg avx s \<Longrightarrow> valid_call s c \<Longrightarrow> drawn_call lg s c \<Longrightarrow> exec avx s c = Some (r, s') \<Longrightarrow> c_reach lg avx s'"

lemma c_inv_safe: "log_accurate lg \<Longrightarrow> c_inv s \<Longrightarrow> valid_call s c \<Longrightarrow> drawn_call lg s c \<Longrightarrow> safe avx s c"
  by (cases c) (auto simp: safe_calls simp del: valid_call.simps intro: safe_add safe_calls(4,5) simp: valid_call.simps(5,6))

lemma c_reach_inv:
  assumes "log_accurate lg" shows "c_reach lg avx s \<Longrightarrow> c_inv s"
proof (induction rule: c_reach.induct)
  case c_reach_init
  show ?case by (rule c_inv_init)
next
  case (c_reach_call s c r s')
  then show ?case using c_inv_safe [OF assms, of s c avx] by (auto simp: safe_def)
qed

section \<open>The property\<close>

text \<open>
  C9: In every state a process reaches by valid calls, every live index satisfies the class invariant, and
  a further valid call returns, keeps this so, and leaves every other live index as it is. A call is valid if its
  handle is live or null, its buffers are long enough or null and its sizes fit; it does not add to an index that was
  made with \<open>M = 1\<close>, and does not load a file that is not a complete snapshot. The levels are any that
  \<open>randomLevel\<close> draws, for any logarithm as accurate as the C library's.
\<close>

theorem api_safe:
  assumes "log_accurate lg" "c_reach lg avx s" "valid_call s c" "drawn_call lg s c"
  shows "(\<forall>h ix. cs_objs s h = Some ix \<longrightarrow> wf_ix ix) \<and>
    (\<exists>r s'. exec avx s c = Some (r, s') \<and> c_reach lg avx s' \<and>
      (\<forall>h ix. cs_objs s h = Some ix \<longrightarrow> h \<noteq> target c \<longrightarrow> cs_objs s' h = Some ix))"
  using c_inv_safe [OF assms(1) c_reach_inv [OF assms(1,2)] assms(3,4), of avx] c_reach_call [OF assms(2-4)]
    c_inv_live [OF c_reach_inv [OF assms(1,2)]]
  by (auto simp: safe_def frame_def)

theorem api_safe_witness:
  "\<exists>s level r s'. hnsw_new False c_init 1 1 3 2 2 = (1, s) \<and> drawn (\<lambda>x. f64 (ln x)) 2 level \<and>
     exec False s (C_add 1 (Some [1]) 1 7 level) = Some (r, s') \<and> c_reach (\<lambda>x. f64 (ln x)) False s'"
proof -
  let ?lg = "\<lambda>x. f64 (ln x)"
  obtain ix where ix: "Index False L2 1 3 2 2 = Inr ix" using ex_empty_Index by blast
  let ?s = "snd (alloc c_init ix)"
  have n: "hnsw_new False c_init 1 1 3 2 2 = (1, ?s)" using ix by (simp add: hnsw_new_def alloc_def c_init_def HNSW_SPACE_L2_def)
  have f: "ix_dim ix = 1" "ix_M ix = 2" using ix by (auto simp: Index_def Let_def split: if_splits)
  have r: "c_reach ?lg False ?s"
    by (rule c_reach_call [OF c_reach_init, where c = "C_new 1 1 3 2 2"]) (simp_all add: drawn_call_def exec_def n [simplified])
  have d: "draw (1 / 2)" by (simp add: draw_def)
  obtain level where l: "drawn ?lg 2 level"
    using randomLevel_levels [OF log_accurate_rounded, of 2 "1 / 2"] d by (auto simp: drawn_def)
  have o: "cs_objs ?s = [1 \<mapsto> ix]" by (simp add: alloc_def c_init_def)
  show ?thesis
    using api_safe [OF log_accurate_rounded r, of "C_add 1 (Some [1]) 1 7 level"] l n f
    by (auto simp: o drawn_call_def live_def buffer_def)
qed

end
