(* ===== verification/Concurrent.thy ===== *)
theory Concurrent
  imports Hnsw_Snapshot
begin

text \<open>
  Concurrent insertions, as the writers of \<open>src/stress.cpp\<close> and \<open>src/snapshot_race.cpp\<close> run them: each
  thread draws call numbers with an atomic counter and calls \<open>addPoint\<close> of \<open>include/hnsw.hpp\<close>.
  A step of a thread is what it does under one lock or in one atomic operation: the duplicate check under
  \<open>labelLock_\<close>, \<open>fetch_add\<close> and \<open>fetch_sub\<close> on \<open>count_\<close>, the writes to its own slot, the
  registration of the label, the probe of the entry point, taking \<open>entryLock_\<close> shared or exclusive,
  and the update of the entry point before the lock is released. The linking between the last two changes
  adjacency lists only, under the lock of each list, and is not part of this state: a thread is at
  \<open>Link\<close> while it links. Theory \<open>Link_Locks\<close> adds the locks that it takes meanwhile, and what linking
  computes in a single thread is the subject of \<open>Hnsw_Build\<close>. The level and the vector of a call are parameters. A
  thread whose call throws stops (\<open>Thrown\<close>): its caller catches the exception. The writers of
  \<open>src/stress.cpp\<close> do not, and an exception would end the process; none of their calls throws.

  The results: slots are never shared, the entry point always belongs to the highest finished level, no
  schedule blocks or runs forever, and the writers insert every vector exactly once. Two threads that add
  the same label can both succeed.
\<close>

section \<open>Threads and shared state\<close>

record calls =
  cl_total :: nat
  cl_max :: nat
  cl_label :: "nat \<Rightarrow> label"
  cl_vec :: "nat \<Rightarrow> f32 list"
  cl_level :: "nat \<Rightarrow> int"

text \<open>Where a thread is: the number of its call, the id it got, and whether it asks for the exclusive lock.\<close>

datatype pc =
    Take
  | Check nat
  | Alloc nat
  | Undo nat
  | Fill nat nat
  | Register nat nat
  | Set_Level nat nat
  | Probe nat nat
  | Acquire nat nat bool
  | Link nat nat bool nat int
  | Finished
  | Thrown nat

text \<open>
  \<open>cs_rows\<close> are the blocks of \<open>data_\<close>; \<open>cs_owner\<close> is a history, the number of the call that got
  each j.
\<close>

record cstate =
  cs_next :: nat
  cs_count :: nat
  cs_rows :: "f32 list list"
  cs_labels :: "label list"
  cs_deleted :: "8 word list"
  cs_levels :: "int list"
  cs_labelToId :: "label \<Rightarrow> nat option"
  cs_entryPoint :: nat
  cs_maxLevel :: int
  cs_readers :: "nat set"
  cs_writer :: "nat option"
  cs_pc :: "nat \<Rightarrow> pc"
  cs_owner :: "nat list"

definition goto :: "nat \<Rightarrow> pc \<Rightarrow> cstate \<Rightarrow> cstate" where
  "goto t p s = s\<lparr>cs_pc := (cs_pc s)(t := p)\<rparr>"

text \<open>One step of thread \<open>t\<close>; \<open>None\<close> if it has ended or has to wait.\<close>

definition take_call :: "calls \<Rightarrow> nat \<Rightarrow> cstate \<Rightarrow> cstate" where
  "take_call c t s =
     (let i = cs_next s in goto t (if i < cl_total c then Check i else Finished) (s\<lparr>cs_next := i + 1\<rparr>))"

definition check_label :: "calls \<Rightarrow> nat \<Rightarrow> nat \<Rightarrow> cstate \<Rightarrow> cstate" where
  "check_label c t i s = goto t (if cs_labelToId s (cl_label c i) = None then Alloc i else Thrown i) s"

definition alloc_id :: "calls \<Rightarrow> nat \<Rightarrow> nat \<Rightarrow> cstate \<Rightarrow> cstate" where
  "alloc_id c t i s =
     (let j = cs_count s mod 2 ^ 32; s1 = s\<lparr>cs_count := cs_count s + 1\<rparr>
      in if cl_max c \<le> j then goto t (Undo i) s1 else goto t (Fill i j) (s1\<lparr>cs_owner := cs_owner s @ [i]\<rparr>))"

definition undo_alloc :: "nat \<Rightarrow> nat \<Rightarrow> cstate \<Rightarrow> cstate" where
  "undo_alloc t i s = goto t (Thrown i) (s\<lparr>cs_count := cs_count s - 1\<rparr>)"

definition fill_slot :: "calls \<Rightarrow> nat \<Rightarrow> nat \<Rightarrow> nat \<Rightarrow> cstate \<Rightarrow> cstate" where
  "fill_slot c t i j s =
     goto t (Register i j) (s\<lparr>cs_rows := (cs_rows s)[j := cl_vec c i], cs_labels := (cs_labels s)[j := cl_label c i],
       cs_deleted := (cs_deleted s)[j := 0]\<rparr>)"

definition register_label :: "calls \<Rightarrow> nat \<Rightarrow> nat \<Rightarrow> nat \<Rightarrow> cstate \<Rightarrow> cstate" where
  "register_label c t i j s =
     goto t (Set_Level i j) (s\<lparr>cs_labelToId := (cs_labelToId s)(cl_label c i \<mapsto> j)\<rparr>)"

definition set_level :: "calls \<Rightarrow> nat \<Rightarrow> nat \<Rightarrow> nat \<Rightarrow> cstate \<Rightarrow> cstate" where
  "set_level c t i j s = goto t (Probe i j) (s\<lparr>cs_levels := (cs_levels s)[j := cl_level c i]\<rparr>)"

definition probe_entry :: "calls \<Rightarrow> nat \<Rightarrow> nat \<Rightarrow> nat \<Rightarrow> cstate \<Rightarrow> cstate option" where
  "probe_entry c t i j s =
     (if cs_writer s = None
      then Some (goto t (Acquire i j (cs_entryPoint s = kNone \<or> cs_maxLevel s < cl_level c i)) s) else None)"

definition acquire_entry :: "nat \<Rightarrow> nat \<Rightarrow> nat \<Rightarrow> bool \<Rightarrow> cstate \<Rightarrow> cstate option" where
  "acquire_entry t i j becomesEntry s =
     (let p = Link i j becomesEntry (cs_entryPoint s) (cs_maxLevel s)
      in if becomesEntry
         then (if cs_writer s = None \<and> cs_readers s = {} then Some (goto t p (s\<lparr>cs_writer := Some t\<rparr>)) else None)
         else (if cs_writer s = None then Some (goto t p (s\<lparr>cs_readers := insert t (cs_readers s)\<rparr>)) else None))"

definition finish_add :: "calls \<Rightarrow> nat \<Rightarrow> nat \<Rightarrow> nat \<Rightarrow> bool \<Rightarrow> nat \<Rightarrow> int \<Rightarrow> cstate \<Rightarrow> cstate" where
  "finish_add c t i j becomesEntry curEntry curMaxLevel s =
     (let s1 = (if curEntry = kNone \<or> curMaxLevel < cl_level c i
                then s\<lparr>cs_entryPoint := j, cs_maxLevel := cl_level c i\<rparr> else s)
      in goto t Take (if becomesEntry then s1\<lparr>cs_writer := None\<rparr> else s1\<lparr>cs_readers := cs_readers s - {t}\<rparr>))"

definition thread_step :: "calls \<Rightarrow> nat \<Rightarrow> cstate \<Rightarrow> cstate option" where
  "thread_step c t s =
     (case cs_pc s t of
        Take \<Rightarrow> Some (take_call c t s)
      | Check i \<Rightarrow> Some (check_label c t i s)
      | Alloc i \<Rightarrow> Some (alloc_id c t i s)
      | Undo i \<Rightarrow> Some (undo_alloc t i s)
      | Fill i j \<Rightarrow> Some (fill_slot c t i j s)
      | Register i j \<Rightarrow> Some (register_label c t i j s)
      | Set_Level i j \<Rightarrow> Some (set_level c t i j s)
      | Probe i j \<Rightarrow> probe_entry c t i j s
      | Acquire i j b \<Rightarrow> acquire_entry t i j b s
      | Link i j b e m \<Rightarrow> Some (finish_add c t i j b e m s)
      | Finished \<Rightarrow> None
      | Thrown i \<Rightarrow> None)"

text \<open>A fresh index and \<open>T\<close> threads that have not begun.\<close>

definition start :: "calls \<Rightarrow> nat \<Rightarrow> cstate" where
  "start c T = \<lparr>cs_next = 0, cs_count = 0, cs_rows = replicate (cl_max c) [], cs_labels = replicate (cl_max c) (Label 0 0),
     cs_deleted = replicate (cl_max c) 0, cs_levels = replicate (cl_max c) 0, cs_labelToId = Map.empty, cs_entryPoint = kNone, cs_maxLevel = 0,
     cs_readers = {}, cs_writer = None, cs_pc = (\<lambda>t. if t < T then Take else Finished), cs_owner = []\<rparr>"

inductive reach :: "calls \<Rightarrow> nat \<Rightarrow> nat \<Rightarrow> cstate \<Rightarrow> bool" for c T where
  reach_start: "reach c T 0 (start c T)"
| reach_step: "reach c T n s \<Longrightarrow> t < T \<Longrightarrow> thread_step c t s = Some s' \<Longrightarrow> reach c T (Suc n) s'"

definition ended :: "nat \<Rightarrow> cstate \<Rightarrow> bool" where
  "ended T s \<longleftrightarrow> (\<forall>t < T. cs_pc s t = Finished \<or> (\<exists>i. cs_pc s t = Thrown i))"

lemmas step_defs = take_call_def check_label_def alloc_id_def undo_alloc_def fill_slot_def register_label_def set_level_def
  probe_entry_def acquire_entry_def finish_add_def goto_def Let_def

section \<open>What the threads hold\<close>

fun call_of :: "pc \<Rightarrow> nat option" where
  "call_of (Check i) = Some i" | "call_of (Alloc i) = Some i" | "call_of (Undo i) = Some i" | "call_of (Thrown i) = Some i"
| "call_of (Fill i j) = Some i" | "call_of (Register i j) = Some i" | "call_of (Set_Level i j) = Some i"
| "call_of (Probe i j) = Some i" | "call_of (Acquire i j b) = Some i" | "call_of (Link i j b e m) = Some i"
| "call_of p = None"

fun id_of :: "pc \<Rightarrow> nat option" where
  "id_of (Fill i j) = Some j" | "id_of (Register i j) = Some j" | "id_of (Set_Level i j) = Some j"
| "id_of (Probe i j) = Some j" | "id_of (Acquire i j b) = Some j" | "id_of (Link i j b e m) = Some j"
| "id_of p = None"

definition undoing :: "cstate \<Rightarrow> nat set" where
  "undoing s = {t. \<exists>i. cs_pc s t = Undo i}"

definition in_thread :: "cstate \<Rightarrow> nat set" where
  "in_thread s = {i. \<exists>t. call_of (cs_pc s t) = Some i}"

text \<open>
  Call numbers. Each is drawn once; it is in a thread, owns an id, or both.
\<close>

definition calls_ok :: "calls \<Rightarrow> nat \<Rightarrow> cstate \<Rightarrow> bool" where
  "calls_ok c T s \<longleftrightarrow>
     (\<forall>t. T \<le> t \<longrightarrow> cs_pc s t = Finished) \<and>
     (\<forall>t < T. cs_pc s t = Finished \<longrightarrow> cl_total c < cs_next s) \<and>
     (\<forall>t i. call_of (cs_pc s t) = Some i \<longrightarrow> i < cs_next s \<and> i < cl_total c) \<and>
     (\<forall>i \<in> set (cs_owner s). i < cs_next s \<and> i < cl_total c) \<and>
     (\<forall>t u i. call_of (cs_pc s t) = Some i \<and> call_of (cs_pc s u) = Some i \<longrightarrow> t = u) \<and>
     (\<forall>i. i < cs_next s \<and> i < cl_total c \<longrightarrow> i \<in> set (cs_owner s) \<union> in_thread s)"

text \<open>Ids. Each is given to one call, and the thread of that call holds it.\<close>

definition slots_ok :: "calls \<Rightarrow> cstate \<Rightarrow> bool" where
  "slots_ok c s \<longleftrightarrow> distinct (cs_owner s) \<and> length (cs_owner s) \<le> cl_max c \<and>
     (\<forall>t j. id_of (cs_pc s t) = Some j \<longrightarrow> j < length (cs_owner s) \<and> call_of (cs_pc s t) = Some (cs_owner s ! j)) \<and>
     (\<forall>t i. call_of (cs_pc s t) = Some i \<and> id_of (cs_pc s t) = None \<longrightarrow> i \<notin> set (cs_owner s))"

text \<open>
  The counter. A thread that has to give back what it drew exists only when the index is full, so the ids
  that are kept are consecutive.
\<close>

definition count_ok :: "calls \<Rightarrow> cstate \<Rightarrow> bool" where
  "count_ok c s \<longleftrightarrow> cs_count s = length (cs_owner s) + card (undoing s) \<and>
     (undoing s \<noteq> {} \<longrightarrow> length (cs_owner s) = cl_max c)"

definition ids_ok :: "calls \<Rightarrow> nat \<Rightarrow> cstate \<Rightarrow> bool" where
  "ids_ok c T s \<longleftrightarrow> calls_ok c T s \<and> slots_ok c s \<and> count_ok c s"

lemma id_call: "id_of p = Some j \<Longrightarrow> \<exists>i. call_of p = Some i"
  by (cases p) auto

lemma undoing_goto [simp]: "undoing (goto t p s) = (if \<exists>i. p = Undo i then insert t (undoing s) else undoing s - {t})"
  by (auto simp: undoing_def goto_def)

lemma undoing_cong [simp]:
  "undoing (s\<lparr>cs_next := a\<rparr>) = undoing s" "undoing (s\<lparr>cs_count := b\<rparr>) = undoing s" "undoing (s\<lparr>cs_owner := d\<rparr>) = undoing s"
  "undoing (s\<lparr>cs_rows := e\<rparr>) = undoing s" "undoing (s\<lparr>cs_labels := f\<rparr>) = undoing s" "undoing (s\<lparr>cs_deleted := q\<rparr>) = undoing s" "undoing (s\<lparr>cs_levels := g\<rparr>) = undoing s"
  "undoing (s\<lparr>cs_labelToId := h\<rparr>) = undoing s" "undoing (s\<lparr>cs_entryPoint := k\<rparr>) = undoing s" "undoing (s\<lparr>cs_maxLevel := l\<rparr>) = undoing s"
  "undoing (s\<lparr>cs_readers := m\<rparr>) = undoing s" "undoing (s\<lparr>cs_writer := n\<rparr>) = undoing s"
  by (simp_all add: undoing_def)

lemma undoing_threads: "calls_ok c T s \<Longrightarrow> undoing s \<subseteq> {..<T}"
proof
  fix t assume "calls_ok c T s" "t \<in> undoing s"
  then have "\<not> T \<le> t" by (auto simp: calls_ok_def undoing_def)
  then show "t \<in> {..<T}" by simp
qed

lemma undoing_finite: "calls_ok c T s \<Longrightarrow> finite (undoing s)"
  by (rule finite_subset [OF undoing_threads]) simp_all

lemma in_thread_step:
  "in_thread s - set_option (call_of (cs_pc s t)) \<subseteq> in_thread (s\<lparr>cs_pc := (cs_pc s)(t := p)\<rparr>)"
  "i \<in> set_option (call_of p) \<Longrightarrow> i \<in> in_thread (s\<lparr>cs_pc := (cs_pc s)(t := p)\<rparr>)"
  by (auto simp: in_thread_def)

lemma in_thread_cong [simp]:
  "in_thread (s\<lparr>cs_next := a\<rparr>) = in_thread s" "in_thread (s\<lparr>cs_count := b\<rparr>) = in_thread s" "in_thread (s\<lparr>cs_owner := d\<rparr>) = in_thread s"
  "in_thread (s\<lparr>cs_readers := m\<rparr>) = in_thread s" "in_thread (s\<lparr>cs_writer := n\<rparr>) = in_thread s"
  "in_thread (s\<lparr>cs_entryPoint := k\<rparr>) = in_thread s" "in_thread (s\<lparr>cs_maxLevel := l\<rparr>) = in_thread s"
  by (simp_all add: in_thread_def)

text \<open>Steps that leave the counters alone and keep the call and the id of the thread.\<close>

definition quiet :: "cstate \<Rightarrow> cstate \<Rightarrow> bool" where
  "quiet s s' \<longleftrightarrow> cs_next s' = cs_next s \<and> cs_count s' = cs_count s \<and> cs_owner s' = cs_owner s \<and> undoing s' = undoing s \<and>
     call_of \<circ> cs_pc s' = call_of \<circ> cs_pc s \<and> id_of \<circ> cs_pc s' = id_of \<circ> cs_pc s \<and>
     (\<forall>u. cs_pc s' u = Finished \<longleftrightarrow> cs_pc s u = Finished)"

lemma quiet_ids:
  assumes "quiet s s'" "ids_ok c T s"
  shows "ids_ok c T s'"
proof -
  have "call_of (cs_pc s' u) = call_of (cs_pc s u)" "id_of (cs_pc s' u) = id_of (cs_pc s u)" for u
    using assms(1) unfolding quiet_def by (metis comp_apply)+
  then show ?thesis using assms unfolding quiet_def ids_ok_def calls_ok_def slots_ok_def count_ok_def in_thread_def by simp
qed

lemma take_ids:
  assumes ok: "ids_ok c T s" and t: "t < T" "cs_pc s t = Take"
  shows "ids_ok c T (take_call c t s)"
proof -
  let ?s = "take_call c t s"
  have u: "undoing ?s = undoing s" using t(2) by (auto simp: take_call_def Let_def undoing_def goto_def)
  let ?n = "s\<lparr>cs_next := cs_next s + 1\<rparr>" and ?p = "if cs_next s < cl_total c then Check (cs_next s) else Finished"
  have s: "?s = ?n\<lparr>cs_pc := (cs_pc ?n)(t := ?p)\<rparr>" by (simp add: step_defs)
  have "in_thread s \<subseteq> in_thread ?s" "cs_next s < cl_total c \<Longrightarrow> cs_next s \<in> in_thread ?s"
    unfolding s using in_thread_step(1) [of ?n t ?p] in_thread_step(2) [of "cs_next s" ?p ?n t] t(2) by simp_all
  then have "calls_ok c T ?s"
    using ok t unfolding ids_ok_def calls_ok_def by (auto simp: step_defs less_Suc_eq)
  moreover have "slots_ok c ?s"
    using ok t unfolding ids_ok_def slots_ok_def calls_ok_def by (auto simp: step_defs)
  moreover have "count_ok c ?s"
    using ok u unfolding ids_ok_def count_ok_def by (simp add: step_defs)
  ultimately show ?thesis by (simp add: ids_ok_def)
qed

lemma slotsD:
  assumes "slots_ok c s" "id_of (cs_pc s t) = Some j"
  shows "j < length (cs_owner s)" "call_of (cs_pc s t) = Some (cs_owner s ! j)" "the (call_of (cs_pc s t)) \<in> set (cs_owner s)"
  using assms unfolding slots_ok_def by (metis nth_mem option.sel)+

lemma callsD: "calls_ok c T s \<Longrightarrow> call_of (cs_pc s t) = Some i \<Longrightarrow> i < cs_next s \<and> i < cl_total c"
  unfolding calls_ok_def by blast

lemma call_unique: "calls_ok c T s \<Longrightarrow> call_of (cs_pc s t) = Some i \<Longrightarrow> call_of (cs_pc s u) = Some i \<Longrightarrow> t = u"
  unfolding calls_ok_def by blast

lemma fresh_call: "slots_ok c s \<Longrightarrow> call_of (cs_pc s t) = Some i \<Longrightarrow> id_of (cs_pc s t) = None \<Longrightarrow> i \<notin> set (cs_owner s)"
  unfolding slots_ok_def by blast

lemma count_bound:
  assumes "ids_ok c T s" "t < T" "t \<notin> undoing s" "cl_max c + T \<le> 2 ^ 32"
  shows "cs_count s mod 2 ^ 32 = cs_count s" "cs_count s < 2 ^ 32"
proof -
  have "undoing s \<subseteq> {..<T} - {t}" using undoing_threads assms(1,3) by (auto simp: ids_ok_def)
  then have "card (undoing s) \<le> card ({..<T} - {t})" by (intro card_mono) auto
  then have "card (undoing s) < T" using assms(2) by simp
  then show "cs_count s < 2 ^ 32" using assms(1,4) by (simp add: ids_ok_def count_ok_def slots_ok_def)
  then show "cs_count s mod 2 ^ 32 = cs_count s" by simp
qed

lemma alloc_ids:
  assumes ok: "ids_ok c T s" and t: "t < T" "cs_pc s t = Alloc i" and m: "cl_max c + T \<le> 2 ^ 32"
  shows "ids_ok c T (alloc_id c t i s)" "alloc_id c t i s = (if cs_count s < cl_max c
      then goto t (Fill i (length (cs_owner s))) (s\<lparr>cs_count := cs_count s + 1, cs_owner := cs_owner s @ [i]\<rparr>)
      else goto t (Undo i) (s\<lparr>cs_count := cs_count s + 1\<rparr>))"
proof -
  let ?s = "alloc_id c t i s"
  have k: "calls_ok c T s" "slots_ok c s" "count_ok c s" using ok by (simp_all add: ids_ok_def)
  have u: "t \<notin> undoing s" using t(2) by (simp add: undoing_def)
  note cb = count_bound [OF ok t(1) u m]
  have full: "undoing s = {} \<and> cs_count s = length (cs_owner s)" if "cs_count s < cl_max c"
    using k(3) that by (auto simp: count_ok_def)
  then show eq: "?s = (if cs_count s < cl_max c
      then goto t (Fill i (length (cs_owner s))) (s\<lparr>cs_count := cs_count s + 1, cs_owner := cs_owner s @ [i]\<rparr>)
      else goto t (Undo i) (s\<lparr>cs_count := cs_count s + 1\<rparr>))"
    unfolding alloc_id_def cb(1) Let_def by auto
  have same: "call_of (cs_pc ?s v) = call_of (cs_pc s v)" for v using t(2) by (simp add: eq goto_def)
  have i: "i < cs_next s" "i < cl_total c" "i \<notin> set (cs_owner s)"
    using callsD [OF k(1), of t] fresh_call [OF k(2), of t] t(2) by simp_all
  have "in_thread ?s = in_thread s" by (simp add: in_thread_def same)
  then have "calls_ok c T ?s"
    using k(1) i t unfolding calls_ok_def same by (auto simp: eq goto_def)
  moreover have "v = t" if "call_of (cs_pc s v) = Some i" for v using call_unique [OF k(1) that, of t] t(2) by simp
  then have "slots_ok c ?s"
    using k(2) i(3) t(2) full unfolding slots_ok_def same by (auto simp: eq goto_def nth_append less_Suc_eq)
  moreover have "undoing ?s = (if cs_count s < cl_max c then undoing s else insert t (undoing s))" using u by (simp add: eq)
  moreover have "cs_count ?s = cs_count s + 1" "cs_owner ?s = (if cs_count s < cl_max c then cs_owner s @ [i] else cs_owner s)"
    by (simp_all add: eq goto_def)
  moreover have "length (cs_owner s) \<le> cl_max c" "card (insert t (undoing s)) = Suc (card (undoing s))"
    using k(2) u undoing_finite [OF k(1)] by (simp_all add: slots_ok_def)
  ultimately show "ids_ok c T ?s" using k(3) full by (auto simp: ids_ok_def count_ok_def)
qed

lemma undo_ids:
  assumes ok: "ids_ok c T s" and t: "cs_pc s t = Undo i"
  shows "ids_ok c T (undo_alloc t i s)"
proof -
  let ?s = "undo_alloc t i s"
  have k: "calls_ok c T s" "slots_ok c s" "count_ok c s" using ok by (simp_all add: ids_ok_def)
  have u: "t \<in> undoing s" using t by (simp add: undoing_def)
  have v: "call_of (cs_pc ?s v) = call_of (cs_pc s v)" "id_of (cs_pc ?s v) = id_of (cs_pc s v)"
    "cs_pc ?s v = Finished \<longleftrightarrow> cs_pc s v = Finished" for v using t by (simp_all add: step_defs)
  have c: "calls_ok c T ?s" "slots_ok c ?s" using k(1,2) unfolding calls_ok_def slots_ok_def in_thread_def v by (simp_all add: step_defs)
  have "undoing ?s = undoing s - {t}" by (simp add: undo_alloc_def)
  moreover have "0 < card (undoing s)" "card (undoing s - {t}) = card (undoing s) - 1"
    using u undoing_finite [OF k(1)] by (auto simp: card_gt_0_iff)
  moreover have "cs_count ?s = cs_count s - 1" "cs_owner ?s = cs_owner s" by (simp_all add: step_defs)
  ultimately have "count_ok c ?s" using k(3) u by (auto simp: count_ok_def)
  then show ?thesis using c by (simp add: ids_ok_def)
qed

lemma finish_ids:
  assumes ok: "ids_ok c T s" and t: "t < T" "cs_pc s t = Link i j b e m"
  shows "ids_ok c T (finish_add c t i j b e m s)"
proof -
  let ?s = "finish_add c t i j b e m s"
  have k: "calls_ok c T s" "slots_ok c s" "count_ok c s" using ok by (simp_all add: ids_ok_def)
  have p: "cs_pc ?s = (cs_pc s)(t := Take)" "cs_owner ?s = cs_owner s" "cs_next ?s = cs_next s" "cs_count ?s = cs_count s"
    by (simp_all add: step_defs)
  have "undoing ?s = undoing s" using t(2) by (auto simp: undoing_def p)
  moreover have "i \<in> set (cs_owner s)" using slotsD [OF k(2), of t j] t(2) by simp
  moreover have "in_thread s - {i} \<subseteq> in_thread ?s"
  proof
    fix x assume x: "x \<in> in_thread s - {i}"
    then obtain u where "call_of (cs_pc s u) = Some x" by (auto simp: in_thread_def)
    moreover from this have "u \<noteq> t" using t(2) x by auto
    ultimately show "x \<in> in_thread ?s" by (auto simp: in_thread_def p)
  qed
  moreover have "in_thread ?s \<subseteq> in_thread s" by (auto simp: in_thread_def p split: if_splits)
  ultimately have "undoing ?s = undoing s" "set (cs_owner s) \<union> in_thread ?s = set (cs_owner s) \<union> in_thread s" by blast+
  then show ?thesis
    using k t unfolding ids_ok_def calls_ok_def slots_ok_def count_ok_def p by simp
qed

lemma step_ids:
  assumes ok: "ids_ok c T s" and t: "t < T" and m: "cl_max c + T \<le> 2 ^ 32" and s: "thread_step c t s = Some s'"
  shows "ids_ok c T s'"
proof -
  have q: "quiet s s'" if "cs_pc s' = (cs_pc s)(t := p)" "cs_next s' = cs_next s" "cs_count s' = cs_count s" "cs_owner s' = cs_owner s"
    "call_of p = call_of (cs_pc s t)" "id_of p = id_of (cs_pc s t)" "\<forall>i. p \<noteq> Undo i \<and> cs_pc s t \<noteq> Undo i" "p \<noteq> Finished" "cs_pc s t \<noteq> Finished" for p
    using that by (auto simp: quiet_def undoing_def fun_eq_iff)
  show ?thesis
  proof (cases "cs_pc s t")
    case Take
    then show ?thesis using s take_ids [OF ok t] by (simp add: thread_step_def)
  next
    case (Alloc i)
    then show ?thesis using s alloc_ids(1) [OF ok t _ m] by (simp add: thread_step_def)
  next
    case (Undo i)
    then show ?thesis using s undo_ids [OF ok Undo] by (simp add: thread_step_def)
  next
    case (Link i j b e m)
    then show ?thesis using s finish_ids [OF ok t] by (simp add: thread_step_def)
  qed (use s q ok in \<open>auto simp: thread_step_def step_defs intro!: quiet_ids [OF _ ok] split: if_splits\<close>)
qed

lemma start_ids: "ids_ok c T (start c T)"
  by (simp add: ids_ok_def calls_ok_def slots_ok_def count_ok_def start_def undoing_def in_thread_def)

section \<open>The lock of the entry point\<close>

fun lock_of :: "pc \<Rightarrow> bool option" where
  "lock_of (Link i j b e m) = Some b"
| "lock_of p = None"

definition lock_ok :: "cstate \<Rightarrow> bool" where
  "lock_ok s \<longleftrightarrow> (\<forall>t. cs_writer s = Some t \<longleftrightarrow> lock_of (cs_pc s t) = Some True) \<and>
     (\<forall>t. t \<in> cs_readers s \<longleftrightarrow> lock_of (cs_pc s t) = Some False) \<and> (cs_writer s \<noteq> None \<longrightarrow> cs_readers s = {})"

lemma step_lock:
  assumes ok: "lock_ok s" and s: "thread_step c t s = Some s'"
  shows "lock_ok s'"
proof (cases "\<exists>i j b. cs_pc s t = Acquire i j b")
  case True
  then obtain i j b where p: "cs_pc s t = Acquire i j b" by blast
  have "lock_of (cs_pc s t) = None" using p by simp
  then show ?thesis using ok s p unfolding lock_ok_def by (cases b) (auto simp: thread_step_def step_defs split: if_splits)
next
  case False
  show ?thesis
  proof (cases "\<exists>b. lock_of (cs_pc s t) = Some b")
    case True
    then obtain i j b e m where p: "cs_pc s t = Link i j b e m" by (cases "cs_pc s t") auto
    have l: "cs_pc s' = (cs_pc s)(t := Take)" "cs_writer s' = (if b then None else cs_writer s)"
      "cs_readers s' = (if b then cs_readers s else cs_readers s - {t})"
      using s p by (auto simp: thread_step_def step_defs split: if_splits)
    have "cs_writer s = Some u \<longleftrightarrow> lock_of (cs_pc s u) = Some True" "u \<in> cs_readers s \<longleftrightarrow> lock_of (cs_pc s u) = Some False" for u
      using ok by (simp_all add: lock_ok_def)
    note w = this(1) [of t] this
    show ?thesis
    proof (cases b)
      case True
      then have r: "cs_writer s = Some t" "cs_readers s = {}" using w(1) p ok by (auto simp: lock_ok_def)
      then have "lock_of (cs_pc s u) = Some True \<longleftrightarrow> u = t" "lock_of (cs_pc s u) \<noteq> Some False" for u using w(2,3) [of u] by auto
      then show ?thesis using True r(2) by (auto simp: lock_ok_def l)
    next
      case False
      then have "t \<in> cs_readers s" using w(3) [of t] p by simp
      then have "cs_writer s = None" using ok unfolding lock_ok_def by blast
      then show ?thesis using w(2,3) False by (auto simp: lock_ok_def l)
    qed
  next
    case none: False
    have "lock_of (cs_pc s' u) = lock_of (cs_pc s u) \<and> cs_writer s' = cs_writer s \<and> cs_readers s' = cs_readers s" for u
      using s False none by (cases "cs_pc s t") (auto simp: thread_step_def step_defs split: if_splits)
    then show ?thesis using ok by (simp add: lock_ok_def)
  qed
qed

lemma start_lock: "lock_ok (start c T)"
  by (simp add: lock_ok_def start_def)

section \<open>Slots and the entry point\<close>

text \<open>How far the insertion of the element with an id has come; 4 means that it is below the entry point.\<close>

fun stage :: "pc \<Rightarrow> nat" where
  "stage (Register i j) = 1"
| "stage (Set_Level i j) = 2"
| "stage (Probe i j) = 3"
| "stage (Acquire i j b) = (if b then 3 else 4)"
| "stage (Link i j b e m) = (if b then 3 else 4)"
| "stage p = 0"

definition slot_ok :: "calls \<Rightarrow> cstate \<Rightarrow> nat \<Rightarrow> nat \<Rightarrow> bool" where
  "slot_ok c s k j \<longleftrightarrow> (let i = cs_owner s ! j in
     (1 \<le> k \<longrightarrow> cs_rows s ! j = cl_vec c i \<and> cs_labels s ! j = cl_label c i \<and> cs_deleted s ! j = 0) \<and>
     (2 \<le> k \<longrightarrow> cs_labelToId s (cl_label c i) \<noteq> None) \<and>
     (3 \<le> k \<longrightarrow> cs_levels s ! j = cl_level c i) \<and>
     (4 \<le> k \<longrightarrow> cs_entryPoint s \<noteq> kNone \<and> cl_level c i \<le> cs_maxLevel s))"

definition idle :: "cstate \<Rightarrow> nat \<Rightarrow> bool" where
  "idle s j \<longleftrightarrow> j < length (cs_owner s) \<and> (\<forall>t. id_of (cs_pc s t) \<noteq> Some j)"

definition entry_inv :: "calls \<Rightarrow> cstate \<Rightarrow> bool" where
  "entry_inv c s \<longleftrightarrow>
     length (cs_rows s) = cl_max c \<and> length (cs_labels s) = cl_max c \<and> 
     (length (cs_levels s) = cl_max c \<and> length (cs_deleted s) = cl_max c) \<and>
     (\<forall>l j. cs_labelToId s l = Some j \<longrightarrow> j < length (cs_owner s) \<and> cl_label c (cs_owner s ! j) = l) \<and>
     (\<forall>t j. id_of (cs_pc s t) = Some j \<longrightarrow> slot_ok c s (stage (cs_pc s t)) j) \<and>
     (\<forall>j. idle s j \<longrightarrow> slot_ok c s 4 j) \<and>
     (cs_entryPoint s \<noteq> kNone \<longrightarrow> idle s (cs_entryPoint s) \<and> cs_levels s ! cs_entryPoint s = cs_maxLevel s) \<and>
     (\<forall>t i j b e m. cs_pc s t = Link i j b e m \<longrightarrow> e = cs_entryPoint s \<and> m = cs_maxLevel s)"

lemma entry_invI:
  assumes "length (cs_rows s) = cl_max c" "length (cs_labels s) = cl_max c" "length (cs_levels s) = cl_max c \<and> length (cs_deleted s) = cl_max c"
    "\<And>l j. cs_labelToId s l = Some j \<Longrightarrow> j < length (cs_owner s) \<and> cl_label c (cs_owner s ! j) = l"
    "\<And>t j. id_of (cs_pc s t) = Some j \<Longrightarrow> slot_ok c s (stage (cs_pc s t)) j"
    "\<And>j. idle s j \<Longrightarrow> slot_ok c s 4 j"
    "cs_entryPoint s \<noteq> kNone \<Longrightarrow> idle s (cs_entryPoint s) \<and> cs_levels s ! cs_entryPoint s = cs_maxLevel s"
    "\<And>t i j b e m. cs_pc s t = Link i j b e m \<Longrightarrow> e = cs_entryPoint s \<and> m = cs_maxLevel s"
  shows "entry_inv c s"
  using assms by (simp add: entry_inv_def)

lemma entry_invD:
  assumes "entry_inv c s"
  shows "length (cs_rows s) = cl_max c" "length (cs_labels s) = cl_max c" "length (cs_levels s) = cl_max c \<and> length (cs_deleted s) = cl_max c"
    "cs_labelToId s l = Some j \<Longrightarrow> j < length (cs_owner s)" "cs_labelToId s l = Some j \<Longrightarrow> cl_label c (cs_owner s ! j) = l"
    "id_of (cs_pc s t) = Some j \<Longrightarrow> slot_ok c s (stage (cs_pc s t)) j" "idle s j \<Longrightarrow> slot_ok c s 4 j"
    "cs_entryPoint s \<noteq> kNone \<Longrightarrow> idle s (cs_entryPoint s)" "cs_entryPoint s \<noteq> kNone \<Longrightarrow> cs_levels s ! cs_entryPoint s = cs_maxLevel s"
    "cs_pc s t = Link i j b e m \<Longrightarrow> e = cs_entryPoint s" "cs_pc s t = Link i j b e m \<Longrightarrow> m = cs_maxLevel s"
  using assms unfolding entry_inv_def by blast+

lemma slot_mono:
  assumes "slot_ok c s k j" "cs_owner s' ! j = cs_owner s ! j" "cs_rows s' ! j = cs_rows s ! j" "cs_labels s' ! j = cs_labels s ! j" "cs_deleted s' ! j = cs_deleted s ! j"
    "cs_levels s' ! j = cs_levels s ! j" "dom (cs_labelToId s) \<subseteq> dom (cs_labelToId s')"
    "cs_entryPoint s \<noteq> kNone \<longrightarrow> cs_entryPoint s' \<noteq> kNone \<and> cs_maxLevel s \<le> cs_maxLevel s'"
  shows "slot_ok c s' k j"
  using assms unfolding slot_ok_def Let_def by (auto simp: dom_def subset_iff)

lemma id_unique:
  assumes "ids_ok c T s" "id_of (cs_pc s t) = Some j" "id_of (cs_pc s u) = Some j"
  shows "t = u"
  using assms call_unique slotsD(2) unfolding ids_ok_def by metis

text \<open>A step on the own slot.\<close>

lemma own_step:
  assumes e: "entry_inv c s" and k: "ids_ok c T s" and t: "id_of (cs_pc s t) = Some j" "id_of p = Some j"
    and s': "cs_pc s' = (cs_pc s)(t := p)" "cs_owner s' = cs_owner s" "cs_entryPoint s' = cs_entryPoint s" "cs_maxLevel s' = cs_maxLevel s"
    and l: "length (cs_rows s') = cl_max c" "length (cs_labels s') = cl_max c" "length (cs_levels s') = cl_max c \<and> length (cs_deleted s') = cl_max c"
    and o: "\<forall>n. n \<noteq> j \<longrightarrow> cs_rows s' ! n = cs_rows s ! n \<and> cs_labels s' ! n = cs_labels s ! n \<and> cs_deleted s' ! n = cs_deleted s ! n \<and> cs_levels s' ! n = cs_levels s ! n"
    and m: "\<forall>l. cs_labelToId s' l = cs_labelToId s l \<or> l = cl_label c (cs_owner s ! j) \<and> cs_labelToId s' l = Some j"
    and p: "slot_ok c s' (stage p) j" "\<forall>i j b e m. p = Link i j b e m \<longrightarrow> e = cs_entryPoint s \<and> m = cs_maxLevel s"
  shows "entry_inv c s'"
proof -
  have j: "j < length (cs_owner s)" using slotsD(1) [of c s t j] t(1) k by (simp add: ids_ok_def)
  have dom: "dom (cs_labelToId s) \<subseteq> dom (cs_labelToId s')" using m by (metis domI domIff option.distinct(1) subsetI)
  have id: "id_of (cs_pc s' u) = id_of (cs_pc s u)" for u using t by (simp add: s'(1))
  have idle: "idle s' n = idle s n" for n by (simp add: idle_def id s'(2))
  have mono: "slot_ok c s' q n" if "slot_ok c s q n" "n \<noteq> j" for q n
    by (rule slot_mono [OF that(1)]) (use o that(2) dom s' in auto)
  have nj: "idle s n \<Longrightarrow> n \<noteq> j" for n using t(1) by (auto simp: idle_def)
  show ?thesis
  proof (rule entry_invI [OF l])
    show "n < length (cs_owner s') \<and> cl_label c (cs_owner s' ! n) = lab" if "cs_labelToId s' lab = Some n" for lab n
      using m that entry_invD(4,5) [OF e, of lab n] j unfolding s'(2) by (metis option.inject)
    show "slot_ok c s' (stage (cs_pc s' u)) n" if "id_of (cs_pc s' u) = Some n" for u n
    proof (cases "u = t")
      case True
      then show ?thesis using that t(2) p(1) s'(1) by simp
    next
      case False
      then have "n \<noteq> j" using id_unique [OF k t(1), of u] that id by auto
      then show ?thesis using mono entry_invD(6) [OF e] that False by (simp add: s'(1))
    qed
    show "slot_ok c s' 4 n" if "idle s' n" for n using mono nj entry_invD(7) [OF e] that by (simp add: idle)
    show "idle s' (cs_entryPoint s') \<and> cs_levels s' ! cs_entryPoint s' = cs_maxLevel s'" if "cs_entryPoint s' \<noteq> kNone"
      using entry_invD(8,9) [OF e] nj o that unfolding idle s'(3,4) by metis
    show "x = cs_entryPoint s' \<and> y = cs_maxLevel s'" if "cs_pc s' u = Link a q b x y" for u a q b x y
    proof (cases "u = t")
      case True
      then have "p = Link a q b x y" using that by (simp add: s'(1))
      then show ?thesis using p(2) unfolding s'(3,4) by blast
    next
      case False
      then have "cs_pc s u = Link a q b x y" using that by (simp add: s'(1))
      then show ?thesis using entry_invD(10,11) [OF e] unfolding s'(3,4) by blast
    qed
  qed
qed

text \<open>A step of a thread without an id.\<close>

lemma free_step:
  assumes e: "entry_inv c s" and t: "id_of (cs_pc s t) = None" "id_of p = None"
    and s': "cs_pc s' = (cs_pc s)(t := p)" "cs_owner s' = cs_owner s" "cs_entryPoint s' = cs_entryPoint s" "cs_maxLevel s' = cs_maxLevel s"
      "cs_rows s' = cs_rows s" "cs_labels s' = cs_labels s" "cs_deleted s' = cs_deleted s" "cs_levels s' = cs_levels s" "cs_labelToId s' = cs_labelToId s"
  shows "entry_inv c s'"
proof -
  have id: "id_of (cs_pc s' u) = id_of (cs_pc s u)" for u using t by (simp add: s'(1))
  have slot: "slot_ok c s' k n = slot_ok c s k n" for k n by (simp add: slot_ok_def s')
  have stage: "stage (cs_pc s' u) = stage (cs_pc s u)" if "id_of (cs_pc s u) = Some n" for u n using that t(1) by (auto simp: s'(1))
  have link: "cs_pc s u = Link i j b e m" if "cs_pc s' u = Link i j b e m" for u i j b e m
    using that t(2) by (auto simp: s'(1) split: if_splits)
  have idle: "idle s' n = idle s n" for n by (simp add: idle_def id s'(2))
  show ?thesis
  proof (rule entry_invI, goal_cases)
    case (5 u n)
    then show ?case using entry_invD(6) [OF e, of u n] stage [of u n] unfolding id slot by simp
  next
    case (8 u i j b x y)
    then show ?case using entry_invD(10,11) [OF e link] unfolding s'(3,4) by blast
  qed (use entry_invD(1-9) [OF e] in \<open>simp_all add: s'(2-9) slot idle\<close>)
qed

lemma alloc_entry:
  assumes e: "entry_inv c s" and k: "ids_ok c T s" and t: "t < T" "cs_pc s t = Alloc i" and m: "cl_max c + T \<le> 2 ^ 32"
  shows "entry_inv c (alloc_id c t i s)"
proof (cases "cs_count s < cl_max c")
  case False
  then show ?thesis
    by (intro free_step [OF e, of t "Undo i"]) (simp_all add: t(2) alloc_ids(2) [OF k t m] goto_def)
next
  case True
  let ?s = "goto t (Fill i (length (cs_owner s))) (s\<lparr>cs_count := cs_count s + 1, cs_owner := cs_owner s @ [i]\<rparr>)"
  have eq: "alloc_id c t i s = ?s" using True by (simp add: alloc_ids(2) [OF k t m])
  have slot: "slot_ok c ?s q n = slot_ok c s q n" if "n < length (cs_owner s)" for q n using that by (simp add: slot_ok_def goto_def nth_append)
  have id: "id_of (cs_pc ?s u) = (if u = t then Some (length (cs_owner s)) else id_of (cs_pc s u))" for u by (simp add: goto_def)
  have b: "n < length (cs_owner s)" if "id_of (cs_pc s u) = Some n" for u n using slotsD(1) [of c s u n] k that by (simp add: ids_ok_def)
  have len: "length (cs_owner ?s) = Suc (length (cs_owner s))" by (simp add: goto_def)
  have "idle ?s n \<longleftrightarrow> n < Suc (length (cs_owner s)) \<and> n \<noteq> length (cs_owner s) \<and> (\<forall>u. u \<noteq> t \<longrightarrow> id_of (cs_pc s u) \<noteq> Some n)" for n
    unfolding idle_def id len by (auto split: if_splits)
  then have idle: "idle ?s n \<longleftrightarrow> idle s n" for n using t(2) unfolding idle_def by (metis id_of.simps(9) less_Suc_eq nat_neq_iff option.distinct(1))
  have "slot_ok c ?s (stage (cs_pc ?s u)) n" if "id_of (cs_pc ?s u) = Some n" for u n
  proof (cases "u = t")
    case True
    then show ?thesis by (simp add: goto_def slot_ok_def)
  next
    case False
    then show ?thesis using that b slot e by (simp add: goto_def entry_inv_def)
  qed
  moreover have "n < length (cs_owner ?s) \<and> cl_label c (cs_owner ?s ! n) = l" if "cs_labelToId ?s l = Some n" for l n
    using entry_invD(4,5) [OF e, of l n] that by (simp add: goto_def nth_append)
  ultimately show ?thesis unfolding eq
    using e slot idle t(2) unfolding entry_inv_def by (auto simp: goto_def idle_def split: if_splits)
qed

lemma finish_entry:
  assumes e: "entry_inv c s" and k: "ids_ok c T s" and w: "lock_ok s" and t: "cs_pc s t = Link i j b cur lev" and m: "cl_max c < 2 ^ 32"
  shows "entry_inv c (finish_add c t i j b cur lev s)"
proof -
  let ?s = "finish_add c t i j b cur lev s"
  define up where "up \<longleftrightarrow> cs_entryPoint s = kNone \<or> cs_maxLevel s < cl_level c i"
  have cur: "cur = cs_entryPoint s" "lev = cs_maxLevel s" using e t by (auto simp: entry_inv_def)
  have j: "j < length (cs_owner s)" "cs_owner s ! j = i" using slotsD(1,2) [of c s t j] k t by (auto simp: ids_ok_def)
  have jn: "j \<noteq> kNone" using j(1) k m by (simp add: ids_ok_def slots_ok_def kNone_def)
  have sj: "slot_ok c s (if b then 3 else 4) j" using entry_invD(6) [OF e, of t j] t by simp
  then have b: "up \<Longrightarrow> b" by (auto simp: up_def slot_ok_def j(2) split: if_splits)
  have f: "cs_pc ?s = (cs_pc s)(t := Take)" "cs_owner ?s = cs_owner s" "cs_rows ?s = cs_rows s" "cs_labels ?s = cs_labels s"
    "cs_deleted ?s = cs_deleted s" "cs_levels ?s = cs_levels s" "cs_labelToId ?s = cs_labelToId s" "cs_entryPoint ?s = (if up then j else cs_entryPoint s)"
    "cs_maxLevel ?s = (if up then cl_level c i else cs_maxLevel s)"
    by (simp_all add: step_defs up_def cur)
  have mono: "slot_ok c ?s q n" if "slot_ok c s q n" for q n
    by (rule slot_mono [OF that]) (use jn in \<open>auto simp: f up_def\<close>)
  have tj: "id_of (cs_pc s t) = Some j" using t by simp
  have "idle ?s n \<longleftrightarrow> n < length (cs_owner s) \<and> (\<forall>u. u \<noteq> t \<longrightarrow> id_of (cs_pc s u) \<noteq> Some n)" for n by (auto simp: idle_def f)
  then have idle: "idle ?s n \<longleftrightarrow> idle s n \<or> n = j" for n
    using id_unique [OF k tj] tj j(1) unfolding idle_def by (metis option.inject)
  have "slot_ok c ?s 4 j" using sj jn by (auto simp: slot_ok_def f j(2) up_def split: if_splits)
  then have "slot_ok c ?s 4 n" if "idle ?s n" for n using that e mono by (auto simp: idle entry_inv_def)
  moreover have "slot_ok c ?s (stage (cs_pc ?s u)) n" if "id_of (cs_pc ?s u) = Some n" for u n
    using that e mono by (auto simp: f entry_inv_def split: if_splits)
  moreover have "idle ?s (cs_entryPoint ?s) \<and> cs_levels ?s ! cs_entryPoint ?s = cs_maxLevel ?s" if "cs_entryPoint ?s \<noteq> kNone"
  proof (cases up)
    case True
    have "cs_levels s ! j = cl_level c i" using sj by (simp add: slot_ok_def j(2) split: if_splits)
    then show ?thesis using True by (simp add: idle f)
  next
    case False
    then show ?thesis using e that by (simp add: idle f entry_inv_def)
  qed
  moreover have "e = cs_entryPoint ?s \<and> m = cs_maxLevel ?s" if l: "cs_pc ?s u = Link i' j' b' e m" for u i' j' b' e m
  proof (cases up)
    case True
    have "u \<noteq> t" "cs_pc s u = Link i' j' b' e m" using l by (auto simp: f split: if_splits)
    moreover have "lock_of (cs_pc s t) = Some True" using b True t by simp
    then have "cs_writer s = Some t" "cs_readers s = {}" using w unfolding lock_ok_def by auto
    ultimately have False using w unfolding lock_ok_def by (cases b') (metis lock_of.simps(1) option.inject, metis lock_of.simps(1) empty_iff)
    then show ?thesis ..
  next
    case False
    then show ?thesis using e l by (auto simp: f entry_inv_def split: if_splits)
  qed
  ultimately show ?thesis using e by (simp add: entry_inv_def f(2-7))
qed

lemma step_entry:
  assumes e: "entry_inv c s" and k: "ids_ok c T s" and w: "lock_ok s" and t: "t < T" and m: "cl_max c + T \<le> 2 ^ 32"
    and s: "thread_step c t s = Some s'"
  shows "entry_inv c s'"
proof -
  have sl: "j < cl_max c \<and> cs_owner s ! j = i \<and> slot_ok c s (stage (cs_pc s t)) j"
    if "id_of (cs_pc s t) = Some j" "call_of (cs_pc s t) = Some i" for i j
  proof -
    have "slots_ok c s" "length (cs_owner s) \<le> cl_max c" using k by (simp_all add: ids_ok_def slots_ok_def)
    then show ?thesis using slotsD(1,2) [of c s t j] that entry_invD(6) [OF e that(1)] by simp
  qed
  note len = entry_invD(1-3) [OF e]
  show ?thesis
  proof (cases "cs_pc s t")
    case (Alloc i)
    then show ?thesis using s alloc_entry [OF e k t _ m] by (simp add: thread_step_def)
  next
    case (Link i j b x y)
    then show ?thesis using s finish_entry [OF e k w Link] m t by (simp add: thread_step_def)
  next
    case (Fill i j)
    then show ?thesis using s sl [of j i] len
      by (intro own_step [OF e k, of t j "Register i j"]) (auto simp: thread_step_def step_defs slot_ok_def)
  next
    case (Register i j)
    then show ?thesis using s sl [of j i] len
      by (intro own_step [OF e k, of t j "Set_Level i j"]) (auto simp: thread_step_def step_defs slot_ok_def split: if_splits)
  next
    case (Set_Level i j)
    then show ?thesis using s sl [of j i] len
      by (intro own_step [OF e k, of t j "Probe i j"]) (auto simp: thread_step_def step_defs slot_ok_def)
  next
    case (Probe i j)
    let ?b = "cs_entryPoint s = kNone \<or> cs_maxLevel s < cl_level c i"
    show ?thesis using s sl [of j i] len Probe
      by (intro own_step [OF e k, of t j "Acquire i j ?b"]) (auto simp: thread_step_def step_defs slot_ok_def split: if_splits)
  next
    case (Acquire i j b)
    then show ?thesis using s sl [of j i] len
      by (intro own_step [OF e k, of t j "Link i j b (cs_entryPoint s) (cs_maxLevel s)"])
         (auto simp: thread_step_def step_defs slot_ok_def split: if_splits)
  next
    case Take
    then show ?thesis using s
      by (intro free_step [OF e, of t "if cs_next s < cl_total c then Check (cs_next s) else Finished"]) (auto simp: thread_step_def step_defs)
  next
    case (Check i)
    then show ?thesis using s
      by (intro free_step [OF e, of t "if cs_labelToId s (cl_label c i) = None then Alloc i else Thrown i"]) (auto simp: thread_step_def step_defs)
  next
    case (Undo i)
    then show ?thesis using s by (intro free_step [OF e, of t "Thrown i"]) (auto simp: thread_step_def step_defs)
  qed (use s in \<open>simp_all add: thread_step_def\<close>)
qed

lemma start_entry: "entry_inv c (start c T)"
  by (rule entry_invI) (auto simp: start_def idle_def split: if_splits)

lemma reach_invariant:
  assumes "reach c T n s" "cl_max c + T \<le> 2 ^ 32"
  shows "ids_ok c T s \<and> lock_ok s \<and> entry_inv c s"
  using assms(1)
proof induction
  case reach_start
  then show ?case using start_ids start_lock start_entry by blast
next
  case (reach_step n s t s')
  then show ?case using step_ids [OF _ _ assms(2)] step_lock step_entry [OF _ _ _ _ assms(2)] by blast
qed

section \<open>Every schedule ends\<close>

fun rank :: "pc \<Rightarrow> nat" where
  "rank (Check i) = 10" | "rank (Alloc i) = 9" | "rank (Undo i) = 1" | "rank (Fill i j) = 8" | "rank (Register i j) = 7"
| "rank (Set_Level i j) = 6" | "rank (Probe i j) = 5" | "rank (Acquire i j b) = 4" | "rank (Link i j b e m) = 3"
| "rank Take = 1" | "rank Finished = 0" | "rank (Thrown i) = 0"

definition work :: "calls \<Rightarrow> nat \<Rightarrow> cstate \<Rightarrow> nat" where
  "work c T s = 10 * (cl_total c - cs_next s) + (\<Sum>t<T. rank (cs_pc s t))"

lemma sum_rank_upd:
  fixes t T :: nat
  assumes "t < T" shows "(\<Sum>u<T. rank ((f(t := p)) u)) + rank (f t) = (\<Sum>u<T. rank (f u)) + rank p"
proof -
  have "(\<Sum>u \<in> {..<T} - {t}. rank ((f(t := p)) u)) = (\<Sum>u \<in> {..<T} - {t}. rank (f u))" by (intro sum.cong) auto
  then show ?thesis
    using sum.remove [OF finite_lessThan, of t T "\<lambda>u. rank ((f(t := p)) u)"] sum.remove [OF finite_lessThan, of t T "\<lambda>u. rank (f u)"] assms
    by simp
qed

lemma step_work:
  assumes "thread_step c t s = Some s'" "t < T"
  shows "work c T s' < work c T s"
proof -
  obtain p where p: "cs_pc s' = (cs_pc s)(t := p)" "10 * (cl_total c - cs_next s') + rank p < 10 * (cl_total c - cs_next s) + rank (cs_pc s t)"
  proof (cases "cs_pc s t")
    case Take
    show ?thesis
      by (rule that [of "if cs_next s < cl_total c then Check (cs_next s) else Finished"]) (use assms(1) Take in \<open>auto simp: thread_step_def step_defs\<close>)
  next
    case (Check i)
    show ?thesis
      by (rule that [of "if cs_labelToId s (cl_label c i) = None then Alloc i else Thrown i"]) (use assms(1) Check in \<open>auto simp: thread_step_def step_defs\<close>)
  next
    case (Alloc i)
    show ?thesis
      by (rule that [of "if cl_max c \<le> cs_count s mod 2 ^ 32 then Undo i else Fill i (cs_count s mod 2 ^ 32)"])
         (use assms(1) Alloc in \<open>auto simp: thread_step_def step_defs\<close>)
  next
    case (Link i j b e m)
    show ?thesis by (rule that [of Take]) (use assms(1) Link in \<open>auto simp: thread_step_def step_defs\<close>)
  qed (use assms(1) that in \<open>auto simp: thread_step_def step_defs split: if_splits\<close>)
  then show ?thesis using sum_rank_upd [OF assms(2), of "cs_pc s" p] by (simp add: work_def)
qed

lemma reach_work:
  assumes "reach c T n s" shows "n + work c T s \<le> 10 * cl_total c + T"
  using assms
proof induction
  case reach_start
  then show ?case by (simp add: work_def start_def)
next
  case (reach_step n s t s')
  then show ?case using step_work [of c t s s' T] by simp
qed

lemma not_ended_step:
  assumes l: "lock_ok s" and n: "\<not> ended T s" and f: "\<forall>t. T \<le> t \<longrightarrow> cs_pc s t = Finished"
  shows "\<exists>t < T. thread_step c t s \<noteq> None"
proof (cases "\<exists>t i j b e m. cs_pc s t = Link i j b e m")
  case True
  then obtain t i j b e m where p: "cs_pc s t = Link i j b e m" by blast
  then have "t < T" using f [rule_format, of t] by (cases "T \<le> t") auto
  then show ?thesis using p by (auto simp: thread_step_def)
next
  case False
  then have "lock_of (cs_pc s t) = None" for t by (cases "cs_pc s t") auto
  then have free: "cs_writer s = None" "cs_readers s = {}" using l unfolding lock_ok_def by auto
  obtain t where t: "t < T" "cs_pc s t \<noteq> Finished" "\<forall>i. cs_pc s t \<noteq> Thrown i" using n by (auto simp: ended_def)
  have "thread_step c t s \<noteq> None"
    using t(2,3) free by (cases "cs_pc s t") (auto simp: thread_step_def probe_entry_def acquire_entry_def Let_def)
  then show ?thesis using t(1) by blast
qed

section \<open>Distinct labels\<close>

lemma no_throw:
  assumes "reach c T n s" "cl_max c + T \<le> 2 ^ 32" "inj_on (cl_label c) {..<cl_total c}" "cl_total c \<le> cl_max c"
  shows "cs_pc s t \<noteq> Thrown i \<and> cs_pc s t \<noteq> Undo i"
  using assms(1)
proof (induction arbitrary: t i)
  case reach_start
  then show ?case by (simp add: start_def)
next
  case (reach_step n s u s')
  have k: "calls_ok c T s" "slots_ok c s" "count_ok c s" and e: "entry_inv c s" and ids: "ids_ok c T s"
    using reach_invariant [OF reach_step(1) assms(2)] by (auto simp: ids_ok_def)
  have own: "i < cl_total c" if "i \<in> set (cs_owner s)" for i using k(1) that by (auto simp: calls_ok_def)
  have ck: "cs_labelToId s (cl_label c i) = None" if "cs_pc s u = Check i" for i
  proof (rule ccontr)
    assume "cs_labelToId s (cl_label c i) \<noteq> None"
    then obtain j where "cs_labelToId s (cl_label c i) = Some j" by blast
    from entry_invD(4,5) [OF e this] have j: "j < length (cs_owner s)" "cl_label c (cs_owner s ! j) = cl_label c i" by auto
    have "i < cl_total c" "i \<notin> set (cs_owner s)" using callsD [OF k(1), of u i] fresh_call [OF k(2), of u i] that by auto
    then show False using j own inj_onD [OF assms(3) j(2)] by (metis lessThan_iff nth_mem)
  qed
  have al: "cs_count s < cl_max c" if "cs_pc s u = Alloc i" for i
  proof -
    have i: "i < cl_total c" "i \<notin> set (cs_owner s)" using callsD [OF k(1), of u i] fresh_call [OF k(2), of u i] that by auto
    then have "set (cs_owner s) \<subset> {..<cl_total c}" using own by blast
    then have "card (set (cs_owner s)) < card {..<cl_total c}" by (rule psubset_card_mono [OF finite_lessThan])
    then have "card (set (cs_owner s)) < cl_total c" by simp
    moreover have "card (set (cs_owner s)) = length (cs_owner s)" using k(2) by (simp add: slots_ok_def distinct_card)
    moreover have "undoing s = {}" using reach_step.IH by (auto simp: undoing_def)
    then have "cs_count s = length (cs_owner s)" using k(3) by (simp add: count_ok_def)
    ultimately show ?thesis using assms(4) by linarith
  qed
  show ?case
  proof (cases "t = u")
    case False
    then have "cs_pc s' t = cs_pc s t"
      using reach_step(3) by (cases "cs_pc s u") (auto simp: thread_step_def step_defs split: if_splits)
    then show ?thesis using reach_step.IH by simp
  next
    case True
    then show ?thesis
    proof (cases "cs_pc s u")
      case (Alloc x)
      then show ?thesis using reach_step(3) alloc_ids(2) [OF ids reach_step(2) Alloc assms(2)] al [OF Alloc] True
        by (auto simp: thread_step_def goto_def)
    next
      case (Check x)
      then show ?thesis using reach_step(3) ck [OF Check] True by (auto simp: thread_step_def step_defs)
    qed (use reach_step(3) reach_step.IH [of u] in \<open>auto simp: thread_step_def step_defs split: if_splits\<close>)
  qed
qed

section \<open>Schedules\<close>

definition schedule :: "calls \<Rightarrow> nat \<Rightarrow> nat list \<Rightarrow> cstate option" where
  "schedule c T ts = foldM (\<lambda>s t. thread_step c t s) (start c T) ts"

lemma schedule_reach:
  assumes "schedule c T ts = Some s" "\<forall>t \<in> set ts. t < T"
  shows "reach c T (length ts) s"
proof -
  have "reach c T (n + length ts) s" if "foldM (\<lambda>s t. thread_step c t s) a ts = Some s" "reach c T n a" for n a
    using that assms(2)
  proof (induction ts arbitrary: a n)
    case (Cons t ts)
    then obtain b where "thread_step c t a = Some b" "foldM (\<lambda>s t. thread_step c t s) b ts = Some s" by (auto split: option.splits)
    then show ?case using Cons.IH [of b "Suc n"] reach_step [OF Cons.prems(2), of t b] Cons.prems(3) by simp
  qed simp
  from this [OF _ reach_start] show ?thesis using assms(1) by (simp add: schedule_def)
qed

text \<open>Two calls, with distinct labels and with the same label, and two threads that run together.\<close>

definition ex_calls :: "(nat \<Rightarrow> label) \<Rightarrow> calls" where
  "ex_calls lab = \<lparr>cl_total = 2, cl_max = 2, cl_label = lab, cl_vec = (\<lambda>i. [if i = 0 then 0 else 1]), cl_level = (\<lambda>i. int i)\<rparr>"

definition ex_turns :: "nat list" where
  "ex_turns = [0, 0, 1, 1, 0, 1, 0, 1, 0, 1, 0, 1, 0, 0, 0, 1, 1, 1, 0, 1]"

definition cs_view :: "cstate \<Rightarrow> pc list \<times> nat \<times> label list \<times> f32 list list \<times> int list \<times> nat \<times> nat option" where
  "cs_view s = (map (cs_pc s) [0, 1], cs_count s, cs_labels s, cs_rows s, cs_levels s, cs_entryPoint s, cs_labelToId s (Label 1 7))"

lemma ex_run:
  obtains s where "reach (ex_calls (\<lambda>i. Label 1 (of_nat i))) 2 20 s" "ended 2 s"
proof -
  have "map_option cs_view (schedule (ex_calls (\<lambda>i. Label 1 (of_nat i))) 2 ex_turns) =
      Some ([Finished, Finished], 2, [Label 1 0, Label 1 1], [[0], [1]], [0, 1], 1, None)" by code_simp
  then obtain s where s: "schedule (ex_calls (\<lambda>i. Label 1 (of_nat i))) 2 ex_turns = Some s"
    "cs_view s = ([Finished, Finished], 2, [Label 1 0, Label 1 1], [[0], [1]], [0, 1], 1, None)" by auto
  have "reach (ex_calls (\<lambda>i. Label 1 (of_nat i))) 2 (length ex_turns) s" by (rule schedule_reach [OF s(1)]) (simp add: ex_turns_def)
  moreover have "ended 2 s" using s(2) by (auto simp: cs_view_def ended_def less_2_cases_iff)
  moreover have "length ex_turns = 20" by code_simp
  ultimately show ?thesis using that by simp
qed

section \<open>Properties\<close>

text \<open>
  C14: Concurrent insertions, in every state of every schedule, whatever labels, capacity and levels: no two threads work on the
  same slot and every slot is inside the arrays; the exclusive lock of the entry point excludes all other holders; an
  element whose insertion has ended has its vector, label and level in place and is not above the entry point, which
  itself has the maximum level; the counter exceeds the capacity by at most the number of threads.
\<close>

theorem concurrent_adds:
  assumes "reach c T n s" "cl_max c + T \<le> 2 ^ 32"
  shows "(\<forall>t u j. id_of (cs_pc s t) = Some j \<and> id_of (cs_pc s u) = Some j \<longrightarrow> t = u) \<and>
    (\<forall>t j. id_of (cs_pc s t) = Some j \<longrightarrow> j < cl_max c) \<and>
    (\<forall>t u. lock_of (cs_pc s t) = Some True \<and> lock_of (cs_pc s u) \<noteq> None \<longrightarrow> t = u) \<and>
    (\<forall>j. idle s j \<longrightarrow> (\<exists>i < cl_total c. cs_rows s ! j = cl_vec c i \<and> cs_labels s ! j = cl_label c i \<and>
       cs_levels s ! j = cl_level c i \<and> cl_level c i \<le> cs_maxLevel s)) \<and>
    (cs_entryPoint s \<noteq> kNone \<longrightarrow> idle s (cs_entryPoint s) \<and> cs_levels s ! cs_entryPoint s = cs_maxLevel s) \<and>
    cs_count s \<le> cl_max c + T"
proof (intro conjI allI impI; (elim conjE)?)
  note inv = reach_invariant [OF assms]
  then have k: "ids_ok c T s" "calls_ok c T s" "slots_ok c s" "count_ok c s" "lock_ok s" "entry_inv c s" by (auto simp: ids_ok_def)
  show "t = u" if "id_of (cs_pc s t) = Some j" "id_of (cs_pc s u) = Some j" for t u j using id_unique [OF k(1) that] .
  show "j < cl_max c" if "id_of (cs_pc s t) = Some j" for t j
    using slotsD(1) [OF k(3) that] k(3) by (simp add: slots_ok_def)
  show "t = u" if l: "lock_of (cs_pc s t) = Some True" "lock_of (cs_pc s u) \<noteq> None" for t u
  proof -
    have "cs_writer s = Some t" "cs_readers s = {}" using k(5) l(1) unfolding lock_ok_def by auto
    moreover obtain b where "lock_of (cs_pc s u) = Some b" using l(2) by blast
    ultimately show ?thesis using k(5) unfolding lock_ok_def by (cases b) (auto, metis option.inject)
  qed
  show "\<exists>i < cl_total c. cs_rows s ! j = cl_vec c i \<and> cs_labels s ! j = cl_label c i \<and> cs_levels s ! j = cl_level c i \<and> cl_level c i \<le> cs_maxLevel s"
    if "idle s j" for j
  proof -
    have "cs_owner s ! j < cl_total c" using that k(2) by (simp add: idle_def calls_ok_def)
    then show ?thesis using entry_invD(7) [OF k(6) that] by (auto simp: slot_ok_def Let_def)
  qed
  show "idle s (cs_entryPoint s)" "cs_levels s ! cs_entryPoint s = cs_maxLevel s" if "cs_entryPoint s \<noteq> kNone"
    using entry_invD(8,9) [OF k(6) that] by auto
  have "card (undoing s) \<le> T" using card_mono [OF _ undoing_threads [OF k(2)]] by simp
  then show "cs_count s \<le> cl_max c + T" using k(3,4) by (simp add: slots_ok_def count_ok_def)
qed

theorem concurrent_adds_witness:
  "\<exists>n s. reach (ex_calls (\<lambda>i. Label 1 (of_nat i))) 2 n s \<and> cs_count s \<le> 4 \<and>
    (cs_entryPoint s \<noteq> kNone \<longrightarrow> cs_levels s ! cs_entryPoint s = cs_maxLevel s)"
proof -
  obtain s where s: "reach (ex_calls (\<lambda>i. Label 1 (of_nat i))) 2 20 s" by (rule ex_run)
  from concurrent_adds [OF s] show ?thesis using s by (auto simp: ex_calls_def)
qed

text \<open>
  C13: The writers of the stress test insert every vector exactly once. With distinct labels and enough capacity no call
  fails in any schedule, and when all threads have ended, every call has its own id below the number of calls,
  under its label, with its vector and level, and the entry point has the highest level of all.
\<close>

theorem writers_complete:
  assumes "reach c T n s" "ended T s" "0 < T" "cl_max c + T \<le> 2 ^ 32" "inj_on (cl_label c) {..<cl_total c}" "cl_total c \<le> cl_max c"
  shows "(\<forall>t < T. cs_pc s t = Finished) \<and> cs_count s = cl_total c \<and>
    (\<forall>i < cl_total c. \<exists>j < cl_total c. cs_labelToId s (cl_label c i) = Some j \<and> cs_rows s ! j = cl_vec c i \<and>
       cs_labels s ! j = cl_label c i \<and> cs_levels s ! j = cl_level c i \<and> cl_level c i \<le> cs_maxLevel s) \<and>
    (0 < cl_total c \<longrightarrow> cs_entryPoint s < cl_total c \<and> cs_levels s ! cs_entryPoint s = cs_maxLevel s)"
proof -
  have k: "calls_ok c T s" "slots_ok c s" "count_ok c s" "entry_inv c s" using reach_invariant [OF assms(1,4)] by (auto simp: ids_ok_def)
  have fin: "cs_pc s t = Finished" for t
    using no_throw [OF assms(1,4-6)] assms(2) k(1) by (cases "t < T") (auto simp: ended_def calls_ok_def)
  then have "in_thread s = {}" "undoing s = {}" by (auto simp: in_thread_def undoing_def)
  moreover have "cl_total c < cs_next s" using k(1) fin [of 0] assms(3) unfolding calls_ok_def by blast
  moreover have "\<forall>i \<in> set (cs_owner s). i < cl_total c" "\<forall>i. i < cs_next s \<and> i < cl_total c \<longrightarrow> i \<in> set (cs_owner s) \<union> in_thread s"
    using k(1) unfolding calls_ok_def by blast+
  ultimately have "set (cs_owner s) = {..<cl_total c}" by auto
  then have own: "set (cs_owner s) = {..<cl_total c}" "length (cs_owner s) = cl_total c"
    using k(2) distinct_card [of "cs_owner s"] by (simp_all add: slots_ok_def)
  have idle: "idle s j \<longleftrightarrow> j < cl_total c" for j using fin own(2) by (simp add: idle_def)
  have "\<exists>j < cl_total c. cs_labelToId s (cl_label c i) = Some j \<and> cs_rows s ! j = cl_vec c i \<and> cs_labels s ! j = cl_label c i \<and>
      cs_levels s ! j = cl_level c i \<and> cl_level c i \<le> cs_maxLevel s" if i: "i < cl_total c" for i
  proof -
    obtain j where j: "j < cl_total c" "cs_owner s ! j = i" using own i by (metis in_set_conv_nth lessThan_iff)
    then have s: "slot_ok c s 4 j" using entry_invD(7) [OF k(4)] idle by simp
    then obtain j' where m: "cs_labelToId s (cl_label c i) = Some j'" by (auto simp: slot_ok_def j(2))
    from entry_invD(4,5) [OF k(4) m] have j': "j' < cl_total c" "cl_label c (cs_owner s ! j') = cl_label c i" using own(2) by auto
    moreover have "cs_owner s ! j' < cl_total c" using own j'(1) nth_mem by fastforce
    ultimately have "cs_owner s ! j' = cs_owner s ! j" using inj_onD [OF assms(5)] i j(2) by simp
    then have "j' = j" using k(2) own(2) j(1) j'(1) by (simp add: slots_ok_def nth_eq_iff_index_eq)
    then show ?thesis using s m j by (auto simp: slot_ok_def)
  qed
  moreover have "cs_entryPoint s < cl_total c \<and> cs_levels s ! cs_entryPoint s = cs_maxLevel s" if "0 < cl_total c"
  proof -
    have "cs_entryPoint s \<noteq> kNone" using entry_invD(7) [OF k(4), of 0] idle that by (simp add: slot_ok_def Let_def)
    then show ?thesis using entry_invD(8,9) [OF k(4)] idle by simp
  qed
  ultimately show ?thesis using fin k(3) own(2) \<open>undoing s = {}\<close> by (simp add: count_ok_def)
qed

theorem writers_complete_witness:
  "\<exists>n s. reach (ex_calls (\<lambda>i. Label 1 (of_nat i))) 2 n s \<and> cs_count s = 2 \<and> (\<exists>j < 2. cs_labelToId s (Label 1 1) = Some j)"
proof -
  obtain s where s: "reach (ex_calls (\<lambda>i. Label 1 (of_nat i))) 2 20 s" "ended 2 s" by (rule ex_run)
  have "inj_on (cl_label (ex_calls (\<lambda>i. Label 1 (of_nat i)))) {..<cl_total (ex_calls (\<lambda>i. Label 1 (of_nat i)))}"
    by (auto simp: ex_calls_def inj_on_def Label_def less_2_cases_iff)
  from writers_complete [OF s _ _ this]
  have "cs_count s = 2 \<and> (\<forall>i < 2. \<exists>j < 2. cs_labelToId s (Label 1 (of_nat i)) = Some j)" by (auto simp: ex_calls_def)
  from this [THEN conjunct2, rule_format, of 1] this show ?thesis using s(1) by auto
qed

text \<open>
  Without the locks of the lists, no schedule blocks and none runs forever: a state in which not all threads have ended has a thread that can make
  a step, and a run of \<open>T\<close> threads over \<open>N\<close> calls has at most \<open>10 * N + T\<close> steps.
\<close>

lemma schedules_end:
  assumes "reach c T n s" "cl_max c + T \<le> 2 ^ 32"
  shows "n \<le> 10 * cl_total c + T \<and> (\<not> ended T s \<longrightarrow> (\<exists>t < T. \<exists>s'. thread_step c t s = Some s' \<and> reach c T (Suc n) s'))"
proof -
  have "lock_ok s" "\<forall>t. T \<le> t \<longrightarrow> cs_pc s t = Finished" using reach_invariant [OF assms] by (auto simp: ids_ok_def calls_ok_def)
  then have "\<not> ended T s \<Longrightarrow> \<exists>t < T. thread_step c t s \<noteq> None" using not_ended_step by blast
  then show ?thesis using reach_work [OF assms(1)] reach_step [OF assms(1)] by fastforce
qed

lemma schedules_end_witness:
  "\<exists>s. reach (ex_calls (\<lambda>i. Label 1 (of_nat i))) 2 20 s \<and> 20 \<le> 10 * cl_total (ex_calls (\<lambda>i. Label 1 (of_nat i))) + 2"
proof -
  obtain s where s: "reach (ex_calls (\<lambda>i. Label 1 (of_nat i))) 2 20 s" by (rule ex_run)
  from schedules_end [OF s] show ?thesis using s by (auto simp: ex_calls_def)
qed

text \<open>
  The duplicate check is not atomic with the registration: two threads that add the same label at the same time
  can both pass it, and the index ends with two elements under one label, of which the label finds the second only. One
  after the other, the second call throws.
\<close>

lemma duplicate_race:
  "(\<exists>n s. reach (ex_calls (\<lambda>_. Label 1 7)) 2 n s \<and> cs_pc s 0 = Finished \<and> cs_pc s 1 = Finished \<and> cs_count s = 2 \<and>
      cs_labels s = [Label 1 7, Label 1 7] \<and> cs_labelToId s (Label 1 7) = Some 1) \<and>
   (\<exists>n s. reach (ex_calls (\<lambda>_. Label 1 7)) 2 n s \<and> cs_pc s 0 = Finished \<and> cs_pc s 1 = Thrown 1 \<and> cs_count s = 1)"
proof
  have "map_option cs_view (schedule (ex_calls (\<lambda>_. Label 1 7)) 2 ex_turns) =
      Some ([Finished, Finished], 2, [Label 1 7, Label 1 7], [[0], [1]], [0, 1], 1, Some 1)" by code_simp
  then obtain s where "schedule (ex_calls (\<lambda>_. Label 1 7)) 2 ex_turns = Some s"
    "cs_view s = ([Finished, Finished], 2, [Label 1 7, Label 1 7], [[0], [1]], [0, 1], 1, Some 1)" by auto
  then show "\<exists>n s. reach (ex_calls (\<lambda>_. Label 1 7)) 2 n s \<and> cs_pc s 0 = Finished \<and> cs_pc s 1 = Finished \<and> cs_count s = 2 \<and>
      cs_labels s = [Label 1 7, Label 1 7] \<and> cs_labelToId s (Label 1 7) = Some 1"
    using schedule_reach [of _ 2 ex_turns s] by (fastforce simp: cs_view_def ex_turns_def)
next
  let ?ts = "replicate 9 0 @ [1, 1, 0]"
  have "map_option cs_view (schedule (ex_calls (\<lambda>_. Label 1 7)) 2 ?ts) =
      Some ([Finished, Thrown 1], 1, [Label 1 7, Label 0 0], [[0], []], [0, 0], 0, Some 0)" by code_simp
  then obtain s where "schedule (ex_calls (\<lambda>_. Label 1 7)) 2 ?ts = Some s"
    "cs_view s = ([Finished, Thrown 1], 1, [Label 1 7, Label 0 0], [[0], []], [0, 0], 0, Some 0)" by auto
  then show "\<exists>n s. reach (ex_calls (\<lambda>_. Label 1 7)) 2 n s \<and> cs_pc s 0 = Finished \<and> cs_pc s 1 = Thrown 1 \<and> cs_count s = 1"
    using schedule_reach [of _ 2 ?ts s] by (fastforce simp: cs_view_def)
qed

text \<open>
  While a thread gives back the id it drew from a full index, the counter is above the capacity. A
  \<open>save\<close> that reads the counter in such a moment reads behind the end of the arrays.
\<close>

lemma counter_overshoots:
  "\<exists>n s. reach ((ex_calls (\<lambda>i. Label 1 (of_nat i)))\<lparr>cl_max := 1\<rparr>) 2 n s \<and> cs_count s = 2"
proof -
  let ?c = "(ex_calls (\<lambda>i. Label 1 (of_nat i)))\<lparr>cl_max := 1\<rparr>" and ?ts = "[0, 0, 0, 1, 1, 1]"
  have "map_option cs_count (schedule ?c 2 ?ts) = Some 2" by code_simp
  then obtain s where "schedule ?c 2 ?ts = Some s" "cs_count s = 2" by auto
  then show ?thesis using schedule_reach [of ?c 2 ?ts s] by auto
qed

lemma save_overruns:
  assumes "wf_ix ix" "ix_maxElements ix < n"
  shows "snapshot_bytes (ix\<lparr>ix_count := n\<rparr>) = None"
proof -
  have sh: "length (ix_data ix) = ix_maxElements ix * ix_dim ix" "0 < ix_dim ix" using assms(1) by (auto simp: wf_ix_def shape_def)
  then have "length (ix_data ix) < n * ix_dim ix" using assms(2) by simp
  then show ?thesis by (simp add: snapshot_bytes_def rd_range_def)
qed

end
