(* ===== verification/Link_Locks.thy ===== *)
theory Link_Locks
  imports Concurrent
begin

text \<open>
  The locks that an insertion takes while it links its element: \<open>linkLocks_\<close>, one for each
  element, in \<open>greedyDescend\<close>, \<open>searchLayer\<close> and \<open>connectNewElement\<close> of
  \<open>include/hnsw.hpp\<close>, and the mutex of the pool of visited lists. In theory \<open>Concurrent\<close> the
  linking is the time a thread spends at \<open>Link\<close>; here a thread at \<open>Link\<close> takes and releases these
  locks, a step each, and finishes the insertion only when it has done all of them.

  Which elements a thread visits depends on adjacency lists that other threads change, so it is a
  free choice (\<open>plan\<close>): any elements, in any order, within bounds the code keeps (a layer is
  descended or searched once, a list of elements is at most as long as the index has room, because the visited list
  and the falling distance let no element be expanded twice).

  The result: the insertions never deadlock, no schedule runs forever, and at the end every lock is free.
\<close>

section \<open>Locks\<close>

datatype lock = Link_Lock nat | Pool_Lock

datatype lock_op = Acq lock | Rel lock

text \<open>A scope with a \<open>lock_guard\<close> that calls nothing that locks.\<close>

definition visit :: "lock \<Rightarrow> lock_op list" where
  "visit l = [Acq l, Rel l]"

text \<open>\<open>greedyDescend\<close> reads the list of each element it stands on, under its lock.\<close>

definition greedyDescend_locks :: "nat list \<Rightarrow> lock_op list" where
  "greedyDescend_locks curs = concat (map (\<lambda>n. visit (Link_Lock n)) curs)"

text \<open>\<open>searchLayer\<close> takes a visited list from the pool, copies the list of each element it pops, and puts it back.\<close>

definition searchLayer_locks :: "nat list \<Rightarrow> lock_op list" where
  "searchLayer_locks popped = visit Pool_Lock @ concat (map (\<lambda>n. visit (Link_Lock n)) popped) @ visit Pool_Lock"

text \<open>\<open>connectNewElement\<close> writes the list of the new element \<open>j\<close>, and then that of each neighbour it selected.\<close>

definition connectNewElement_locks :: "nat \<Rightarrow> nat list \<Rightarrow> lock_op list" where
  "connectNewElement_locks j selected =
     (if selected = [] then [] else visit (Link_Lock j) @ concat (map (\<lambda>n. visit (Link_Lock n)) selected))"

type_synonym plan = "nat list list \<times> (nat list \<times> nat list) list"

definition link_locks :: "nat \<Rightarrow> plan \<Rightarrow> lock_op list" where
  "link_locks j p =
     concat (map greedyDescend_locks (fst p)) @
     concat (map (\<lambda>(popped, selected). searchLayer_locks popped @ connectNewElement_locks j selected) (snd p))"

text \<open>At most \<open>L\<close> layers, and in each at most as many elements as the index has room for.\<close>

definition bounded :: "calls \<Rightarrow> nat \<Rightarrow> plan \<Rightarrow> bool" where
  "bounded c L p \<longleftrightarrow> length (fst p) + length (snd p) \<le> L \<and> (\<forall>d \<in> set (fst p). length d \<le> cl_max c) \<and>
     (\<forall>x \<in> set (snd p). length (fst x) \<le> cl_max c \<and> length (snd x) \<le> cl_max c)"

section \<open>Threads that link\<close>

record lstate =
  ls_base :: cstate
  ls_todo :: "nat \<Rightarrow> lock_op list"
  ls_holder :: "lock \<Rightarrow> nat option"

text \<open>What a thread that has just taken the entry lock has to do: nothing, if its element is the first.\<close>

definition script :: "cstate \<Rightarrow> nat \<Rightarrow> plan \<Rightarrow> lock_op list" where
  "script b t p = (case cs_pc b t of Link i j be e m \<Rightarrow> if e = kNone then [] else link_locks j p | _ \<Rightarrow> [])"

definition lock_step :: "nat \<Rightarrow> lock_op \<Rightarrow> lock_op list \<Rightarrow> lstate \<Rightarrow> lstate option" where
  "lock_step t x r s =
     (case x of
        Acq l \<Rightarrow> if ls_holder s l = None
          then Some (s\<lparr>ls_holder := (ls_holder s)(l \<mapsto> t), ls_todo := (ls_todo s)(t := r)\<rparr>) else None
      | Rel l \<Rightarrow> Some (s\<lparr>ls_holder := (ls_holder s)(l := None), ls_todo := (ls_todo s)(t := r)\<rparr>))"

text \<open>One step of thread \<open>t\<close>; the plan matters only when it begins to link.\<close>

definition link_step :: "calls \<Rightarrow> nat \<Rightarrow> nat \<Rightarrow> plan \<Rightarrow> lstate \<Rightarrow> lstate option" where
  "link_step c L t p s =
     (case ls_todo s t of
        [] \<Rightarrow> (if \<not> bounded c L p then None
               else case thread_step c t (ls_base s) of None \<Rightarrow> None
                 | Some b \<Rightarrow> Some (s\<lparr>ls_base := b, ls_todo := (ls_todo s)(t := script b t p)\<rparr>))
      | x # r \<Rightarrow> lock_step t x r s)"

definition lstart :: "calls \<Rightarrow> nat \<Rightarrow> lstate" where
  "lstart c T = \<lparr>ls_base = start c T, ls_todo = (\<lambda>_. []), ls_holder = (\<lambda>_. None)\<rparr>"

inductive lreach :: "calls \<Rightarrow> nat \<Rightarrow> nat \<Rightarrow> nat \<Rightarrow> lstate \<Rightarrow> bool" for c L T where
  lreach_start: "lreach c L T 0 (lstart c T)"
| lreach_step: "lreach c L T n s \<Longrightarrow> t < T \<Longrightarrow> link_step c L t p s = Some s' \<Longrightarrow> lreach c L T (Suc n) s'"

section \<open>A thread holds one of these locks at a time\<close>

definition flat :: "lock_op list \<Rightarrow> bool" where
  "flat xs \<longleftrightarrow> (\<exists>ls. xs = concat (map visit ls))"

lemma flat_Nil [simp]: "flat []"
  unfolding flat_def by (rule exI [of _ "[]"]) simp

lemma flat_visit [simp]: "flat (visit l)"
  unfolding flat_def by (rule exI [of _ "[l]"]) simp

lemma flat_append [intro]: "flat xs \<Longrightarrow> flat ys \<Longrightarrow> flat (xs @ ys)"
  unfolding flat_def by (metis concat_append map_append)

lemma flat_concat: "\<forall>x \<in> set xs. flat (f x) \<Longrightarrow> flat (concat (map f xs))"
  by (induction xs) auto

lemma flat_Cons: "flat (x # r) \<Longrightarrow> \<exists>l r'. x = Acq l \<and> r = Rel l # r' \<and> flat r'"
proof -
  assume "flat (x # r)"
  then obtain ls where ls: "x # r = concat (map visit ls)" by (auto simp: flat_def)
  then obtain l ls' where "ls = l # ls'" by (cases ls) auto
  then show ?thesis using ls by (auto simp: visit_def flat_def)
qed

lemma link_locks_flat: "flat (link_locks j p)"
  unfolding link_locks_def greedyDescend_locks_def searchLayer_locks_def connectNewElement_locks_def
  by (intro flat_append flat_concat ballI) (auto intro!: flat_append flat_concat split: prod.split)

text \<open>
  Between two steps a thread holds at most the lock that it releases next, it does so only while it links, and
  what it does after that takes and releases one lock after the other.
\<close>

definition holding :: "lstate \<Rightarrow> bool" where
  "holding s \<longleftrightarrow> (\<forall>l t. ls_holder s l = Some t \<longleftrightarrow> (\<exists>r. ls_todo s t = Rel l # r)) \<and>
     (\<forall>t. flat (ls_todo s t) \<or> (\<exists>l r. ls_todo s t = Rel l # r \<and> flat r)) \<and>
     (\<forall>t. ls_todo s t \<noteq> [] \<longrightarrow> (\<exists>i j b e m. cs_pc (ls_base s) t = Link i j b e m))"

lemma holdingD:
  assumes "holding s"
  shows "ls_holder s l = Some t \<longleftrightarrow> (\<exists>r. ls_todo s t = Rel l # r)"
    "flat (ls_todo s t) \<or> (\<exists>l r. ls_todo s t = Rel l # r \<and> flat r)"
    "ls_todo s t \<noteq> [] \<Longrightarrow> \<exists>i j b e m. cs_pc (ls_base s) t = Link i j b e m"
  using assms unfolding holding_def by blast+

lemma holdingI:
  assumes "\<And>l t. ls_holder s l = Some t \<longleftrightarrow> (\<exists>r. ls_todo s t = Rel l # r)"
    "\<And>t. flat (ls_todo s t) \<or> (\<exists>l r. ls_todo s t = Rel l # r \<and> flat r)"
    "\<And>t. ls_todo s t \<noteq> [] \<Longrightarrow> \<exists>i j b e m. cs_pc (ls_base s) t = Link i j b e m"
  shows "holding s"
  using assms unfolding holding_def by blast

lemma flat_Acq: "flat xs \<Longrightarrow> xs \<noteq> Rel l # r"
  using flat_Cons by blast

lemma holding_todo:
  assumes "holding s"
  shows "ls_todo s t = Acq l # r \<Longrightarrow> \<exists>r'. r = Rel l # r' \<and> flat r'" "ls_todo s t = Rel l # r \<Longrightarrow> flat r"
proof -
  show "\<exists>r'. r = Rel l # r' \<and> flat r'" if "ls_todo s t = Acq l # r"
    using holdingD(2) [OF assms, of t] flat_Cons [of "Acq l" r] that by auto
  show "flat r" if "ls_todo s t = Rel l # r"
    using holdingD(2) [OF assms, of t] flat_Acq [of "ls_todo s t" l r] that by auto
qed

lemma thread_step_others: "thread_step c t s = Some s' \<Longrightarrow> u \<noteq> t \<Longrightarrow> cs_pc s' u = cs_pc s u"
  by (cases "cs_pc s t") (auto simp: thread_step_def step_defs split: if_splits)

lemma script_flat: "flat (script b t p)"
  by (auto simp: script_def link_locks_flat split: pc.split)

lemma script_Link: "script b t p \<noteq> [] \<Longrightarrow> \<exists>i j be e m. cs_pc b t = Link i j be e m"
  by (auto simp: script_def split: pc.splits)

lemma base_holding:
  assumes h: "holding s" and t: "ls_todo s t = []" "thread_step c t (ls_base s) = Some b"
  shows "holding (s\<lparr>ls_base := b, ls_todo := (ls_todo s)(t := script b t p)\<rparr>)"
proof -
  have "script b t p \<noteq> Rel l # r" for l r using flat_Acq [OF script_flat] .
  moreover have "ls_holder s l \<noteq> Some t" for l using holdingD(1) [OF h, of l t] t(1) by simp
  ultimately show ?thesis
    using holdingD [OF h] thread_step_others [OF t(2)] script_flat [of b t p] script_Link [of b t p]
    unfolding holding_def by simp
qed

lemma acq_holding:
  assumes h: "holding s" and t: "ls_todo s t = Acq l # r" "ls_holder s l = None"
  shows "holding (s\<lparr>ls_holder := (ls_holder s)(l \<mapsto> t), ls_todo := (ls_todo s)(t := r)\<rparr>)"
proof -
  obtain r' where r: "r = Rel l # r'" "flat r'" using holding_todo(1) [OF h t(1)] by blast
  have n: "ls_todo s u \<noteq> Rel l # x" for u x using holdingD(1) [OF h, of l u] t(2) by auto
  have m: "ls_holder s k \<noteq> Some t" for k using holdingD(1) [OF h, of k t] t(1) by simp
  have "\<exists>i j b e m. cs_pc (ls_base s) t = Link i j b e m" using holdingD(3) [OF h] t(1) by simp
  then show ?thesis unfolding holding_def r(1) using holdingD [OF h] n m r(2) by auto
qed

lemma rel_holding:
  assumes h: "holding s" and t: "ls_todo s t = Rel l # r"
  shows "holding (s\<lparr>ls_holder := (ls_holder s)(l := None), ls_todo := (ls_todo s)(t := r)\<rparr>)"
proof -
  have f: "flat r" using holding_todo(2) [OF h t] .
  have n: "r \<noteq> Rel k # x" for k x using flat_Acq [OF f] .
  have "ls_holder s l = Some t" using holdingD(1) [OF h, of l t] t by simp
  then have u: "u = t" if "ls_todo s u = Rel l # x" for u x using holdingD(1) [OF h, of l u] that by simp
  have m: "k = l" if "ls_holder s k = Some t" for k using holdingD(1) [OF h, of k t] t that by simp
  let ?s = "s\<lparr>ls_holder := (ls_holder s)(l := None), ls_todo := (ls_todo s)(t := r)\<rparr>"
  show ?thesis
  proof (rule holdingI)
    fix k v
    consider "v = t" | "v \<noteq> t" "k = l" | "v \<noteq> t" "k \<noteq> l" by blast
    then show "ls_holder ?s k = Some v \<longleftrightarrow> (\<exists>r. ls_todo ?s v = Rel k # r)"
    proof cases
      case 1
      then show ?thesis using n m by auto
    next
      case 2
      then show ?thesis using u by auto
    next
      case 3
      then show ?thesis using holdingD(1) [OF h, of k v] by simp
    qed
  next
    fix v
    show "flat (ls_todo ?s v) \<or> (\<exists>l r. ls_todo ?s v = Rel l # r \<and> flat r)" using holdingD(2) [OF h, of v] f by simp
    show "\<exists>i j b e m. cs_pc (ls_base ?s) v = Link i j b e m" if "ls_todo ?s v \<noteq> []"
      using holdingD(3) [OF h, of v] holdingD(3) [OF h, of t] t that by (cases "v = t") simp_all
  qed
qed

lemma link_step_cases:
  assumes "link_step c L t p s = Some s'"
  obtains (base) b where "ls_todo s t = []" "bounded c L p" "thread_step c t (ls_base s) = Some b"
      "s' = s\<lparr>ls_base := b, ls_todo := (ls_todo s)(t := script b t p)\<rparr>"
    | (acq) l r where "ls_todo s t = Acq l # r" "ls_holder s l = None"
      "s' = s\<lparr>ls_holder := (ls_holder s)(l \<mapsto> t), ls_todo := (ls_todo s)(t := r)\<rparr>"
    | (rel) l r where "ls_todo s t = Rel l # r"
      "s' = s\<lparr>ls_holder := (ls_holder s)(l := None), ls_todo := (ls_todo s)(t := r)\<rparr>"
proof (cases "ls_todo s t")
  case Nil
  then show ?thesis using assms base by (auto simp: link_step_def split: if_splits option.splits)
next
  case (Cons x r)
  then show ?thesis using assms acq rel by (cases x) (auto simp: link_step_def lock_step_def split: if_splits)
qed

lemma lreach_holding: "lreach c L T n s \<Longrightarrow> holding s"
proof (induction rule: lreach.induct)
  case lreach_start
  then show ?case by (simp add: lstart_def holding_def)
next
  case (lreach_step n s t p s')
  from lreach_step(3) show ?case
    by (cases rule: link_step_cases) (simp_all only: base_holding acq_holding rel_holding lreach_step(4))
qed

text \<open>Without the locks of the lists a run is one of theory \<open>Concurrent\<close>.\<close>

lemma lreach_reach: "lreach c L T n s \<Longrightarrow> \<exists>m. reach c T m (ls_base s)"
proof (induction rule: lreach.induct)
  case lreach_start
  show ?case using reach_start by (auto simp: lstart_def)
next
  case (lreach_step n s t p s')
  then obtain m where m: "reach c T m (ls_base s)" by blast
  from lreach_step(3) show ?case
  proof (cases rule: link_step_cases)
    case (base b)
    then show ?thesis using reach_step [OF m lreach_step(2)] by auto
  qed (use m in auto)
qed

section \<open>Every schedule ends\<close>

definition script_max :: "calls \<Rightarrow> nat \<Rightarrow> nat" where
  "script_max c L = L * (4 * cl_max c + 6)"

lemma length_visits [simp]: "length (concat (map (\<lambda>n. visit (Link_Lock n)) xs)) = 2 * length xs"
  by (induction xs) (auto simp: visit_def)

lemma length_concat_le: "\<forall>x \<in> set xs. length (f x) \<le> k \<Longrightarrow> length (concat (map f xs)) \<le> length xs * k"
  by (induction xs) auto

lemma link_locks_length: "bounded c L p \<Longrightarrow> length (link_locks j p) \<le> script_max c L"
proof -
  assume b: "bounded c L p"
  let ?k = "4 * cl_max c + 6"
  have "length (concat (map greedyDescend_locks (fst p))) \<le> length (fst p) * ?k"
    by (rule length_concat_le) (use b in \<open>fastforce simp: bounded_def greedyDescend_locks_def\<close>)
  moreover have "length (concat (map (\<lambda>(popped, selected). searchLayer_locks popped @ connectNewElement_locks j selected) (snd p)))
      \<le> length (snd p) * ?k"
  proof (rule length_concat_le, rule ballI)
    fix x assume "x \<in> set (snd p)"
    then have "length (fst x) \<le> cl_max c" "length (snd x) \<le> cl_max c" using b by (auto simp: bounded_def)
    then show "length (case x of (popped, selected) \<Rightarrow> searchLayer_locks popped @ connectNewElement_locks j selected) \<le> ?k"
      by (simp add: case_prod_unfold searchLayer_locks_def connectNewElement_locks_def visit_def [of Pool_Lock] visit_def [of "Link_Lock j"])
  qed
  moreover have "(length (fst p) + length (snd p)) * ?k \<le> L * ?k" by (rule mult_le_mono1) (use b in \<open>simp add: bounded_def\<close>)
  ultimately show ?thesis by (simp add: link_locks_def script_max_def add_mult_distrib)
qed

text \<open>What a thread may still lock in its call.\<close>

fun pending :: "nat \<Rightarrow> pc \<Rightarrow> nat" where
  "pending K (Check i) = K" | "pending K (Alloc i) = K" | "pending K (Fill i j) = K" | "pending K (Register i j) = K"
| "pending K (Set_Level i j) = K" | "pending K (Probe i j) = K" | "pending K (Acquire i j b) = K" | "pending K p = 0"

definition locks_left :: "calls \<Rightarrow> nat \<Rightarrow> nat \<Rightarrow> lstate \<Rightarrow> nat" where
  "locks_left c L T s = script_max c L * (cl_total c - cs_next (ls_base s)) +
     (\<Sum>t<T. pending (script_max c L) (cs_pc (ls_base s) t) + length (ls_todo s t))"

lemma sum_upd:
  fixes f g :: "nat \<Rightarrow> nat"
  assumes "t < T" "\<forall>u. u \<noteq> t \<longrightarrow> f u = g u"
  shows "(\<Sum>u<T. f u) + g t = (\<Sum>u<T. g u) + f t"
proof -
  have "(\<Sum>u \<in> {..<T} - {t}. f u) = (\<Sum>u \<in> {..<T} - {t}. g u)" by (intro sum.cong) (use assms(2) in auto)
  then show ?thesis
    using sum.remove [OF finite_lessThan, of t T f] sum.remove [OF finite_lessThan, of t T g] assms(1) by simp
qed

lemma step_pending:
  assumes "thread_step c t s = Some b" "bounded c L p"
  shows "script_max c L * (cl_total c - cs_next b) + pending (script_max c L) (cs_pc b t) + length (script b t p)
    \<le> script_max c L * (cl_total c - cs_next s) + pending (script_max c L) (cs_pc s t)"
proof (cases "cs_pc s t")
  case Take
  show ?thesis
  proof (cases "cs_next s < cl_total c")
    case True
    then have "cl_total c - cs_next s = Suc (cl_total c - (cs_next s + 1))" by simp
    then show ?thesis using assms(1) Take True by (auto simp: thread_step_def step_defs script_def)
  qed (use assms(1) Take in \<open>auto simp: thread_step_def step_defs script_def\<close>)
next
  case (Acquire i j be)
  then show ?thesis using assms(1) link_locks_length [OF assms(2), of j]
    by (auto simp: thread_step_def step_defs script_def split: if_splits)
qed (use assms(1) in \<open>auto simp: thread_step_def step_defs script_def split: if_splits\<close>)

lemma lock_left:
  assumes "t < T" "ls_todo s t = x # r" "ls_base s' = ls_base s" "ls_todo s' = (ls_todo s)(t := r)"
  shows "locks_left c L T s' < locks_left c L T s"
  using sum_upd [OF assms(1), of "\<lambda>u. pending (script_max c L) (cs_pc (ls_base s) u) + length (((ls_todo s)(t := r)) u)"
      "\<lambda>u. pending (script_max c L) (cs_pc (ls_base s) u) + length (ls_todo s u)"] assms(2)
  by (simp add: locks_left_def assms(3,4))

lemma link_step_left:
  assumes "link_step c L t p s = Some s'" "t < T"
  shows "work c T (ls_base s') + locks_left c L T s' < work c T (ls_base s) + locks_left c L T s"
  using assms(1)
proof (cases rule: link_step_cases)
  case (base b)
  have "locks_left c L T s' \<le> locks_left c L T s"
    using sum_upd [OF assms(2), of "\<lambda>u. pending (script_max c L) (cs_pc b u) + length (ls_todo s' u)"
        "\<lambda>u. pending (script_max c L) (cs_pc (ls_base s) u) + length (ls_todo s u)"]
      thread_step_others [OF base(3)] step_pending [OF base(3,2)] base(1) by (simp add: locks_left_def base(4))
  then show ?thesis using step_work [OF base(3) assms(2)] base(4) by simp
next
  case (acq l r)
  then show ?thesis using lock_left [OF assms(2) acq(1), of s'] by simp
next
  case (rel l r)
  then show ?thesis using lock_left [OF assms(2) rel(1), of s'] by simp
qed

lemma lreach_left: "lreach c L T n s \<Longrightarrow> n + work c T (ls_base s) + locks_left c L T s \<le> (10 + script_max c L) * cl_total c + T"
proof (induction rule: lreach.induct)
  case lreach_start
  show ?case by (simp add: work_def locks_left_def lstart_def start_def add_mult_distrib)
next
  case (lreach_step n s t p s')
  then show ?case using link_step_left [of c L t p s s' T] by simp
qed

section \<open>No deadlock\<close>

lemma link_progress:
  assumes h: "holding s" and l: "lock_ok (ls_base s)" and f: "\<forall>t. T \<le> t \<longrightarrow> cs_pc (ls_base s) t = Finished"
    and n: "\<not> ended T (ls_base s)"
  shows "\<exists>t < T. \<exists>p s'. link_step c L t p s = Some s'"
proof -
  have low: "t < T" if "ls_todo s t \<noteq> []" for t
    using h that f unfolding holding_def by (metis leI pc.distinct pc.simps)
  consider (rel) t l r where "ls_todo s t = Rel l # r" | (acq) t l r where "ls_todo s t = Acq l # r" "\<forall>u l r. ls_todo s u \<noteq> Rel l # r"
    | (none) "\<forall>t. ls_todo s t = []"
    by (metis lock_op.exhaust neq_Nil_conv)
  then show ?thesis
  proof cases
    case rel
    then show ?thesis using low [of t] by (auto simp: link_step_def lock_step_def)
  next
    case acq
    then have "ls_holder s l = None" using h unfolding holding_def by (metis option.exhaust)
    then show ?thesis using low [of t] acq(1) by (auto simp: link_step_def lock_step_def)
  next
    case none
    obtain t b where "t < T" "thread_step c t (ls_base s) = Some b" using not_ended_step [OF l n f] by blast
    moreover have "bounded c L ([], [])" by (simp add: bounded_def)
    ultimately show ?thesis using none by (intro exI [of _ t]) (auto simp: link_step_def intro!: exI [of _ "([], [])"])
  qed
qed

section \<open>A schedule\<close>

definition lschedule :: "calls \<Rightarrow> nat \<Rightarrow> nat \<Rightarrow> (nat \<times> plan) list \<Rightarrow> lstate option" where
  "lschedule c L T ts = foldM (\<lambda>s (t, p). link_step c L t p s) (lstart c T) ts"

lemma lschedule_reach:
  assumes "lschedule c L T ts = Some s" "\<forall>x \<in> set ts. fst x < T"
  shows "lreach c L T (length ts) s"
proof -
  have "lreach c L T (n + length ts) s"
    if "foldM (\<lambda>s (t, p). link_step c L t p s) a ts = Some s" "lreach c L T n a" for n a
    using that assms(2)
  proof (induction ts arbitrary: a n)
    case (Cons x ts)
    obtain t p where x: "x = (t, p)" by (cases x)
    then obtain b where "link_step c L t p a = Some b" "foldM (\<lambda>s (t, p). link_step c L t p s) b ts = Some s"
      using Cons.prems(1) by (auto split: option.splits)
    then show ?case using Cons.IH [of b "Suc n"] lreach_step [OF Cons.prems(2), of t p b] Cons.prems(3) x by simp
  qed simp
  from this [OF _ lreach_start] show ?thesis using assms(1) by (simp add: lschedule_def)
qed

text \<open>Two insertions, one after the other; the second one visits and links to the first element.\<close>

definition ex_lturns :: "(nat \<times> plan) list" where
  "ex_lturns = replicate 9 (0, [], []) @ replicate 19 (1, [], [([0], [0])]) @ [(1, [], []), (0, [], [])]"

lemma ex_lrun:
  obtains s where "lreach (ex_calls (\<lambda>i. Label 1 (of_nat i))) 2 2 30 s" "ended 2 (ls_base s)"
proof -
  let ?c = "ex_calls (\<lambda>i. Label 1 (of_nat i))"
  have "map_option (\<lambda>s. map (cs_pc (ls_base s)) [0, 1]) (lschedule ?c 2 2 ex_lturns) = Some [Finished, Finished]" by code_simp
  then obtain s where s: "lschedule ?c 2 2 ex_lturns = Some s" "map (cs_pc (ls_base s)) [0, 1] = [Finished, Finished]" by auto
  have "length ex_lturns = 30" by code_simp
  moreover have "lreach ?c 2 2 (length ex_lturns) s" by (rule lschedule_reach [OF s(1)]) (auto simp: ex_lturns_def)
  moreover have "ended 2 (ls_base s)" using s(2) by (auto simp: ended_def less_2_cases_iff)
  ultimately show ?thesis using that by simp
qed

section \<open>Property\<close>

text \<open>
  C19: Concurrent insertions with the locks of the entry point, of every list of links and of the pool (those of the
  labels and the generator guard a single step that locks nothing else): a state in which not all threads have ended has a thread that can
  make a step, whatever elements the insertions visit; a run of \<open>T\<close> threads over \<open>N\<close> calls has at most
  \<open>(10 + L * (4 * cap + 6)) * N + T\<close> steps, where \<open>L\<close> bounds the layers a call passes and \<open>cap\<close> is the
  capacity; and when all threads have ended these locks are free.
\<close>

theorem linking_schedules_end:
  assumes "lreach c L T n s" "cl_max c + T \<le> 2 ^ 32"
  shows "n \<le> (10 + L * (4 * cl_max c + 6)) * cl_total c + T \<and>
    (\<not> ended T (ls_base s) \<longrightarrow> (\<exists>t < T. \<exists>p s'. link_step c L t p s = Some s' \<and> lreach c L T (Suc n) s')) \<and>
    (ended T (ls_base s) \<longrightarrow> (\<forall>l. ls_holder s l = None) \<and> cs_writer (ls_base s) = None \<and> cs_readers (ls_base s) = {})"
proof -
  obtain m where r: "reach c T m (ls_base s)" using lreach_reach [OF assms(1)] by blast
  have b: "lock_ok (ls_base s)" "\<forall>t. T \<le> t \<longrightarrow> cs_pc (ls_base s) t = Finished"
    using reach_invariant [OF r assms(2)] by (auto simp: ids_ok_def calls_ok_def)
  note h = lreach_holding [OF assms(1)]
  have "n \<le> (10 + L * (4 * cl_max c + 6)) * cl_total c + T" using lreach_left [OF assms(1)] by (simp add: script_max_def)
  moreover have "\<not> ended T (ls_base s) \<longrightarrow> (\<exists>t < T. \<exists>p s'. link_step c L t p s = Some s' \<and> lreach c L T (Suc n) s')"
    using link_progress [OF h b] lreach_step [OF assms(1)] by blast
  moreover have "(\<forall>l. ls_holder s l = None) \<and> cs_writer (ls_base s) = None \<and> cs_readers (ls_base s) = {}" if e: "ended T (ls_base s)"
  proof -
    have p: "cs_pc (ls_base s) t = Finished \<or> (\<exists>i. cs_pc (ls_base s) t = Thrown i)" for t
      using e b(2) by (cases "t < T") (auto simp: ended_def)
    then have "ls_todo s t = []" for t using h unfolding holding_def by (metis pc.distinct pc.simps)
    then have "\<forall>l. ls_holder s l = None" using h unfolding holding_def by (metis list.distinct(1) option.exhaust)
    moreover have "lock_of (cs_pc (ls_base s) t) = None" for t using p [of t] by auto
    ultimately show ?thesis using b(1) unfolding lock_ok_def by auto
  qed
  ultimately show ?thesis by blast
qed

theorem linking_schedules_end_witness:
  "\<exists>s. lreach (ex_calls (\<lambda>i. Label 1 (of_nat i))) 2 2 30 s \<and> (\<forall>l. ls_holder s l = None) \<and>
     cs_writer (ls_base s) = None \<and> (30 :: nat) \<le> (10 + 2 * (4 * 2 + 6)) * 2 + 2"
proof -
  obtain s where s: "lreach (ex_calls (\<lambda>i. Label 1 (of_nat i))) 2 2 30 s" "ended 2 (ls_base s)" by (rule ex_lrun)
  from linking_schedules_end [OF s(1)] s show ?thesis by (auto simp: ex_calls_def)
qed

end
