(* ===== verification/Hnsw_Repeat.thy ===== *)
theory Hnsw_Repeat
  imports Hnsw_Snapshot
begin

text \<open>
  A query leaves its marks in the pool of visited lists, the only part of the index it changes. Here: the
  pool never influences an answer. Two searches of indexes that differ in their pools run in lock step, with
  the same heaps and the same set of visited nodes (\<open>beam_sim\<close>), so a query can be repeated, and
  an index that was saved and loaded answers every query as before.
\<close>

section \<open>Loops in lock step\<close>

lemma foldM_rel:
  assumes "R s s'" "\<And>s s' x. R s s' \<Longrightarrow> rel_option R (f s x) (g s' x)"
  shows "rel_option R (foldM f s xs) (foldM g s' xs)"
  using assms(1)
proof (induction xs arbitrary: s s')
  case (Cons x xs)
  from assms(2) [OF Cons.prems, of x] show ?case using Cons.IH by (auto elim!: option.rel_cases)
qed simp

definition beam_sim :: "nat \<Rightarrow> beam \<Rightarrow> beam \<Rightarrow> bool" where
  "beam_sim n s s' \<longleftrightarrow> bm_frontier s = bm_frontier s' \<and> bm_results s = bm_results s' \<and> bm_worst s = bm_worst s' \<and>
     vl_ok n (bm_visited s) \<and> vl_ok n (bm_visited s') \<and> visited (bm_visited s) = visited (bm_visited s')"

lemma pool_access [simp]:
  "distance (ix\<lparr>ix_visitedPool := p\<rparr>) = distance ix" "admits (ix\<lparr>ix_visitedPool := p\<rparr>) = admits ix"
  "linkBlock (ix\<lparr>ix_visitedPool := p\<rparr>) = linkBlock ix" "to_result (ix\<lparr>ix_visitedPool := p\<rparr>) = to_result ix"
  "normalizeInPlace (ix\<lparr>ix_visitedPool := p\<rparr>) = normalizeInPlace ix"
  by (simp_all add: fun_eq_iff distance_def getData_def admits_def linkBlock_def Let_def to_result_def normalizeInPlace_def
      split: option.split)

lemma pool_reads [simp]:
  "copyLinks (ix\<lparr>ix_visitedPool := p\<rparr>) = copyLinks ix" "readLinks (ix\<lparr>ix_visitedPool := p\<rparr>) = readLinks ix"
  "prepare_query (ix\<lparr>ix_visitedPool := p\<rparr>) = prepare_query ix"
  by (simp_all add: fun_eq_iff copyLinks_def readLinks_def prepare_query_def cong: space.case_cong)

lemma testAndSet_sim:
  assumes "vl_ok n v" "vl_ok n v'" "visited v = visited v'"
  shows "rel_option (\<lambda>(a, w) (b, w'). a = b \<and> vl_ok n w \<and> vl_ok n w' \<and> visited w = visited w') (testAndSet i v) (testAndSet i v')"
proof (cases "i < n")
  case True
  then show ?thesis using testAndSet_spec [OF assms(1) True] testAndSet_spec [OF assms(2) True] assms(3) by auto
next
  case False
  then show ?thesis using assms(1,2) by (simp add: testAndSet_def rd_def vl_ok_def)
qed

lemma beam_visit_sim:
  assumes "beam_sim n s s'"
  shows "rel_option (beam_sim n) (beam_visit ix q ef fd s c) (beam_visit (ix\<lparr>ix_visitedPool := p\<rparr>) q ef fd s' c)"
proof -
  have v: "vl_ok n (bm_visited s)" "vl_ok n (bm_visited s')" "visited (bm_visited s) = visited (bm_visited s')"
    using assms by (simp_all add: beam_sim_def)
  show ?thesis
  proof (cases "testAndSet c (bm_visited s)")
    case None
    then show ?thesis using testAndSet_sim [OF v, of c] by (simp add: beam_visit_def)
  next
    case (Some r)
    obtain b x y where t: "testAndSet c (bm_visited s) = Some (b, x)" "testAndSet c (bm_visited s') = Some (b, y)"
      "vl_ok n x" "vl_ok n y" "visited x = visited y"
      using testAndSet_sim [OF v, of c] Some by (auto elim!: option.rel_cases)
    have m: "beam_sim n (s\<lparr>bm_visited := x\<rparr>) (s'\<lparr>bm_visited := y\<rparr>)" using assms t by (simp add: beam_sim_def)
    moreover have "beam_sim n (beam_admit ef ok d c (s\<lparr>bm_visited := x\<rparr>)) (beam_admit ef ok d c (s'\<lparr>bm_visited := y\<rparr>))" for ok d
      using m by (simp add: beam_sim_def beam_admit_def Let_def)
    moreover have "bm_results s' = bm_results s" "bm_worst s' = bm_worst s" using assms by (simp_all add: beam_sim_def)
    ultimately show ?thesis using t(1,2) by (simp add: beam_visit_def option.rel_map option.rel_refl split: option.split)
  qed
qed

lemma search_loop_sim:
  assumes "beam_sim n s s'"
  shows "rel_option (beam_sim n) (search_loop ix q ef level fd s) (search_loop (ix\<lparr>ix_visitedPool := p\<rparr>) q ef level fd s')"
  using assms
proof (induction ix q ef level fd s arbitrary: s' rule: search_loop.induct)
  case (1 ix q ef level fd s)
  let ?ix = "ix\<lparr>ix_visitedPool := p\<rparr>" and ?b = "pq_top (bm_frontier s)"
  have e: "bm_frontier s' = bm_frontier s" "bm_results s' = bm_results s" "bm_worst s' = bm_worst s"
    using "1.prems" by (simp_all add: beam_sim_def)
  show ?case
  proof (cases "bm_frontier s = [] \<or> bm_worst s < fst ?b \<and> ef \<le> length (bm_results s)")
    case True
    then show ?thesis using "1.prems" e by (subst (1 2) search_loop.simps) (auto simp: Let_def)
  next
    case False
    let ?s = "s\<lparr>bm_frontier := pq_pop CloserFirst (bm_frontier s)\<rparr>" and ?s' = "s'\<lparr>bm_frontier := pq_pop CloserFirst (bm_frontier s')\<rparr>"
    have u: "search_loop ix q ef level fd s = (case copyLinks ix (snd ?b) level of None \<Rightarrow> None
        | Some buf \<Rightarrow> (case foldM (beam_visit ix q ef fd) ?s buf of None \<Rightarrow> None | Some t \<Rightarrow> search_loop ix q ef level fd t))"
      "search_loop ?ix q ef level fd s' = (case copyLinks ix (snd ?b) level of None \<Rightarrow> None
        | Some buf \<Rightarrow> (case foldM (beam_visit ?ix q ef fd) ?s' buf of None \<Rightarrow> None | Some t \<Rightarrow> search_loop ?ix q ef level fd t))"
      using False e by (subst search_loop.simps, auto simp: Let_def)+
    show ?thesis
    proof (cases "copyLinks ix (snd ?b) level")
      case (Some buf)
      have "beam_sim n ?s ?s'" using "1.prems" by (simp add: beam_sim_def)
      then have r: "rel_option (beam_sim n) (foldM (beam_visit ix q ef fd) ?s buf) (foldM (beam_visit ?ix q ef fd) ?s' buf)"
        by (rule foldM_rel) (rule beam_visit_sim)
      show ?thesis
      proof (cases "foldM (beam_visit ix q ef fd) ?s buf")
        case None
        then show ?thesis using r Some by (simp add: u)
      next
        fix t assume t: "foldM (beam_visit ix q ef fd) ?s buf = Some t"
        then obtain t' where t': "foldM (beam_visit ?ix q ef fd) ?s' buf = Some t'" "beam_sim n t t'"
          using r by (auto elim: option.rel_cases)
        have "rel_option (beam_sim n) (search_loop ix q ef level fd t) (search_loop ?ix q ef level fd t')"
          by (rule "1.IH" [OF _ refl _ Some t t'(2)]) (use False in auto)
        then show ?thesis using Some t t'(1) by (simp add: u)
      qed
    qed (simp add: u)
  qed
qed

lemma rel_results: "rel_option (beam_sim n) x y \<Longrightarrow> map_option bm_results y = map_option bm_results x"
  by (auto simp: beam_sim_def elim: option.rel_cases)

section \<open>The query\<close>

lemma searchLayer_pool:
  assumes "pool_ok (ix_visitedPool ix)" "pool_ok p" "vp_n p = vp_n (ix_visitedPool ix)"
  shows "map_option fst (searchLayer (ix\<lparr>ix_visitedPool := p\<rparr>) q e ef level fd) = map_option fst (searchLayer ix q e ef level fd)"
proof -
  obtain v0 r0 v1 r1 where a: "acquire (ix_visitedPool ix) = (v0, r0)" "acquire p = (v1, r1)" by fastforce
  define n where "n = vp_n (ix_visitedPool ix)"
  have v: "vl_ok n v0" "vl_ok n v1" using acquire_ok [OF assms(1) a(1)] acquire_ok [OF assms(2) a(2)] assms(3) by (simp_all add: n_def)
  have w: "vl_ok n (reset v0)" "vl_ok n (reset v1)" "visited (reset v0) = visited (reset v1)"
    using reset_ok visited_reset v by auto
  from testAndSet_sim [OF this, of e] consider
      (none) "testAndSet e (reset v0) = None" "testAndSet e (reset v1) = None"
    | (some) b x y where "testAndSet e (reset v0) = Some (b, x)" "testAndSet e (reset v1) = Some (b, y)"
        "vl_ok n x" "vl_ok n y" "visited x = visited y"
    by (auto elim!: option.rel_cases)
  then show ?thesis
  proof cases
    case none
    then show ?thesis by (simp add: searchLayer_def a Let_def split: option.split)
  next
    case some
    have "rel_option (beam_sim n)
        (search_loop ix q ef level fd \<lparr>bm_frontier = f, bm_results = r, bm_worst = m, bm_visited = x\<rparr>)
        (search_loop (ix\<lparr>ix_visitedPool := p\<rparr>) q ef level fd \<lparr>bm_frontier = f, bm_results = r, bm_worst = m, bm_visited = y\<rparr>)" for f r m
      by (rule search_loop_sim) (use some in \<open>simp add: beam_sim_def\<close>)
    then have "map_option bm_results (search_loop (ix\<lparr>ix_visitedPool := p\<rparr>) q ef level fd \<lparr>bm_frontier = f, bm_results = r, bm_worst = m, bm_visited = y\<rparr>) =
        map_option bm_results (search_loop ix q ef level fd \<lparr>bm_frontier = f, bm_results = r, bm_worst = m, bm_visited = x\<rparr>)" for f r m
      by (rule rel_results)
    then show ?thesis using some(1,2) by (simp add: searchLayer_def a Let_def option.map_comp o_def split: option.split)
  qed
qed

lemma greedy_loop_pool: "greedy_loop (ix\<lparr>ix_visitedPool := p\<rparr>) q level cur d = greedy_loop ix q level cur d"
proof (induction ix q level cur d rule: greedy_loop.induct)
  case (1 ix q level cur d)
  have "greedy_try (ix\<lparr>ix_visitedPool := p\<rparr>) = greedy_try ix" by (simp add: fun_eq_iff greedy_try_def)
  then show ?case using 1 by (subst (1 2) greedy_loop.simps) (auto split: option.split)
qed

lemma descend_pool: "descend (ix\<lparr>ix_visitedPool := p\<rparr>) q cur l stop = descend ix q cur l stop"
proof (induction ix q cur l stop rule: descend.induct)
  case (1 ix q cur l stop)
  have "greedyDescend (ix\<lparr>ix_visitedPool := p\<rparr>) = greedyDescend ix" by (simp add: fun_eq_iff greedyDescend_def greedy_loop_pool split: option.split)
  then show ?case using 1 by (subst (1 2) descend.simps) (auto split: option.split)
qed

lemma search_pool:
  assumes "wf_ix ix" "pool_ok p" "vp_n p = ix_maxElements ix"
  shows "map_option fst (search (ix\<lparr>ix_visitedPool := p\<rparr>) q k ef) = map_option fst (search ix q k ef)"
proof -
  have "pool_ok (ix_visitedPool ix)" "vp_n p = vp_n (ix_visitedPool ix)" using assms by (auto simp: wf_ix_def shape_def)
  note l = searchLayer_pool [OF this(1) assms(2) this(2)]
  have s: "map_option fst (search i q k ef) = (if ix_count i = 0 then Some [] else case prepare_query i q of None \<Rightarrow> None
      | Some q' \<Rightarrow> if ix_entryPoint i = kNone then Some [] else case descend i q' (ix_entryPoint i) (ix_maxLevel i) 0 of None \<Rightarrow> None
        | Some cur \<Rightarrow> (case map_option fst (searchLayer i q' cur (max ef k) 0 True) of None \<Rightarrow> None
          | Some heap \<Rightarrow> those (map (to_result i) (top_k k heap))))" for i
    by (simp add: search_def option.map_comp o_def option.map_ident split: option.split)
  show ?thesis unfolding s l by (simp add: descend_pool split: option.split)
qed

section \<open>Properties\<close>

text \<open>
  A query can be repeated: whatever queries run in between, and whatever their parameters, it gives the
  same answer.
\<close>

lemma search_repeatable:
  assumes "wf_ix ix" "\<forall>opn \<in> set ops. \<exists>q' k' ef'. opn = Search q' k' ef' \<and> ix_dim ix \<le> length q'"
  shows "\<exists>os ix'. run ix ops = Some (os, ix') \<and> map_option fst (search ix' q k ef) = map_option fst (search ix q k ef)"
proof -
  have "\<exists>os p. run ix ops = Some (os, ix\<lparr>ix_visitedPool := p\<rparr>) \<and> pool_ok p \<and> vp_n p = ix_maxElements ix"
    using assms
  proof (induction ops arbitrary: ix)
    case Nil
    have "run ix [] = Some ([], ix\<lparr>ix_visitedPool := ix_visitedPool ix\<rparr>)" by simp
    then show ?case using Nil by (metis shape_def wf_ix_def)
  next
    case (Cons opn ops)
    then obtain q' k' ef' where o: "opn = Search q' k' ef'" "ix_dim ix \<le> length q'" by auto
    obtain out p where s: "search ix q' k' ef' = Some (out, ix\<lparr>ix_visitedPool := p\<rparr>)" "wf_ix (ix\<lparr>ix_visitedPool := p\<rparr>)"
      using search_spec [OF Cons.prems(1) o(2), of k' ef'] by blast
    obtain os p' where "run (ix\<lparr>ix_visitedPool := p\<rparr>) ops = Some (os, ix\<lparr>ix_visitedPool := p'\<rparr>)" "pool_ok p'" "vp_n p' = ix_maxElements ix"
      using Cons.IH [OF s(2)] Cons.prems(2) by auto
    then show ?case using s(1) o(1) by (auto simp: step_op_def)
  qed
  then show ?thesis using search_pool [OF assms(1)] by metis
qed

lemma search_repeatable_witness:
  "\<exists>os ix'. run ex_two [Search [1] 2 2, Search [1] 1 1] = Some (os, ix') \<and>
     map_option fst (search ix' [1] 1 2) = map_option fst (search ex_two [1] 1 2)"
  using search_repeatable [OF ex_two_wf(1), of "[Search [1] 2 2, Search [1] 1 1]" "[1]" 1 2] by (simp add: ex_two_wf)

text \<open>
  C29: An index that was saved and loaded answers every query exactly as the original does, results and order.
\<close>

theorem reload_answers:
  assumes "wf_ix ix" "typed ix"
  shows "\<exists>bs ix'. snapshot_bytes ix = Some bs \<and> load (ix_avx ix) junk path (Some bs) = Some (Inr ix') \<and>
    (\<forall>q k ef. map_option fst (search ix' q k ef) = map_option fst (search ix q k ef)) \<and> size_ix ix' = size_ix ix"
proof -
  obtain bs where bs: "snapshot_bytes ix = Some bs" using snapshot_bytes_wf [OF assms(1)] by blast
  let ?p = "VisitedListPool 1 (ix_maxElements ix)"
  have r: "reloaded (ix_avx ix) ix = ix\<lparr>ix_visitedPool := ?p\<rparr>" by (cases ix) (simp add: reloaded_def)
  have "vp_n ?p = ix_maxElements ix" by (simp add: VisitedListPool_def)
  note s = search_pool [OF assms(1) pool_ok_new this]
  show ?thesis using bs load_roundtrip [OF assms bs, of "ix_avx ix" junk path] s unfolding r by (auto simp: size_ix_def)
qed

theorem reload_answers_witness:
  "\<exists>bs ix'. snapshot_bytes ex_two = Some bs \<and> load (ix_avx ex_two) id ''f'' (Some bs) = Some (Inr ix') \<and>
     map_option fst (search ix' [1] 1 2) = map_option fst (search ex_two [1] 1 2)"
  using reload_answers [OF ex_two_wf(1) ex_two_typed, of id "''f''"] by blast

end
