(* ===== verification/Routing.thy ===== *)
theory Routing
  imports Hnsw_Ops
begin

text \<open>
  Which shard owns a vector: the FNV-1a hash of \<open>src/shard_sim.cpp\<close> (\<open>fnv1a64\<close>,
  \<open>hashKey\<close>, \<open>shardFor\<close>), the assignment of the simulated vectors to shards with its
  statistics (question Q1 there), and the hash of a label in the index's table (\<open>LabelHash\<close> of
  \<open>include/hnsw.hpp\<close>, with \<open>std::hash\<close> a parameter).
\<close>

unbundle bit_operations_syntax

section \<open>The hash\<close>

definition fnv_step :: "64 word \<Rightarrow> 8 word \<Rightarrow> 64 word" where
  "fnv_step h b = (h XOR ucast b) * 1099511628211"

definition fnv1a64 :: "8 word list \<Rightarrow> 64 word" where
  "fnv1a64 data = foldl fnv_step 14695981039346656037 data"

definition bytes_le :: "64 word \<Rightarrow> 8 word list" where
  "bytes_le x = map (\<lambda>i. ucast (drop_bit (8 * i) x)) [0..<8]"

definition hashKey :: "64 word \<Rightarrow> 64 word \<Rightarrow> 64 word" where
  "hashKey client lab = fnv1a64 (bytes_le client @ bytes_le lab)"

text \<open>\<open>%\<close> by zero is undefined: the caller owes a positive number of shards.\<close>

definition shardFor :: "64 word \<Rightarrow> 64 word \<Rightarrow> nat \<Rightarrow> nat option" where
  "shardFor client lab numShards = (if numShards = 0 then None else Some (unat (hashKey client lab) mod numShards))"

definition LabelHash :: "(64 word \<Rightarrow> 64 word) \<Rightarrow> label \<Rightarrow> 64 word" where
  "LabelHash std_hash l =
     (let h1 = std_hash (clientId l); h2 = std_hash (label_no l)
      in h1 XOR (h2 + 0x9e3779b97f4a7c15 + push_bit 6 h1 + drop_bit 2 h1))"

section \<open>Assigning vectors to shards\<close>

definition assign_one :: "64 word list \<Rightarrow> nat \<Rightarrow> nat list \<times> nat list list \<Rightarrow> nat \<Rightarrow> (nat list \<times> nat list list) option" where
  "assign_one clientIds numShards st i =
     (case st of (counts, members) \<Rightarrow>
      case rd clientIds i of None \<Rightarrow> None
      | Some c \<Rightarrow> (case shardFor c (of_nat i) numShards of None \<Rightarrow> None
        | Some s \<Rightarrow> Some (counts[s := (counts ! s + 1) mod 2 ^ 64], members[s := members ! s @ [i]])))"

definition assign :: "64 word list \<Rightarrow> nat \<Rightarrow> nat \<Rightarrow> (nat list \<times> nat list list) option" where
  "assign clientIds numShards N =
     foldM (assign_one clientIds numShards) (replicate numShards 0, replicate numShards []) [0..<N]"

definition spread :: "nat \<Rightarrow> nat list \<Rightarrow> nat \<times> nat" where
  "spread N counts = foldl (\<lambda>(mn, mx) c. (min mn c, max mx c)) (N, 0) counts"

section \<open>Facts about the hash\<close>

lemma fnv_prime_inverse: "(1099511628211 :: 64 word) * 14886173955864302971 = 1"
  by simp

lemma fnv_step_cancel: "(x :: 64 word) * 1099511628211 = y * 1099511628211 \<Longrightarrow> x = y"
proof -
  assume "x * 1099511628211 = y * 1099511628211"
  then have "x * (1099511628211 * 14886173955864302971) = y * (1099511628211 * 14886173955864302971)"
    by (simp only: mult.assoc [symmetric])
  then show "x = y" unfolding fnv_prime_inverse by simp
qed

lemma xor_cancel: "(x :: 64 word) XOR c = y XOR c \<Longrightarrow> x = y"
proof -
  assume "x XOR c = y XOR c"
  then have "(x XOR c) XOR c = (y XOR c) XOR c" by (simp only:)
  then show "x = y" by (simp only: xor.assoc xor_self_eq xor.right_neutral)
qed

lemma fnv_step_inj1: "fnv_step h b = fnv_step h' b \<Longrightarrow> h = h'"
  unfolding fnv_step_def by (rule xor_cancel, rule fnv_step_cancel)

lemma fnv_step_inj2: "fnv_step h b = fnv_step h b' \<Longrightarrow> b = b'"
proof -
  assume "fnv_step h b = fnv_step h b'"
  then have "h XOR ucast b = h XOR ucast b'" unfolding fnv_step_def by (rule fnv_step_cancel)
  then have "ucast b XOR h = ucast b' XOR h" by (simp only: xor.commute)
  then have u: "(ucast b :: 64 word) = ucast b'" by (rule xor_cancel)
  show "b = b'"
  proof (rule bit_word_eqI)
    fix n :: nat assume "n < LENGTH(8)"
    then show "bit b n = bit b' n" using arg_cong [OF u, of "\<lambda>w. bit w n"] by (simp add: bit_ucast_iff)
  qed
qed

lemma fnv_foldl_inj: "foldl fnv_step h xs = foldl fnv_step h' xs \<Longrightarrow> h = h'"
  by (induction xs arbitrary: h h') (auto dest: fnv_step_inj1)

lemma fnv1a64_one_byte: "fnv1a64 (xs @ b # ys) = fnv1a64 (xs @ b' # ys) \<Longrightarrow> b = b'"
  by (auto simp: fnv1a64_def dest: fnv_foldl_inj fnv_step_inj2)

lemma fnv1a64_differ_once:
  assumes "length k = length k'" "i < length k" "\<forall>j < length k. j \<noteq> i \<longrightarrow> k ! j = k' ! j" "fnv1a64 k = fnv1a64 k'"
  shows "k = k'"
proof -
  have d: "k = take i k @ k ! i # drop (Suc i) k" "k' = take i k' @ k' ! i # drop (Suc i) k'"
    using assms(1,2) by (simp_all add: id_take_nth_drop)
  have "take i k = take i k'" "drop (Suc i) k = drop (Suc i) k'"
    using assms(1-3) by (auto intro!: nth_equalityI)
  then show ?thesis using d assms(4) fnv1a64_one_byte by metis
qed

lemma length_bytes_le [simp]: "length (bytes_le x) = 8"
  by (simp add: bytes_le_def)

lemma bytes_le_inj: "bytes_le x = bytes_le y \<Longrightarrow> x = y"
proof -
  assume e: "bytes_le x = bytes_le y"
  show "x = y"
  proof (rule bit_word_eqI)
    fix n :: nat assume n: "n < LENGTH(64)"
    then have "n div 8 < 8" by simp
    then have "(ucast (drop_bit (8 * (n div 8)) x) :: 8 word) = ucast (drop_bit (8 * (n div 8)) y)"
      using arg_cong [OF e, of "\<lambda>l. l ! (n div 8)"] by (simp add: bytes_le_def)
    then have "bit (ucast (drop_bit (8 * (n div 8)) x) :: 8 word) (n mod 8) = bit (ucast (drop_bit (8 * (n div 8)) y) :: 8 word) (n mod 8)"
      by simp
    then show "bit x n = bit y n" by (simp add: bit_ucast_iff bit_drop_bit_eq)
  qed
qed

section \<open>The assignment\<close>

definition members_of :: "64 word list \<Rightarrow> nat \<Rightarrow> nat \<Rightarrow> nat \<Rightarrow> nat list" where
  "members_of clientIds numShards N s = filter (\<lambda>i. shardFor (clientIds ! i) (of_nat i) numShards = Some s) [0..<N]"

lemma shardFor_less: "shardFor c l n = Some s \<Longrightarrow> s < n"
  by (auto simp: shardFor_def split: if_splits)

lemma assign_members:
  assumes "0 < n" "N \<le> length clientIds" "N < 2 ^ 64"
  shows "assign clientIds n N =
    Some (map (\<lambda>s. length (members_of clientIds n N s)) [0..<n], map (members_of clientIds n N) [0..<n])"
proof -
  define st where "st k = (map (\<lambda>s. length (members_of clientIds n k s)) [0..<n], map (members_of clientIds n k) [0..<n])" for k
  have "foldM (assign_one clientIds n) (st 0) [0..<N] = Some (st N)"
  proof (rule foldM_upt)
    fix k assume k: "k < N"
    obtain s where s: "shardFor (clientIds ! k) (of_nat k) n = Some s" using assms(1) by (simp add: shardFor_def)
    note sn = shardFor_less [OF s]
    have m: "members_of clientIds n (Suc k) t = members_of clientIds n k t @ (if t = s then [k] else [])" for t
      using s by (simp add: members_of_def)
    have len: "length (members_of clientIds n k t) \<le> k" for t unfolding members_of_def by (metis diff_zero length_filter_le length_upt)
    have "(map (\<lambda>t. length (members_of clientIds n k t)) [0..<n])[s := (length (members_of clientIds n k s) + 1) mod 2 ^ 64] =
        map (\<lambda>t. length (members_of clientIds n (Suc k) t)) [0..<n]"
      using len [of s] k assms(3) by (intro nth_equalityI) (auto simp: m nth_list_update)
    moreover have "(map (members_of clientIds n k) [0..<n])[s := members_of clientIds n k s @ [k]] =
        map (members_of clientIds n (Suc k)) [0..<n]"
      by (intro nth_equalityI) (auto simp: m nth_list_update)
    ultimately show "assign_one clientIds n (st k) k = Some (st (Suc k))"
      using s sn k assms(2) by (simp add: assign_one_def st_def rd_def)
  qed
  moreover have "st 0 = (replicate n 0, replicate n [])" by (auto simp: st_def members_of_def intro!: nth_equalityI)
  ultimately show ?thesis by (simp add: assign_def st_def)
qed

lemma members_total:
  assumes "0 < n" shows "(\<Sum>s<n. length (members_of clientIds n N s)) = N"
proof (induction N)
  case (Suc N)
  obtain t where t: "shardFor (clientIds ! N) (of_nat N) n = Some t" using assms by (simp add: shardFor_def)
  have "length (members_of clientIds n (Suc N) s) = length (members_of clientIds n N s) + (if s = t then 1 else 0)" for s
    using t by (simp add: members_of_def)
  then show ?case using Suc shardFor_less [OF t] by (simp add: sum.distrib)
qed (simp add: members_of_def)

lemma spread_bounds:
  "spread N counts = (mn, mx) \<Longrightarrow> (\<forall>c \<in> set counts. mn \<le> c \<and> c \<le> mx) \<and> mn \<le> N \<and> (mn \<noteq> N \<longrightarrow> mn \<in> set counts) \<and>
     (mx \<noteq> 0 \<longrightarrow> mx \<in> set counts)"
proof -
  have "foldl (\<lambda>(mn, mx) c. (min mn c, max mx c)) (a, b) counts = (mn, mx) \<Longrightarrow>
    (\<forall>c \<in> set counts. mn \<le> c \<and> c \<le> mx) \<and> mn \<le> a \<and> b \<le> mx \<and> (mn \<noteq> a \<longrightarrow> mn \<in> set counts) \<and> (mx \<noteq> b \<longrightarrow> mx \<in> set counts)"
    for a b :: nat
  proof (induction counts arbitrary: a b)
    case (Cons c counts)
    from Cons.IH [of "min a c" "max b c"] Cons.prems show ?case by (auto simp: min_def max_def split: if_splits)
  qed simp
  from this [of N 0] show "spread N counts = (mn, mx) \<Longrightarrow> ?thesis" by (auto simp: spread_def)
qed

lemma sum_list_bounds:
  fixes xs :: "nat list"
  shows "\<forall>c \<in> set xs. lo \<le> c \<and> c \<le> hi \<Longrightarrow> lo * length xs \<le> sum_list xs \<and> sum_list xs \<le> hi * length xs"
  by (induction xs) auto

lemma assign_spec:
  assumes "0 < n" "N \<le> length clientIds" "N < 2 ^ 64"
  shows "\<exists>counts members. assign clientIds n N = Some (counts, members) \<and> length members = n \<and>
    counts = map length members \<and> sum_list counts = N \<and>
    (\<forall>i < N. \<forall>s < n. i \<in> set (members ! s) \<longleftrightarrow> shardFor (clientIds ! i) (of_nat i) n = Some s) \<and>
    (case spread N counts of (mn, mx) \<Rightarrow> mn * n \<le> N \<and> N \<le> mx * n)"
proof -
  let ?c = "map (\<lambda>s. length (members_of clientIds n N s)) [0..<n]" and ?m = "map (members_of clientIds n N) [0..<n]"
  have sum: "sum_list ?c = N" using members_total [OF assms(1), of clientIds N]
    by (simp add: interv_sum_list_conv_sum_set_nat atLeast0LessThan)
  obtain mn mx where s: "spread N ?c = (mn, mx)" by fastforce
  note b = spread_bounds [OF s]
  have "mn * n \<le> sum_list ?c" "sum_list ?c \<le> mx * n" using sum_list_bounds [of ?c mn mx] b by simp_all
  then have "case spread N ?c of (mn, mx) \<Rightarrow> mn * n \<le> N \<and> N \<le> mx * n" using s sum by simp
  then show ?thesis
    using assign_members [OF assms] sum by (auto simp: members_of_def o_def)
qed

section \<open>Properties\<close>

text \<open>
  Two keys whose 16 key bytes differ in one place only never have the same hash, and the 16 bytes
  determine the key.
\<close>

lemma hashKey_one_byte:
  assumes "i < 16" "\<forall>j < 16. j \<noteq> i \<longrightarrow> (bytes_le c @ bytes_le l) ! j = (bytes_le c' @ bytes_le l') ! j"
    and "hashKey c l = hashKey c' l'"
  shows "c = c' \<and> l = l'"
proof -
  have "bytes_le c @ bytes_le l = bytes_le c' @ bytes_le l'"
    by (rule fnv1a64_differ_once [of _ _ i]) (use assms in \<open>simp_all add: hashKey_def del: nth_append\<close>)
  then show ?thesis using bytes_le_inj by (auto simp: append_eq_append_conv)
qed

lemma hashKey_one_byte_witness: "hashKey 1 0 \<noteq> hashKey 2 0"
proof
  assume h: "hashKey 1 0 = hashKey 2 0"
  have "bytes_le 1 = 1 # replicate 7 0" "bytes_le 2 = 2 # replicate 7 0" by code_simp+
  then have "\<forall>j < 16. j \<noteq> 0 \<longrightarrow> (bytes_le 1 @ bytes_le 0) ! j = (bytes_le 2 @ bytes_le 0) ! j"
    by (auto simp: nth_Cons')
  from hashKey_one_byte [OF _ this h] show False by simp
qed

text \<open>
  Every vector goes to exactly one shard, the one \<open>shardFor\<close> names; the counts are the sizes of
  the shards and add up to the number of vectors, and the reported minimum and maximum enclose the even split.
\<close>

lemma assign_partitions:
  assumes "0 < n" "N \<le> length clientIds" "N < 2 ^ 64"
  shows "\<exists>counts members. assign clientIds n N = Some (counts, members) \<and> length members = n \<and>
    counts = map length members \<and> sum_list counts = N \<and>
    (\<forall>i < N. \<forall>s < n. i \<in> set (members ! s) \<longleftrightarrow> shardFor (clientIds ! i) (of_nat i) n = Some s) \<and>
    (case spread N counts of (mn, mx) \<Rightarrow> mn * n \<le> N \<and> N \<le> mx * n)"
  by (rule assign_spec [OF assms])

lemma assign_partitions_witness:
  "\<exists>counts members. assign [1, 2, 1] 2 3 = Some (counts, members) \<and> sum_list counts = 3"
  using assign_partitions [of 2 3 "[1, 2, 1]"] by auto

text \<open>
  The table of the index may use \<open>LabelHash\<close>: labels that compare equal have equal hashes,
  whatever \<open>std::hash\<close> is. The routing hash of the key (1, 0) is the one both implementations agree on.
\<close>

lemma LabelHash_congruent:
  "(label_eq a b \<longrightarrow> LabelHash h a = LabelHash h b) \<and> hashKey 1 0 = 0x392209f14dea4c24"
proof
  show "hashKey 1 0 = 0x392209f14dea4c24" by code_simp
qed (simp add: label_eq_def LabelHash_def Let_def)

end
