(* ===== verification/Shard_Sim.thy ===== *)
theory Shard_Sim
  imports Complex_Main Routing Hnsw_Snapshot
begin

text \<open>
  The cluster simulation of \<open>src/shard_sim.cpp\<close>: brute-force search, the monolithic and the sharded
  build, and the three ways of answering a query it compares. The random data, the levels the insertions
  draw and the sorting algorithm are parameters; of \<open>std::sort\<close> and \<open>std::partial_sort\<close> only
  what the standard promises is used (locale \<open>sorter\<close>). Averages are exact rationals here.

  The main results: the sharded build splits the store of the monolithic one, and merging the answers of all
  shards for the full \<open>k\<close> gives the \<open>k\<close> nearest of the union whenever every shard answers its
  own part exactly, which is the claim the coordinator rests on. Asking for \<open>k / numShards\<close> does not.
\<close>

section \<open>Scored results\<close>

record scored =
  sc_distance :: f32
  sc_clientId :: "64 word"
  sc_label :: "64 word"

definition scored_less :: "scored \<Rightarrow> scored \<Rightarrow> bool" where
  "scored_less x y \<longleftrightarrow> sc_distance x < sc_distance y"

definition sc_key :: "scored \<Rightarrow> 64 word \<times> 64 word" where
  "sc_key x = (sc_clientId x, sc_label x)"

definition to_scored :: "search_result \<Rightarrow> scored" where
  "to_scored r = \<lparr>sc_distance = sr_distance r, sc_clientId = clientId (sr_label r), sc_label = label_no (sr_label r)\<rparr>"

definition no_nan :: "scored list \<Rightarrow> bool" where
  "no_nan xs \<longleftrightarrow> (\<forall>x \<in> set xs. \<not> f32_is_nan (sc_distance x))"

text \<open>\<open>std::sort\<close>: a permutation, sorted if the comparison is a strict weak order on the elements.\<close>

locale sorter =
  fixes srt :: "scored list \<Rightarrow> scored list"
  assumes perm: "mset (srt xs) = mset xs"
    and sorted: "no_nan xs \<Longrightarrow> sorted_wrt (\<lambda>x y. \<not> scored_less y x) (srt xs)"

text \<open>\<open>std::partial_sort\<close>: the first \<open>k\<close> elements are sorted and none of the others is smaller.\<close>

locale partial_sorter =
  fixes psrt :: "nat \<Rightarrow> scored list \<Rightarrow> scored list"
  assumes pperm: "mset (psrt k xs) = mset xs"
    and psorted: "no_nan xs \<Longrightarrow> sorted_wrt (\<lambda>x y. \<not> scored_less y x) (take k (psrt k xs))"
    and pleast: "no_nan xs \<Longrightarrow> x \<in> set (take k (psrt k xs)) \<Longrightarrow> y \<in> set (drop k (psrt k xs)) \<Longrightarrow> \<not> scored_less y x"

section \<open>Ground truth and recall\<close>

definition row :: "f32 list \<Rightarrow> nat \<Rightarrow> nat \<Rightarrow> f32 list option" where
  "row base d i = rd_range base (i * d) d"

definition unit_vec :: "bool \<Rightarrow> nat \<Rightarrow> f32 list \<Rightarrow> f32 list" where
  "unit_vec avx d v =
     (let norm = f32_sqrt (dotProduct avx v v d) in if 0 < norm then map (\<lambda>x. f32_div x norm) v else v)"

definition score_row :: "bool \<Rightarrow> f32 list \<Rightarrow> 64 word list \<Rightarrow> nat \<Rightarrow> f32 list \<Rightarrow> nat \<Rightarrow> scored option" where
  "score_row avx base clientIds d qn i =
     (case (row base d i, rd clientIds i) of
        (Some b, Some c) \<Rightarrow>
          Some \<lparr>sc_distance = cosineDistance avx qn (unit_vec avx d b) d, sc_clientId = c, sc_label = of_nat i\<rparr>
      | _ \<Rightarrow> None)"

definition bruteForce :: "(nat \<Rightarrow> scored list \<Rightarrow> scored list) \<Rightarrow> bool \<Rightarrow> f32 list \<Rightarrow> 64 word list \<Rightarrow> nat \<Rightarrow> nat \<Rightarrow> f32 list \<Rightarrow> nat \<Rightarrow>
    scored list option" where
  "bruteForce psrt avx base clientIds n d query k =
     (case rd_range query 0 d of None \<Rightarrow> None
      | Some q \<Rightarrow> (case those (map (score_row avx base clientIds d (unit_vec avx d q)) [0..<n]) of None \<Rightarrow> None
        | Some all \<Rightarrow> if length all < k then None else Some (take k (psrt k all))))"

definition overlapFraction :: "scored list \<Rightarrow> scored list \<Rightarrow> rat" where
  "overlapFraction a b =
     (let hits = length (filter (\<lambda>x. sc_key x \<in> set (map sc_key b)) a)
      in if a = [] then 0 else of_nat hits / of_nat (length a))"

section \<open>Building the indexes\<close>

definition add_row :: "(nat \<Rightarrow> int) \<Rightarrow> f32 list \<Rightarrow> 64 word list \<Rightarrow> nat \<Rightarrow> exn + index \<Rightarrow> nat \<Rightarrow> (exn + index) option" where
  "add_row level base clientIds d st i =
     (case st of Inl e \<Rightarrow> Some (Inl e)
      | Inr ix \<Rightarrow> (case (row base d i, rd clientIds i) of
          (Some v, Some c) \<Rightarrow> map_option (\<lambda>(r, ix'). case r of Inl e \<Rightarrow> Inl e | Inr _ \<Rightarrow> Inr ix')
                               (addPoint ix v (Label c (of_nat i)) (level i))
        | _ \<Rightarrow> None))"

definition build :: "bool \<Rightarrow> (nat \<Rightarrow> int) \<Rightarrow> f32 list \<Rightarrow> 64 word list \<Rightarrow> nat \<Rightarrow> nat \<Rightarrow> nat list \<Rightarrow> (exn + index) option" where
  "build avx level base clientIds d capacity members =
     foldM (add_row level base clientIds d) (Index avx Cosine d capacity 16 200) members"

definition build_mono :: "bool \<Rightarrow> (nat \<Rightarrow> int) \<Rightarrow> f32 list \<Rightarrow> 64 word list \<Rightarrow> nat \<Rightarrow> nat \<Rightarrow> (exn + index) option" where
  "build_mono avx level base clientIds d N = build avx level base clientIds d N [0..<N]"

fun build_shards :: "bool \<Rightarrow> (nat \<Rightarrow> nat \<Rightarrow> int) \<Rightarrow> f32 list \<Rightarrow> 64 word list \<Rightarrow> nat \<Rightarrow> (nat \<times> nat list) list \<Rightarrow> (exn + index list) option" where
  "build_shards avx level base clientIds d [] = Some (Inr [])"
| "build_shards avx level base clientIds d ((cnt, members) # rest) =
     (case build avx (level (length rest)) base clientIds d (max cnt 1) members of None \<Rightarrow> None
      | Some (Inl e) \<Rightarrow> Some (Inl e)
      | Some (Inr ix) \<Rightarrow> map_option (map_sum id ((#) ix)) (build_shards avx level base clientIds d rest))"

section \<open>Answering a query\<close>

fun ask :: "f32 list \<Rightarrow> nat \<Rightarrow> nat \<Rightarrow> index list \<Rightarrow> (scored list \<times> index list) option" where
  "ask qv k ef [] = Some ([], [])"
| "ask qv k ef (ix # shards) =
     (case search ix qv k ef of None \<Rightarrow> None
      | Some (res, ix') \<Rightarrow> map_option (map_prod ((@) (map to_scored res)) ((#) ix')) (ask qv k ef shards))"

definition gather :: "(scored list \<Rightarrow> scored list) \<Rightarrow> nat \<Rightarrow> scored list \<Rightarrow> scored list" where
  "gather srt k pool = (let p = srt pool in if k < length p then take k p else p)"

definition scatter_gather :: "(scored list \<Rightarrow> scored list) \<Rightarrow> index list \<Rightarrow> f32 list \<Rightarrow> nat \<Rightarrow> nat \<Rightarrow> (scored list \<times> index list) option" where
  "scatter_gather srt shards qv k ef = map_option (map_prod (gather srt k) id) (ask qv k ef shards)"

definition naive_gather :: "(scored list \<Rightarrow> scored list) \<Rightarrow> index list \<Rightarrow> f32 list \<Rightarrow> nat \<Rightarrow> nat \<Rightarrow> (scored list \<times> index list) option" where
  "naive_gather srt shards qv k ef =
     (let perShard = max 1 (k div length shards)
      in map_option (map_prod (gather srt k) id) (ask qv perShard ef shards))"

definition identical :: "scored list \<Rightarrow> scored list \<Rightarrow> bool" where
  "identical a b \<longleftrightarrow> length a = length b \<and> list_all2 (\<lambda>x y. sc_clientId x = sc_clientId y \<and> sc_label x = sc_label y) a b"

section \<open>The simulation\<close>

record tallies =
  t_mono :: rat
  t_fair :: rat
  t_scatter :: rat
  t_naive :: rat
  t_overlap :: rat
  t_exact :: nat

definition query_step :: "(scored list \<Rightarrow> scored list) \<Rightarrow> (nat \<Rightarrow> scored list \<Rightarrow> scored list) \<Rightarrow> bool \<Rightarrow> f32 list \<Rightarrow> 64 word list \<Rightarrow>
    nat \<Rightarrow> nat \<Rightarrow> nat \<Rightarrow> nat \<Rightarrow> tallies \<times> index \<times> index list \<Rightarrow> f32 list \<Rightarrow> (tallies \<times> index \<times> index list) option" where
  "query_step srt psrt avx base clientIds N d k ef st qv =
     (case st of (t, mix, shards) \<Rightarrow>
      case bruteForce psrt avx base clientIds N d qv k of None \<Rightarrow> None | Some truth \<Rightarrow>
      case search mix qv k ef of None \<Rightarrow> None | Some (monoRes, mix1) \<Rightarrow>
      case scatter_gather srt shards qv k ef of None \<Rightarrow> None | Some (pool, shards1) \<Rightarrow>
      case naive_gather srt shards1 qv k ef of None \<Rightarrow> None | Some (naivePool, shards2) \<Rightarrow>
      case search mix1 qv k (mul_sz ef (length shards)) of None \<Rightarrow> None | Some (fairRes, mix2) \<Rightarrow>
        Some (\<lparr>t_mono = t_mono t + overlapFraction (map to_scored monoRes) truth,
               t_fair = t_fair t + overlapFraction (map to_scored fairRes) truth,
               t_scatter = t_scatter t + overlapFraction pool truth,
               t_naive = t_naive t + overlapFraction naivePool truth,
               t_overlap = t_overlap t + overlapFraction pool (map to_scored monoRes),
               t_exact = t_exact t + (if identical pool (map to_scored monoRes) then 1 else 0)\<rparr>, mix2, shards2))"

definition sim_clients :: "nat \<Rightarrow> 64 word list" where
  "sim_clients N = map (\<lambda>i. of_nat (i mod 5) + 1) [0..<N]"

definition shard_sim :: "(scored list \<Rightarrow> scored list) \<Rightarrow> (nat \<Rightarrow> scored list \<Rightarrow> scored list) \<Rightarrow> bool \<Rightarrow> (nat \<Rightarrow> int) \<Rightarrow> (nat \<Rightarrow> nat \<Rightarrow> int) \<Rightarrow>
    f32 list \<Rightarrow> f32 list list \<Rightarrow> nat \<Rightarrow> nat \<Rightarrow> nat \<Rightarrow> (exn + tallies \<times> nat \<times> nat) option" where
  "shard_sim srt psrt avx level levels base queries N d numShards =
     (let clientIds = sim_clients N in
      case assign clientIds numShards N of None \<Rightarrow> None | Some (counts, members) \<Rightarrow>
      case build_mono avx level base clientIds d N of None \<Rightarrow> None
      | Some (Inl e) \<Rightarrow> Some (Inl e)
      | Some (Inr mix) \<Rightarrow>
          (case build_shards avx levels base clientIds d (zip counts members) of None \<Rightarrow> None
           | Some (Inl e) \<Rightarrow> Some (Inl e)
           | Some (Inr shards) \<Rightarrow>
               map_option (\<lambda>(t, _). Inr (t, spread N counts))
                 (foldM (query_step srt psrt avx base clientIds N d 10 100)
                    (\<lparr>t_mono = 0, t_fair = 0, t_scatter = 0, t_naive = 0, t_overlap = 0, t_exact = 0\<rparr>, mix, shards) queries)))"

section \<open>Sorting\<close>

interpretation scw: weak_order scored_less "\<lambda>x. \<not> f32_is_nan (sc_distance x)"
proof
  show "scored_less x y \<Longrightarrow> \<not> scored_less y x" for x y
    using f32_less_irrefl f32_less_trans unfolding scored_less_def by blast
  show "\<not> f32_is_nan (sc_distance x) \<Longrightarrow> \<not> f32_is_nan (sc_distance y) \<Longrightarrow> \<not> f32_is_nan (sc_distance z) \<Longrightarrow>
    \<not> scored_less x y \<Longrightarrow> \<not> scored_less y z \<Longrightarrow> \<not> scored_less x z" for x y z
    using f32_not_less_trans unfolding scored_less_def by blast
qed

interpretation ins: sorter "std_sort scored_less"
  by unfold_locales (simp_all add: no_nan_def scw.std_sort_sorted)

sublocale sorter \<subseteq> psort: partial_sorter "\<lambda>_. srt"
proof
  show "mset (srt xs) = mset xs" for xs by (rule perm)
  fix k xs assume n: "no_nan xs"
  note s = sorted [OF n]
  then show "sorted_wrt (\<lambda>x y. \<not> scored_less y x) (take k (srt xs))" by (rule sorted_wrt_take)
  show "x \<in> set (take k (srt xs)) \<Longrightarrow> y \<in> set (drop k (srt xs)) \<Longrightarrow> \<not> scored_less y x" for x y
    using s by (metis append_take_drop_id sorted_wrt_append)
qed

context sorter
begin

lemma gather_take: "gather srt k xs = take k (srt xs)"
  by (simp add: gather_def Let_def)

lemma srt_set: "set (srt xs) = set xs"
  using perm [of xs] by (rule mset_eq_setD)

lemma srt_length: "length (srt xs) = length xs"
  using perm [of xs] by (rule mset_eq_length)

lemma gather_length: "length (gather srt k xs) = min k (length xs)"
  by (simp add: gather_take srt_length min.commute)

lemma gather_set: "set (gather srt k xs) \<subseteq> set xs"
  unfolding gather_take using set_take_subset srt_set by fastforce

lemma gather_sorted: "no_nan xs \<Longrightarrow> sorted_wrt (\<lambda>x y. \<not> scored_less y x) (gather srt k xs)"
  unfolding gather_take by (rule psort.psorted)

lemma gather_distinct: "distinct (map f xs) \<Longrightarrow> distinct (map f (gather srt k xs))"
proof -
  assume "distinct (map f xs)"
  moreover have "mset (map f (srt xs)) = mset (map f xs)" by (simp add: perm)
  ultimately have "distinct (map f (srt xs))" by (metis mset_eq_imp_distinct_iff)
  then show ?thesis unfolding gather_take by (simp add: take_map [symmetric])
qed

lemma gather_rest:
  assumes "no_nan xs" "x \<in> set xs" "x \<notin> set (gather srt k xs)" "r \<in> set (gather srt k xs)"
  shows "\<not> scored_less x r"
proof -
  have "x \<in> set (take k (srt xs) @ drop k (srt xs))" using assms(2) srt_set by simp
  then have "x \<in> set (drop k (srt xs))" using assms(3) by (auto simp: gather_take simp del: append_take_drop_id)
  then show ?thesis using psort.pleast [OF assms(1)] assms(4) by (simp add: gather_take)
qed

text \<open>An element with \<open>k\<close> smaller ones is not among the first \<open>k\<close>.\<close>

lemma gather_beaten:
  assumes n: "no_nan xs" and k: "k \<le> length (filter (\<lambda>x. scored_less x r) xs)"
  shows "r \<notin> set (gather srt k xs)"
proof
  let ?z = "srt xs"
  assume "r \<in> set (gather srt k xs)"
  then obtain i where i: "i < k" "i < length ?z" "?z ! i = r" by (auto simp: gather_take in_set_conv_nth)
  have "\<not> scored_less x r" if "x \<in> set (drop i ?z)" for x
  proof -
    obtain j where "j < length ?z - i" "x = ?z ! (i + j)" using \<open>x \<in> set (drop i ?z)\<close> i(2) by (auto simp: in_set_conv_nth)
    then show ?thesis
      using sorted_wrt_nth_less [OF sorted [OF n], of i "i + j"] i(3) scw.lt_asym by (cases j) auto
  qed
  then have "filter (\<lambda>x. scored_less x r) (drop i ?z) = []" by (simp add: filter_empty_conv)
  then have "filter (\<lambda>x. scored_less x r) ?z = filter (\<lambda>x. scored_less x r) (take i ?z)"
    by (metis append_Nil2 append_take_drop_id filter_append)
  then have "length (filter (\<lambda>x. scored_less x r) ?z) \<le> i"
    using length_filter_le [of "\<lambda>x. scored_less x r" "take i ?z"] by simp
  moreover have "mset (filter (\<lambda>x. scored_less x r) ?z) = mset (filter (\<lambda>x. scored_less x r) xs)" by (simp add: perm)
  then have "length (filter (\<lambda>x. scored_less x r) ?z) = length (filter (\<lambda>x. scored_less x r) xs)" by (rule mset_eq_length)
  ultimately show False using k i(1) by simp
qed

end

context partial_sorter
begin

lemma prefix_facts:
  assumes "k \<le> length xs"
  shows "length (take k (psrt k xs)) = k" "set (take k (psrt k xs)) \<subseteq> set xs"
proof -
  show "length (take k (psrt k xs)) = k" using assms mset_eq_length [OF pperm, of k xs] by simp
  show "set (take k (psrt k xs)) \<subseteq> set xs" using set_take_subset mset_eq_setD [OF pperm, of k xs] by fastforce
qed

lemma prefix_least:
  assumes "no_nan xs" "x \<in> set xs" "x \<notin> set (take k (psrt k xs))" "r \<in> set (take k (psrt k xs))"
  shows "\<not> scored_less x r"
proof -
  have "x \<in> set (take k (psrt k xs) @ drop k (psrt k xs))" using assms(2) mset_eq_setD [OF pperm, of k xs] by simp
  then have "x \<in> set (drop k (psrt k xs))" using assms(3) by (auto simp del: append_take_drop_id)
  then show ?thesis using pleast [OF assms(1,4)] by blast
qed

end

section \<open>The live labels of an index\<close>

lemma live_not_nan:
  assumes "wf_ix ix" "nan_free ix q 0" "abs_ix ix lab = Some (v, False)"
  shows "\<not> f32_is_nan (rawDistance ix q v)"
proof -
  obtain i where i: "ix_labelToId ix lab = Some i" "v = vec ix i" using assms(3) by (auto simp: abs_ix_def)
  then have "i < ix_count ix" using assms(1) by (simp add: wf_ix_def labels_ok_def)
  moreover have "0 \<le> lvl ix i" using assms(1) \<open>i < ix_count ix\<close> by (simp add: wf_ix_def shape_def)
  ultimately have "node ix 0 i" by (simp add: node_def)
  then show ?thesis using assms(2) i(2) by (simp add: nan_free_def dist_def)
qed

text \<open>An index that answers exactly returns all its live labels, or \<open>k\<close> that are at least as close as any other.\<close>

lemma exact_or_full:
  assumes w: "wf_ix ix" and a: "answers_ok ix q k out" and e: "exact_knn ix q k out"
    and l: "abs_ix ix lab = Some (v, False)" "lab \<notin> sr_label ` set out"
  shows "length out = k \<and> (\<forall>r \<in> set out. \<not> rawDistance ix q v < sr_distance r)"
proof -
  let ?L = "{lab. \<exists>v. abs_ix ix lab = Some (v, False)}"
  have "length out \<noteq> activeSize ix"
  proof
    assume "length out = activeSize ix"
    then have "card (sr_label ` set out) = card ?L"
      using a live_card(1) [OF w] by (metis answers_ok_def distinct_card length_map list.set_map)
    moreover have "sr_label ` set out \<subseteq> ?L" using a by (auto simp: answers_ok_def)
    ultimately have "sr_label ` set out = ?L" using card_subset_eq [OF live_card(2) [OF w]] by blast
    then show False using l by auto
  qed
  then show ?thesis using e l by (auto simp: exact_knn_def)
qed

section \<open>Scatter and gather\<close>

definition exact_shard :: "f32 list \<Rightarrow> nat \<Rightarrow> nat \<Rightarrow> index \<Rightarrow> bool" where
  "exact_shard qv k ef ix \<longleftrightarrow> wf_ix ix \<and> ix_dim ix \<le> length qv \<and> nan_free ix (query_vec ix qv) 0 \<and> connected0 ix \<and>
     activeSize ix \<le> max ef k"

definition disjoint_shards :: "index list \<Rightarrow> bool" where
  "disjoint_shards shards \<longleftrightarrow> sorted_wrt (\<lambda>a b. dom (abs_ix a) \<inter> dom (abs_ix b) = {}) shards"

definition sc_lab :: "scored \<Rightarrow> label" where
  "sc_lab x = Label (sc_clientId x) (sc_label x)"

definition scored_by :: "f32 list \<Rightarrow> index list \<Rightarrow> scored \<Rightarrow> bool" where
  "scored_by qv shards x \<longleftrightarrow> (\<exists>ix \<in> set shards. \<exists>v. abs_ix ix (sc_lab x) = Some (v, False) \<and>
     sc_distance x = rawDistance ix (query_vec ix qv) v)"

text \<open>The \<open>k\<close> nearest live vectors of a set of shards, ascending.\<close>

definition nearest :: "f32 list \<Rightarrow> nat \<Rightarrow> index list \<Rightarrow> scored list \<Rightarrow> bool" where
  "nearest qv k shards out \<longleftrightarrow>
     length out = min k (sum_list (map activeSize shards)) \<and> distinct (map sc_lab out) \<and>
     (\<forall>x \<in> set out. scored_by qv shards x) \<and> sorted_wrt (\<lambda>x y. \<not> scored_less y x) out \<and>
     (\<forall>ix \<in> set shards. \<forall>lab v. abs_ix ix lab = Some (v, False) \<longrightarrow> lab \<notin> sc_lab ` set out \<longrightarrow>
        (\<forall>x \<in> set out. \<not> rawDistance ix (query_vec ix qv) v < sc_distance x))"

lemma to_scored_simps [simp]:
  "sc_lab (to_scored r) = sr_label r" "sc_distance (to_scored r) = sr_distance r"
  by (simp_all add: to_scored_def sc_lab_def Label_def)

text \<open>What the pool of all shards' answers holds.\<close>

definition pooled :: "f32 list \<Rightarrow> nat \<Rightarrow> index list \<Rightarrow> scored list \<Rightarrow> bool" where
  "pooled qv k shards pool \<longleftrightarrow> no_nan pool \<and> distinct (map sc_lab pool) \<and> (\<forall>x \<in> set pool. scored_by qv shards x) \<and>
     min k (length pool) = min k (sum_list (map activeSize shards)) \<and>
     (\<forall>ix \<in> set shards. \<forall>lab v. abs_ix ix lab = Some (v, False) \<longrightarrow> lab \<notin> sc_lab ` set pool \<longrightarrow>
        k \<le> length (filter (\<lambda>x. \<not> rawDistance ix (query_vec ix qv) v < sc_distance x) pool))"

lemma ask_pool:
  assumes "\<forall>ix \<in> set shards. exact_shard qv k ef ix" "disjoint_shards shards"
  shows "\<exists>pool shards'. ask qv k ef shards = Some (pool, shards') \<and> pooled qv k shards pool \<and>
    list_all2 (\<lambda>ix ix'. wf_ix ix' \<and> abs_ix ix' = abs_ix ix \<and> config ix' = config ix) shards shards'"
  using assms
proof (induction shards)
  case Nil
  then show ?case by (simp add: pooled_def no_nan_def)
next
  case (Cons ix shards)
  let ?q = "query_vec ix qv"
  have ex: "wf_ix ix" "ix_dim ix \<le> length qv" "nan_free ix ?q 0" "connected0 ix" "activeSize ix \<le> max ef k"
    using Cons.prems(1) by (auto simp: exact_shard_def)
  obtain res p where r: "search ix qv k ef = Some (res, ix\<lparr>ix_visitedPool := p\<rparr>)" "wf_ix (ix\<lparr>ix_visitedPool := p\<rparr>)"
    "answers_ok ix ?q k res" "exact_knn ix ?q k res"
    using search_spec [OF ex(1,2), of k ef] ex(3-5) by auto
  obtain pool shards' where c: "ask qv k ef shards = Some (pool, shards')" "pooled qv k shards pool"
    "list_all2 (\<lambda>ix ix'. wf_ix ix' \<and> abs_ix ix' = abs_ix ix \<and> config ix' = config ix) shards shards'"
    using Cons.IH Cons.prems by (auto simp: disjoint_shards_def)
  let ?new = "map to_scored res"
  have lv: "\<exists>v. abs_ix ix (sr_label r) = Some (v, False) \<and> sr_distance r = rawDistance ix ?q v" if "r \<in> set res" for r
    using r(3) that by (auto simp: answers_ok_def)
  have "no_nan (?new @ pool)"
    using c(2) lv live_not_nan [OF ex(1,3)] by (fastforce simp: no_nan_def pooled_def)
  moreover have "distinct (map sc_lab (?new @ pool))"
  proof -
    have "sc_lab x \<notin> dom (abs_ix ix)" if "x \<in> set pool" for x
    proof -
      obtain i where i: "i \<in> set shards" "sc_lab x \<in> dom (abs_ix i)"
        using c(2) \<open>x \<in> set pool\<close> unfolding pooled_def scored_by_def by blast
      then have "dom (abs_ix ix) \<inter> dom (abs_ix i) = {}" using Cons.prems(2) by (simp add: disjoint_shards_def)
      then show ?thesis using i(2) by blast
    qed
    then have "sc_lab ` set pool \<subseteq> - dom (abs_ix ix)" by (simp add: image_subset_iff)
    moreover have "sr_label ` set res \<subseteq> dom (abs_ix ix)" using lv unfolding dom_def by blast
    ultimately have "sr_label ` set res \<inter> sc_lab ` set pool = {}" by (meson disjoint_eq_subset_Compl disjoint_iff subset_iff)
    moreover have "distinct (map sc_lab pool)" "distinct (map sr_label res)" using c(2) r(3) by (simp_all only: pooled_def answers_ok_def)
    ultimately show ?thesis by (simp add: o_def)
  qed
  moreover have "\<forall>x \<in> set (?new @ pool). scored_by qv (ix # shards) x"
    using c(2) lv by (auto simp: pooled_def scored_by_def)
  moreover have "min k (length (?new @ pool)) = min k (sum_list (map activeSize (ix # shards)))"
    using c(2) r(4) by (auto simp: pooled_def exact_knn_def min_def split: if_splits)
  moreover have "k \<le> length (filter (\<lambda>x. \<not> rawDistance i (query_vec i qv) v < sc_distance x) (?new @ pool))"
    if i: "i \<in> set (ix # shards)" "abs_ix i lab = Some (v, False)" "lab \<notin> sc_lab ` set (?new @ pool)" for i lab v
  proof (cases "i = ix")
    case True
    then have "length res = k \<and> (\<forall>r \<in> set res. \<not> rawDistance ix ?q v < sr_distance r)"
      using exact_or_full [OF ex(1) r(3,4)] i(2,3) by (simp add: image_Un image_image)
    then have "length (filter (\<lambda>x. \<not> rawDistance ix ?q v < sc_distance x) ?new) = k"
      by (subst filter_True) auto
    then show ?thesis using True by simp
  next
    case False
    then have "i \<in> set shards" "lab \<notin> sc_lab ` set pool" using i by auto
    then have "k \<le> length (filter (\<lambda>x. \<not> rawDistance i (query_vec i qv) v < sc_distance x) pool)"
      using c(2) i(2) unfolding pooled_def by blast
    then show ?thesis by (simp add: trans_le_add2)
  qed
  ultimately have "pooled qv k (ix # shards) (?new @ pool)" unfolding pooled_def by blast
  moreover have "ask qv k ef (ix # shards) = Some (?new @ pool, ix\<lparr>ix_visitedPool := p\<rparr> # shards')" using r(1) c(1) by simp
  ultimately show ?case using c(3) r(2) config_pool by auto
qed

lemma disjoint_same:
  assumes "disjoint_shards shards" "a \<in> set shards" "b \<in> set shards" "lab \<in> dom (abs_ix a)" "lab \<in> dom (abs_ix b)"
  shows "a = b"
proof -
  obtain i j where "i < length shards" "a = shards ! i" "j < length shards" "b = shards ! j" using assms(2,3) by (auto simp: in_set_conv_nth)
  then show ?thesis
    using assms(1,4,5) unfolding disjoint_shards_def sorted_wrt_iff_nth_less by (cases i j rule: linorder_cases) auto
qed

lemma gather_nearest:
  assumes "sorter srt" "pooled qv k shards pool" "disjoint_shards shards" "\<forall>ix \<in> set shards. exact_shard qv k ef ix"
  shows "nearest qv k shards (gather srt k pool)"
proof -
  note g = sorter.gather_length [OF assms(1)] sorter.gather_set [OF assms(1)] sorter.gather_sorted [OF assms(1)]
    sorter.gather_distinct [OF assms(1)] sorter.gather_rest [OF assms(1)] sorter.gather_beaten [OF assms(1)]
  have p: "no_nan pool" "distinct (map sc_lab pool)" "\<forall>x \<in> set pool. scored_by qv shards x"
    "min k (length pool) = min k (sum_list (map activeSize shards))"
    "\<And>ix lab v. ix \<in> set shards \<Longrightarrow> abs_ix ix lab = Some (v, False) \<Longrightarrow> lab \<notin> sc_lab ` set pool \<Longrightarrow>
        k \<le> length (filter (\<lambda>x. \<not> rawDistance ix (query_vec ix qv) v < sc_distance x) pool)"
    using assms(2) by (auto simp: pooled_def)
  have "\<not> rawDistance ix (query_vec ix qv) v < sc_distance x"
    if i: "ix \<in> set shards" "abs_ix ix lab = Some (v, False)" "lab \<notin> sc_lab ` set (gather srt k pool)"
      and x: "x \<in> set (gather srt k pool)" for ix lab v x
  proof (cases "lab \<in> sc_lab ` set pool")
    case True
    then obtain y where y: "y \<in> set pool" "sc_lab y = lab" by auto
    then obtain ix' v' where s: "ix' \<in> set shards" "abs_ix ix' lab = Some (v', False)"
      "sc_distance y = rawDistance ix' (query_vec ix' qv) v'" using p(3) by (auto simp: scored_by_def)
    have "ix' = ix" by (rule disjoint_same [OF assms(3) s(1) i(1)]) (use s(2) i(2) in auto)
    then have "sc_distance y = rawDistance ix (query_vec ix qv) v" using s i(2) by simp
    moreover have "y \<notin> set (gather srt k pool)" using y(2) i(3) by auto
    ultimately show ?thesis using g(5) [OF p(1) y(1) _ x] by (simp add: scored_less_def)
  next
    case False
    let ?d = "rawDistance ix (query_vec ix qv) v"
    have nan: "\<not> f32_is_nan ?d" using live_not_nan [OF _ _ i(2)] assms(4) i(1) by (auto simp: exact_shard_def)
    show ?thesis
    proof
      assume lt: "?d < sc_distance x"
      have xn: "\<not> f32_is_nan (sc_distance x)" using f32_nan_less lt by blast
      have "scored_less y x" if "\<not> ?d < sc_distance y" "y \<in> set pool" for y
        using f32_not_less_trans [of "sc_distance y" ?d "sc_distance x"] lt that p(1) unfolding scored_less_def no_nan_def
        using f32_not_less nan xn by (metis (no_types))
      then have "length (filter (\<lambda>y. \<not> ?d < sc_distance y) pool) \<le> length (filter (\<lambda>y. scored_less y x) pool)"
        by (induction pool) auto
      then show False using g(6) [OF p(1), of k x] p(5) [OF i(1,2) False] x by auto
    qed
  qed
  then show ?thesis
    using g(1) [of k pool] g(2) [of k pool] g(3) [OF p(1), of k] g(4) [OF p(2), of k] p(3,4) unfolding nearest_def by auto
qed

section \<open>The build\<close>

lemma row_Some: "length base = N * d \<Longrightarrow> i < N \<Longrightarrow> row base d i = Some (block d base i)"
  using block_bound [of i N d] by (simp add: row_def rd_range_def block_def)

lemma label_no_of_nat: "i < 2 ^ 64 \<Longrightarrow> unat (label_no (Label c (of_nat i))) = i"
  by (simp add: Label_def unat_of_nat)

lemma Index_config: "Index avx sp d n M efc = Inr ix \<Longrightarrow> config ix = (sp, avx, d, n, M, max efc M)"
  by (auto simp: Index_def Let_def config_def split: if_splits)

definition row_store :: "(f32 list \<Rightarrow> f32 list) \<Rightarrow> f32 list \<Rightarrow> 64 word list \<Rightarrow> nat \<Rightarrow> nat list \<Rightarrow> store" where
  "row_store prep base clientIds d members lab =
     (if \<exists>i \<in> set members. lab = Label (clientIds ! i) (of_nat i)
      then Some (prep (block d base (unat (label_no lab))), False) else None)"

lemma row_store_snoc:
  assumes "i < 2 ^ 64"
  shows "row_store prep base clientIds d (ys @ [i]) =
    (row_store prep base clientIds d ys)(Label (clientIds ! i) (of_nat i) \<mapsto> (prep (block d base i), False))"
  using label_no_of_nat [OF assms] by (auto simp: row_store_def fun_eq_iff)

lemma row_store_fresh:
  assumes "\<forall>j \<in> insert i (set ys). j < 2 ^ 64" "i \<notin> set ys"
  shows "row_store prep base clientIds d ys (Label (clientIds ! i) (of_nat i)) = None"
proof -
  have "Label (clientIds ! i) (of_nat i) \<noteq> Label (clientIds ! j) (of_nat j)" if "j \<in> set ys" for j
  proof
    assume e: "Label (clientIds ! i) (of_nat i) = Label (clientIds ! j) (of_nat j)"
    have "i = j"
      using label_no_of_nat [of i "clientIds ! i"] label_no_of_nat [of j "clientIds ! j"] assms(1) that unfolding e by simp
    then show False using assms(2) that by simp
  qed
  then show ?thesis by (auto simp: row_store_def)
qed

definition built :: "index \<Rightarrow> f32 list \<Rightarrow> 64 word list \<Rightarrow> nat list \<Rightarrow> index \<Rightarrow> bool" where
  "built ix0 base clientIds members ix \<longleftrightarrow> wf_ix ix \<and> config ix = config ix0 \<and> ix_count ix = length members \<and>
     abs_ix ix = row_store (query_vec ix0) base clientIds (ix_dim ix0) members"

lemma add_rows:
  assumes base: "length base = N * ix_dim ix0" "N \<le> length clientIds" "N < 2 ^ 32"
    and ix0: "wf_ix ix0" "ix_count ix0 = 0" "abs_ix ix0 = Map.empty"
    and ms: "distinct members" "set members \<subseteq> {..<N}" "length members \<le> ix_maxElements ix0" and lv: "\<forall>i. 0 \<le> level i"
  shows "\<exists>ix. foldM (add_row level base clientIds (ix_dim ix0)) (Inr ix0) members = Some (Inr ix) \<and> built ix0 base clientIds members ix \<and>
    (typed ix0 \<and> (\<forall>i. level i \<le> 2 ^ 24) \<longrightarrow> typed ix)"
proof -
  let ?d = "ix_dim ix0" and ?t = "\<lambda>ix. typed ix0 \<and> (\<forall>i. level i \<le> 2 ^ 24) \<longrightarrow> typed ix"
  define P where "P ys st \<longleftrightarrow> (\<exists>ix. st = Inr ix \<and> built ix0 base clientIds ys ix \<and> ?t ix)" for ys and st :: "exn + index"
  have "\<exists>st. foldM (add_row level base clientIds ?d) (Inr ix0) members = Some st \<and> P members st"
  proof (rule foldM_rule)
    show "P [] (Inr ix0)" using ix0 by (simp add: P_def built_def row_store_def fun_eq_iff)
  next
    fix ys i zs st assume e: "members = ys @ i # zs" and p: "P ys st"
    obtain ix where ix: "st = Inr ix" "built ix0 base clientIds ys ix" "?t ix" using p by (auto simp: P_def)
    then have w: "wf_ix ix" "config ix = config ix0" "ix_count ix = length ys" "abs_ix ix = row_store (query_vec ix0) base clientIds ?d ys"
      by (simp_all add: built_def)
    have b: "\<forall>j \<in> insert i (set ys). j < 2 ^ 64" "i \<notin> set ys" "i < N"
      using ms(1,2) base(3) e by (auto dest!: subsetD)
    let ?l = "Label (clientIds ! i) (of_nat i)" and ?v = "block ?d base i"
    have dm: "ix_dim ix = ?d" "ix_maxElements ix = ix_maxElements ix0" using w(2) by (simp_all add: config_def)
    have "abs_ix ix ?l = None" unfolding w(4) by (rule row_store_fresh [OF b(1,2)])
    then have "ix_labelToId ix ?l = None" by (simp add: abs_ix_def)
    moreover have "ix_count ix < ix_maxElements ix" using w(3) ms(3) e dm by simp
    moreover have "ix_dim ix \<le> length ?v" using base(1) b(3) dm(1) by simp
    ultimately obtain ix' where a: "addPoint ix ?v ?l (level i) = Some (Inr (ix_count ix), ix')" "wf_ix ix'"
      "ix_count ix' = Suc (ix_count ix)" "abs_ix ix' = (abs_ix ix)(?l \<mapsto> (query_vec ix ?v, False))" "config ix' = config ix"
      "links_fit ix \<longrightarrow> links_fit ix'" "ix_levels ix' = (ix_levels ix)[ix_count ix := level i]"
      using addPoint_ok [OF w(1), of ?l ?v "level i"] lv by blast
    have "links_fit ix" if "typed ix" using that by (simp add: typed_def)
    then have "?t ix'" using ix(3) typed_add [OF w(1) a(2) _ a(3,5) _ a(7)] a(6) lv by blast
    moreover have "query_vec ix = query_vec ix0" by (rule query_vec_cong [OF w(2)])
    ultimately have "P (ys @ [i]) (Inr ix')"
      using a(2-5) w row_store_snoc [of i "query_vec ix0" base clientIds ?d ys] b(1) by (simp add: P_def built_def)
    moreover have "add_row level base clientIds ?d st i = Some (Inr ix')"
      using ix(1) a(1) row_Some [OF base(1) b(3)] b(3) base(2) by (simp add: add_row_def rd_def)
    ultimately show "\<exists>st'. add_row level base clientIds ?d st i = Some st' \<and> P (ys @ [i]) st'" by blast
  qed
  then show ?thesis by (auto simp: P_def)
qed

lemma build_rows:
  assumes base: "length base = N * d" "N \<le> length clientIds" "N < 2 ^ 32"
    and ms: "distinct members" "set members \<subseteq> {..<N}" "length members \<le> n" "0 < n" "n < 2 ^ 32" "0 < d" "n * d < 2 ^ 64"
    and lv: "\<forall>i. 0 \<le> level i"
  shows "\<exists>ix. build avx level base clientIds d n members = Some (Inr ix) \<and> wf_ix ix \<and>
    config ix = (Cosine, avx, d, n, 16, 200) \<and> abs_ix ix = row_store (query_vec ix) base clientIds d members"
proof -
  obtain ix0 where i0: "Index avx Cosine d n 16 200 = Inr ix0" "wf_ix ix0" "ix_count ix0 = 0" "abs_ix ix0 = Map.empty"
    "ix_dim ix0 = d" "ix_maxElements ix0 = n"
    using Index_Inr [of d n 16 avx Cosine 200] ms(4-7) by auto
  note c0 = Index_config [OF i0(1)]
  from add_rows [of base N ix0 clientIds members level] base ms lv i0 obtain ix where
    ix: "foldM (add_row level base clientIds d) (Inr ix0) members = Some (Inr ix)" "built ix0 base clientIds members ix" by auto
  then show ?thesis using c0 i0(1,5) query_vec_cong [of ix ix0] by (auto simp: build_def built_def)
qed

lemma build_shards_rows:
  assumes base: "length base = N * d" "N \<le> length clientIds" "N < 2 ^ 32" "0 < d" "(N + 1) * d < 2 ^ 64"
    and ms: "\<forall>m \<in> set members. distinct m \<and> set m \<subseteq> {..<N} \<and> length m \<le> N"
    and lv: "\<forall>s i. 0 \<le> level s i"
  shows "\<exists>shards. build_shards avx level base clientIds d (zip (map length members) members) = Some (Inr shards) \<and>
    list_all2 (\<lambda>m ix. wf_ix ix \<and> config ix = (Cosine, avx, d, max (length m) 1, 16, 200) \<and>
      abs_ix ix = row_store (query_vec ix) base clientIds d m) members shards"
  using ms
proof (induction members)
  case (Cons m members)
  have "max (length m) 1 * d \<le> (N + 1) * d" using Cons.prems by (intro mult_le_mono1) auto
  then have "max (length m) 1 * d < 2 ^ 64" using base(5) by linarith
  moreover have "0 < max (length m) 1" "max (length m) 1 < 2 ^ 32" "length m \<le> max (length m) 1"
    using Cons.prems base(3) by (auto simp: max_def)
  ultimately obtain ix where "build avx (level (length members)) base clientIds d (max (length m) 1) m = Some (Inr ix)" "wf_ix ix"
    "config ix = (Cosine, avx, d, max (length m) 1, 16, 200)" "abs_ix ix = row_store (query_vec ix) base clientIds d m"
    using build_rows [OF base(1-3), of m "max (length m) 1" "level (length members)" avx] Cons.prems base(4) lv
    by (metis list.set_intros(1))
  moreover obtain shards where "build_shards avx level base clientIds d (zip (map length members) members) = Some (Inr shards)"
    "list_all2 (\<lambda>m ix. wf_ix ix \<and> config ix = (Cosine, avx, d, max (length m) 1, 16, 200) \<and>
      abs_ix ix = row_store (query_vec ix) base clientIds d m) members shards" using Cons.IH Cons.prems by auto
  ultimately show ?case by auto
qed simp

lemma query_vec_eq:
  "ix_space a = ix_space b \<Longrightarrow> ix_avx a = ix_avx b \<Longrightarrow> ix_dim a = ix_dim b \<Longrightarrow> query_vec a = query_vec b"
  by (simp add: fun_eq_iff query_vec_def normalizeInPlace_def split: space.split)

lemma row_store_shard:
  assumes "shardFor (clientId lab) (label_no lab) n = Some s"
  shows "row_store prep base clientIds d (members_of clientIds n N s) lab = row_store prep base clientIds d [0..<N] lab"
proof -
  have "(\<exists>i \<in> set (members_of clientIds n N s). lab = Label (clientIds ! i) (of_nat i)) \<longleftrightarrow>
      (\<exists>i \<in> set [0..<N]. lab = Label (clientIds ! i) (of_nat i))"
    using assms by (auto simp: members_of_def Label_def)
  then show ?thesis by (simp only: row_store_def)
qed

lemma row_store_other:
  assumes "lab \<in> dom (row_store prep base clientIds d (members_of clientIds n N s))"
  shows "shardFor (clientId lab) (label_no lab) n = Some s"
  using assms by (auto simp: row_store_def members_of_def Label_def split: if_splits)

lemma sharded_build_facts:
  assumes "length base = N * d" "0 < N" "N < 2 ^ 32" "0 < d" "(N + 1) * d < 2 ^ 64" "0 < numShards"
    and "\<forall>i. 0 \<le> level i" "\<forall>s i. 0 \<le> levels s i"
  shows "\<exists>counts members mix shards. assign (sim_clients N) numShards N = Some (counts, members) \<and>
    build_mono avx level base (sim_clients N) d N = Some (Inr mix) \<and> wf_ix mix \<and>
    build_shards avx levels base (sim_clients N) d (zip counts members) = Some (Inr shards) \<and>
    length shards = numShards \<and> (\<forall>ix \<in> set shards. wf_ix ix) \<and> disjoint_shards shards \<and>
    (\<forall>lab s. shardFor (clientId lab) (label_no lab) numShards = Some s \<longrightarrow> abs_ix (shards ! s) lab = abs_ix mix lab) \<and>
    (\<forall>ix \<in> set (mix # shards). ix_dim ix = d)"
proof -
  let ?cl = "sim_clients N" and ?m = "map (members_of (sim_clients N) numShards N) [0..<numShards]"
  have len: "N \<le> length ?cl" by (simp add: sim_clients_def)
  have as: "assign ?cl numShards N = Some (map length ?m, ?m)"
    using assign_members [OF assms(6) len] assms(3) by (simp add: o_def)
  have nd: "N * d < 2 ^ 64" using assms(5) by (simp add: add_mult_distrib)
  obtain mix where m: "build_mono avx level base ?cl d N = Some (Inr mix)" "wf_ix mix" "config mix = (Cosine, avx, d, N, 16, 200)"
    "abs_ix mix = row_store (query_vec mix) base ?cl d [0..<N]"
    using build_rows [OF assms(1) len assms(3), of "[0..<N]" N level avx] assms(2-4,7) nd
    unfolding build_mono_def by (auto simp: atLeast0LessThan)
  have ms: "\<forall>m \<in> set ?m. distinct m \<and> set m \<subseteq> {..<N} \<and> length m \<le> N"
    using length_filter_le [of _ "[0..<N]"] by (auto simp: members_of_def)
  obtain shards where s: "build_shards avx levels base ?cl d (zip (map length ?m) ?m) = Some (Inr shards)"
    "list_all2 (\<lambda>m ix. wf_ix ix \<and> config ix = (Cosine, avx, d, max (length m) 1, 16, 200) \<and>
      abs_ix ix = row_store (query_vec ix) base ?cl d m) ?m shards"
    using build_shards_rows [OF assms(1) len assms(3,4,5) ms assms(8), of avx] by blast
  have ls: "length shards = numShards" using list_all2_lengthD [OF s(2)] by simp
  have sh: "wf_ix (shards ! t)" "ix_dim (shards ! t) = d"
    "abs_ix (shards ! t) = row_store (query_vec mix) base ?cl d (members_of ?cl numShards N t)" if "t < numShards" for t
  proof -
    have f: "wf_ix (shards ! t)" "config (shards ! t) = (Cosine, avx, d, max (length (members_of ?cl numShards N t)) 1, 16, 200)"
      "abs_ix (shards ! t) = row_store (query_vec (shards ! t)) base ?cl d (members_of ?cl numShards N t)"
      using list_all2_nthD2 [OF s(2), of t] ls that by simp_all
    moreover have "query_vec (shards ! t) = query_vec mix" using f(2) m(3) by (intro query_vec_eq) (simp_all add: config_def)
    ultimately show "wf_ix (shards ! t)" "ix_dim (shards ! t) = d"
      "abs_ix (shards ! t) = row_store (query_vec mix) base ?cl d (members_of ?cl numShards N t)" by (simp_all add: config_def)
  qed
  have "dom (abs_ix (shards ! a)) \<inter> dom (abs_ix (shards ! b)) = {}" if "a < b" "b < numShards" for a b
  proof -
    have "lab \<notin> dom (abs_ix (shards ! b))" if "lab \<in> dom (abs_ix (shards ! a))" for lab
    proof
      assume "lab \<in> dom (abs_ix (shards ! b))"
      then have "Some a = Some b"
        using row_store_other [of lab "query_vec mix" base ?cl d numShards N] sh(3) \<open>a < b\<close> \<open>b < numShards\<close> that by (metis less_trans)
      then show False using \<open>a < b\<close> by simp
    qed
    then show ?thesis by blast
  qed
  then have "disjoint_shards shards" unfolding disjoint_shards_def sorted_wrt_iff_nth_less using ls by simp
  moreover have "abs_ix (shards ! t) lab = abs_ix mix lab" if "shardFor (clientId lab) (label_no lab) numShards = Some t" for lab t
    unfolding m(4) sh(3) [OF shardFor_less [OF that]] by (rule row_store_shard [OF that])
  moreover have "\<forall>ix \<in> set shards. wf_ix ix \<and> ix_dim ix = d" using sh(1,2) ls by (auto simp: in_set_conv_nth)
  moreover have "ix_dim mix = d" using m(3) by (simp add: config_def)
  ultimately show ?thesis using as m(1,2) s(1) ls by auto
qed

section \<open>The run of the simulation\<close>

lemma overlap_bounds: "0 \<le> overlapFraction a b" "overlapFraction a b \<le> 1"
proof -
  let ?h = "length (filter (\<lambda>x. sc_key x \<in> set (map sc_key b)) a)"
  have "(of_nat ?h :: rat) \<le> of_nat (length a)" by (simp only: of_nat_le_iff length_filter_le)
  then show "0 \<le> overlapFraction a b" "overlapFraction a b \<le> 1"
    by (simp_all add: overlapFraction_def Let_def divide_le_eq del: of_nat_le_iff)
qed

lemma filter_all_iff: "length (filter P xs) = length xs \<longleftrightarrow> (\<forall>x \<in> set xs. P x)"
proof (induction xs)
  case (Cons x xs)
  moreover have "length (filter P xs) \<noteq> Suc (length xs)" by (metis length_filter_le not_less_eq_eq order_refl)
  ultimately show ?case by auto
qed simp

lemma overlap_one: "overlapFraction a b = 1 \<longleftrightarrow> a \<noteq> [] \<and> sc_key ` set a \<subseteq> sc_key ` set b"
proof (cases "a = []")
  case False
  let ?p = "\<lambda>x. sc_key x \<in> set (map sc_key b)"
  have "overlapFraction a b = 1 \<longleftrightarrow> (of_nat (length (filter ?p a)) :: rat) = of_nat (length a)"
    using False by (auto simp: overlapFraction_def Let_def)
  also have "\<dots> \<longleftrightarrow> length (filter ?p a) = length a" by (simp only: of_nat_eq_iff)
  also have "\<dots> \<longleftrightarrow> (\<forall>x \<in> set a. ?p x)" by (rule filter_all_iff)
  finally show ?thesis using False by auto
qed (simp add: overlapFraction_def)

lemma those_nth: "those xs = Some ys \<Longrightarrow> i < length xs \<Longrightarrow> xs ! i = Some (ys ! i)"
proof (induction xs arbitrary: ys i)
  case (Cons x xs)
  then show ?case by (cases i) (auto split: option.splits)
qed simp

lemma those_all_Some: "\<forall>x \<in> set xs. \<exists>y. f x = Some y \<Longrightarrow> \<exists>ys. those (map f xs) = Some ys \<and> length ys = length xs"
  by (induction xs) auto

lemma bruteForce_returns:
  assumes "length base = n * d" "n \<le> length clientIds" "d \<le> length q" "k \<le> n"
  shows "\<exists>out. bruteForce psrt avx base clientIds n d q k = Some out"
proof -
  have "\<forall>i \<in> set [0..<n]. \<exists>y. score_row avx base clientIds d qn i = Some y" for qn
    using row_Some [OF assms(1)] assms(2) by (simp add: score_row_def rd_def)
  from those_all_Some [OF this, of "unit_vec avx d (take d q)"] show ?thesis
    using assms(3,4) by (auto simp: bruteForce_def rd_range_def)
qed

definition usable :: "nat \<Rightarrow> index \<Rightarrow> bool" where
  "usable d ix \<longleftrightarrow> wf_ix ix \<and> ix_dim ix = d"

lemma search_usable:
  assumes "usable d ix" "d \<le> length q"
  shows "\<exists>res ix'. search ix q k ef = Some (res, ix') \<and> usable d ix'"
  using search_spec [of ix q k ef] assms by (auto simp: usable_def)

lemma ask_usable:
  assumes "\<forall>ix \<in> set shards. usable d ix" "d \<le> length q"
  shows "\<exists>pool shards'. ask q k ef shards = Some (pool, shards') \<and> length shards' = length shards \<and> (\<forall>ix \<in> set shards'. usable d ix)"
  using assms(1)
proof (induction shards)
  case (Cons ix shards)
  then show ?case using search_usable [of d ix q k ef] assms(2) by fastforce
qed simp

lemma query_step_ok:
  assumes "length base = N * d" "N \<le> length clientIds" "d \<le> length q" "k \<le> N" "usable d mix" "\<forall>ix \<in> set shards. usable d ix"
  shows "\<exists>t' mix' shards'. query_step srt psrt avx base clientIds N d k ef (t, mix, shards) q = Some (t', mix', shards') \<and>
    usable d mix' \<and> (\<forall>ix \<in> set shards'. usable d ix) \<and> t_exact t' \<le> Suc (t_exact t) \<and>
    t_scatter t \<le> t_scatter t' \<and> t_scatter t' \<le> t_scatter t + 1"
proof -
  obtain truth where 1: "bruteForce psrt avx base clientIds N d q k = Some truth" using bruteForce_returns [OF assms(1-4)] by blast
  obtain r mix1 where 2: "search mix q k ef = Some (r, mix1)" "usable d mix1" using search_usable [OF assms(5,3)] by blast
  obtain pool shards1 where 3: "scatter_gather srt shards q k ef = Some (pool, shards1)" "\<forall>ix \<in> set shards1. usable d ix"
    using ask_usable [OF assms(6,3), of k ef] by (auto simp: scatter_gather_def)
  obtain naive shards2 where 4: "naive_gather srt shards1 q k ef = Some (naive, shards2)" "\<forall>ix \<in> set shards2. usable d ix"
    using ask_usable [OF 3(2) assms(3), of "max 1 (k div length shards1)" ef] by (auto simp: naive_gather_def Let_def)
  obtain r5 mix2 where 5: "search mix1 q k (mul_sz ef (length shards)) = Some (r5, mix2)" "usable d mix2"
    using search_usable [OF 2(2) assms(3)] by blast
  show ?thesis using 1 2(1) 3(1) 4 5 overlap_bounds by (simp add: query_step_def)
qed

section \<open>Two small shards\<close>

definition ex_far :: index where
  "ex_far = snd (the (addPoint ex_empty [1 + 1 + 1 + 1] (Label 2 7) 0))"

text \<open>All fields but the table of labels, which a search does not read.\<close>

definition fields :: "index \<Rightarrow> _" where
  "fields ix = (ix_space ix, ix_dim ix, ix_maxElements ix, ix_M ix, ix_maxM ix, ix_maxM0 ix, ix_efConstruction ix,
     ix_strideL0 ix, ix_strideUpper ix, ix_data ix, ix_levels ix, ix_labels ix, ix_deleted ix, ix_linksL0 ix, ix_linksUpper ix,
     ix_count ix, ix_numDeleted ix, ix_entryPoint ix, ix_maxLevel ix, ix_visitedPool ix, ix_avx ix)"

definition ex_two_of :: "(label \<Rightarrow> nat option) \<Rightarrow> index" where
  "ex_two_of m = \<lparr>ix_space = L2, ix_dim = 1, ix_maxElements = 3, ix_M = 2, ix_maxM = 2, ix_maxM0 = 4, ix_efConstruction = 2,
     ix_strideL0 = 5, ix_strideUpper = 3, ix_data = [1, 1 + 1, 0], ix_levels = [0, 0, 0],
     ix_labels = [Label 1 7, Label 1 8, Label 0 0], ix_deleted = [0, 0, 0],
     ix_linksL0 = [1, 1, 0, 0, 0, 1, 0, 0, 0, 0, 0, 0, 0, 0, 0], ix_linksUpper = [[], [], []], ix_count = 2, ix_numDeleted = 0,
     ix_entryPoint = 0, ix_maxLevel = 0, ix_labelToId = m,
     ix_visitedPool = \<lparr>vp_pool = [\<lparr>vl_marks = [2, 0, 0], vl_cur = 2\<rparr>], vp_n = 3\<rparr>, ix_avx = False\<rparr>"

lemma fields_eq: fixes a b :: index shows "fields a = fields b \<Longrightarrow> ix_labelToId a = ix_labelToId b \<Longrightarrow> a = b"
  by (cases a; cases b) (simp add: fields_def)

lemma ex_two_fields: "fields ex_two = fields (ex_two_of m)"
  by code_simp

lemma ex_two_eq: "ex_two = ex_two_of (ix_labelToId ex_two)"
  by (rule fields_eq [OF ex_two_fields]) (simp add: ex_two_of_def)

lemma ex_two_answers:
  "map_option (map to_scored \<circ> fst) (search (ex_two_of m) [1] 1 2) = Some [\<lparr>sc_distance = 0, sc_clientId = 1, sc_label = 7\<rparr>]"
  "map_option (map to_scored \<circ> fst) (search (ex_two_of m) [1] 2 2) =
     Some [\<lparr>sc_distance = 0, sc_clientId = 1, sc_label = 7\<rparr>, \<lparr>sc_distance = 1, sc_clientId = 1, sc_label = 8\<rparr>]"
  by code_simp+

lemma ex_far_answers:
  "map_option (map to_scored \<circ> fst) (search ex_far [1] 1 2) = Some [\<lparr>sc_distance = F32 0x41100000, sc_clientId = 2, sc_label = 7\<rparr>]"
  "map_option (map to_scored \<circ> fst) (search ex_far [1] 2 2) = Some [\<lparr>sc_distance = F32 0x41100000, sc_clientId = 2, sc_label = 7\<rparr>]"
  by code_simp+

lemma ask_two:
  assumes "map_option (map to_scored \<circ> fst) (search a qv k ef) = Some xs" "map_option (map to_scored \<circ> fst) (search b qv k ef) = Some ys"
  shows "map_option fst (ask qv k ef [a, b]) = Some (xs @ ys)"
  using assms by (auto split: option.splits prod.splits)

section \<open>Properties\<close>

text \<open>
  C6: Scatter and gather. If every shard satisfies the class invariant, its live vectors are reachable in layer
  0, the beam is as wide as its live count, no distance is a NaN and no label is in two shards, then
  asking every shard for \<open>k\<close>, sorting by distance and cutting at \<open>k\<close> gives the \<open>k\<close> nearest
  live vectors of all shards together, ascending, whatever sorting algorithm is used; the shards keep their
  content.
\<close>

theorem scatter_gather_exact:
  assumes "sorter srt" "\<forall>ix \<in> set shards. exact_shard qv k ef ix" "disjoint_shards shards"
  shows "\<exists>out shards'. scatter_gather srt shards qv k ef = Some (out, shards') \<and> nearest qv k shards out \<and>
    map abs_ix shards' = map abs_ix shards"
proof -
  obtain pool shards' where p: "ask qv k ef shards = Some (pool, shards')" "pooled qv k shards pool"
    "list_all2 (\<lambda>ix ix'. wf_ix ix' \<and> abs_ix ix' = abs_ix ix \<and> config ix' = config ix) shards shards'"
    using ask_pool [OF assms(2,3)] by blast
  have "map abs_ix shards' = map abs_ix shards" using p(3) by (induction rule: list_all2_induct) simp_all
  then show ?thesis using p(1) gather_nearest [OF assms(1) p(2) assms(3,2)] by (simp add: scatter_gather_def)
qed

theorem scatter_gather_exact_witness:
  "\<exists>out shards'. scatter_gather (std_sort scored_less) [ex_two, ex_empty] [1] 1 2 = Some (out, shards') \<and>
     nearest [1] 1 [ex_two, ex_empty] out"
proof -
  have "exact_shard [1] 1 2 ex_two" using ex_two_wf ex_two_ok ex_two_dist(3) by (simp add: exact_shard_def)
  moreover have "exact_shard [1] 1 2 ex_empty"
    using ex_empty_wf activeSize_card [OF ex_empty_wf(1)] by (simp add: exact_shard_def nan_free_def node_def connected0_def)
  moreover have "disjoint_shards [ex_two, ex_empty]" using ex_empty_wf(5) by (simp add: disjoint_shards_def)
  ultimately show ?thesis
    using scatter_gather_exact [OF ins.sorter_axioms, of "[ex_two, ex_empty]" "[1]" 1 2] by auto
qed

text \<open>
  C25: The sharded build. Every insertion of the simulation succeeds, in the monolithic index and in the shards,
  and the shards split the store of the monolithic index: a label is found in the shard the routing
  hash names, with the vector the monolithic index has for it, and in no other.
\<close>

theorem sharded_build:
  assumes "length base = N * d" "0 < N" "N < 2 ^ 32" "0 < d" "(N + 1) * d < 2 ^ 64" "0 < numShards"
    and "\<forall>i. 0 \<le> level i" "\<forall>s i. 0 \<le> levels s i"
  shows "\<exists>counts members mix shards. assign (sim_clients N) numShards N = Some (counts, members) \<and>
    build_mono avx level base (sim_clients N) d N = Some (Inr mix) \<and> wf_ix mix \<and>
    build_shards avx levels base (sim_clients N) d (zip counts members) = Some (Inr shards) \<and>
    length shards = numShards \<and> (\<forall>ix \<in> set shards. wf_ix ix) \<and> disjoint_shards shards \<and>
    (\<forall>lab s. shardFor (clientId lab) (label_no lab) numShards = Some s \<longrightarrow> abs_ix (shards ! s) lab = abs_ix mix lab)"
proof -
  note b = sharded_build_facts [OF assms(1-6), of level levels avx, OF assms(7,8)]
  then show ?thesis by blast
qed

theorem sharded_build_witness:
  "\<exists>counts members mix shards. assign (sim_clients 2) 2 2 = Some (counts, members) \<and>
     build_mono False (\<lambda>_. 0) [1, 1] (sim_clients 2) 1 2 = Some (Inr mix) \<and>
     build_shards False (\<lambda>_ _. 0) [1, 1] (sim_clients 2) 1 (zip counts members) = Some (Inr shards) \<and> disjoint_shards shards"
  using sharded_build [of "[1, 1]" 2 1 2 "\<lambda>_. 0" "\<lambda>_ _. 0" False] by auto

text \<open>
  The whole simulation runs to its end for every admissible input: no insertion fails, no array is left,
  no undefined operation is reached.
\<close>

lemma shard_sim_returns:
  assumes "length base = N * d" "10 \<le> N" "N < 2 ^ 32" "0 < d" "(N + 1) * d < 2 ^ 64" "0 < numShards"
    and "\<forall>i. 0 \<le> level i" "\<forall>s i. 0 \<le> levels s i" "\<forall>q \<in> set queries. d \<le> length q"
    and "sorter srt" "partial_sorter psrt"
  shows "\<exists>t mn mx. shard_sim srt psrt avx level levels base queries N d numShards = Some (Inr (t, mn, mx)) \<and>
    mn * numShards \<le> N \<and> N \<le> mx * numShards \<and> t_exact t \<le> length queries \<and>
    0 \<le> t_scatter t \<and> t_scatter t \<le> of_nat (length queries)"
proof -
  let ?cl = "sim_clients N"
  obtain counts members mix shards where b: "assign ?cl numShards N = Some (counts, members)"
    "build_mono avx level base ?cl d N = Some (Inr mix)" "build_shards avx levels base ?cl d (zip counts members) = Some (Inr shards)"
    "usable d mix" "\<forall>ix \<in> set shards. usable d ix"
    using sharded_build_facts [OF assms(1) _ assms(3-6), of level levels avx] assms(2,7,8) by (fastforce simp: usable_def)
  define P where "P ys st \<longleftrightarrow> usable d (fst (snd st)) \<and> (\<forall>ix \<in> set (snd (snd st)). usable d ix) \<and> t_exact (fst st) \<le> length ys \<and>
    0 \<le> t_scatter (fst st) \<and> t_scatter (fst st) \<le> of_nat (length ys)" for ys :: "f32 list list" and st :: "tallies \<times> index \<times> index list"
  let ?t0 = "\<lparr>t_mono = 0, t_fair = 0, t_scatter = 0, t_naive = 0, t_overlap = 0, t_exact = 0\<rparr> :: tallies"
  have "\<exists>st. foldM (query_step srt psrt avx base ?cl N d 10 100) (?t0, mix, shards) queries = Some st \<and> P queries st"
  proof (rule foldM_rule)
    show "P [] (?t0, mix, shards)" using b by (simp add: P_def)
  next
    fix ys q zs st assume e: "queries = ys @ q # zs" and p: "P ys st"
    obtain t mi sh where st: "st = (t, mi, sh)" by (cases st)
    have "d \<le> length q" "N \<le> length ?cl" using assms(9) e by (simp_all add: sim_clients_def)
    from query_step_ok [OF assms(1) this(2,1) assms(2), of mi sh srt psrt avx 100 t] p
    show "\<exists>st'. query_step srt psrt avx base ?cl N d 10 100 st q = Some st' \<and> P (ys @ [q]) st'"
      by (fastforce simp: P_def st)
  qed
  moreover have "mn * numShards \<le> N \<and> N \<le> mx * numShards" if "spread N counts = (mn, mx)" for mn mx
    using assign_spec [OF assms(6), of N ?cl] b(1) assms(3) that by (auto simp: sim_clients_def)
  ultimately show ?thesis
    using b by (cases "spread N counts") (auto simp: shard_sim_def Let_def P_def split: prod.splits)
qed

lemma shard_sim_returns_witness:
  "\<exists>t mn mx. shard_sim (std_sort scored_less) (\<lambda>_. std_sort scored_less) False (\<lambda>_. 0) (\<lambda>_ _. 0) (replicate 10 1) [[1]] 10 1 3 =
     Some (Inr (t, mn, mx)) \<and> mn * 3 \<le> 10"
  using shard_sim_returns [OF _ _ _ _ _ _ _ _ _ ins.sorter_axioms ins.psort.partial_sorter_axioms,
      of "replicate 10 1" 10 1 3 "\<lambda>_. 0" "\<lambda>_ _. 0" "[[1]]" False] by auto

text \<open>
  Ground truth. \<open>bruteForce\<close> returns \<open>k\<close> of the scored rows, ascending, and no row it leaves
  out is closer than one it returns; the recall of a result against it is between 0 and 1, and 1 exactly if
  the result is not empty and all of it is in the ground truth.
\<close>

lemma bruteForce_nearest:
  assumes "partial_sorter psrt" "length base = n * d" "n \<le> length clientIds" "d \<le> length q" "k \<le> n"
    and "\<forall>i < n. \<exists>x. score_row avx base clientIds d (unit_vec avx d (take d q)) i = Some x \<and> \<not> f32_is_nan (sc_distance x)"
  shows "\<exists>truth. bruteForce psrt avx base clientIds n d q k = Some truth \<and> length truth = k \<and>
    sorted_wrt (\<lambda>x y. \<not> scored_less y x) truth \<and>
    (\<forall>i < n. \<forall>x. score_row avx base clientIds d (unit_vec avx d (take d q)) i = Some x \<longrightarrow> x \<notin> set truth \<longrightarrow>
       (\<forall>r \<in> set truth. \<not> scored_less x r)) \<and>
    (\<forall>res. overlapFraction res truth \<in> {0..1} \<and>
       (overlapFraction res truth = 1 \<longleftrightarrow> res \<noteq> [] \<and> sc_key ` set res \<subseteq> sc_key ` set truth))"
proof -
  let ?f = "score_row avx base clientIds d (unit_vec avx d (take d q))"
  obtain all where a: "those (map ?f [0..<n]) = Some all" "length all = n"
    using those_all_Some [of "[0..<n]" ?f] assms(6) by (auto simp: atLeast0LessThan Ball_def)
  have nth: "?f i = Some (all ! i)" if "i < n" for i using those_nth [OF a(1), of i] that by simp
  have nn: "no_nan all" using assms(6) nth a(2) by (fastforce simp: no_nan_def in_set_conv_nth)
  let ?t = "take k (psrt k all)"
  note pl = partial_sorter.prefix_least [OF assms(1) nn]
  have "bruteForce psrt avx base clientIds n d q k = Some ?t"
    using a assms(4,5) by (simp add: bruteForce_def rd_range_def)
  moreover have "length ?t = k" "sorted_wrt (\<lambda>x y. \<not> scored_less y x) ?t"
    using partial_sorter.prefix_facts(1) [OF assms(1)] partial_sorter.psorted [OF assms(1) nn] a(2) assms(5) by auto
  moreover have "\<not> scored_less x r" if "i < n" "?f i = Some x" "x \<notin> set ?t" "r \<in> set ?t" for i x r
    using pl [of x k r] nth [of i] that a(2) nth_mem [of i all] by simp
  moreover have "overlapFraction res ?t \<in> {0..1} \<and>
      (overlapFraction res ?t = 1 \<longleftrightarrow> res \<noteq> [] \<and> sc_key ` set res \<subseteq> sc_key ` set ?t)" for res
    using overlap_bounds [of res ?t] overlap_one [of res ?t] by simp
  ultimately show ?thesis by blast
qed

lemma bruteForce_nearest_witness:
  "\<exists>truth. bruteForce (\<lambda>_. std_sort scored_less) False [0] [1] 1 1 [0] 1 = Some truth \<and> length truth = 1"
proof -
  have "score_row False [0] [1] 1 (unit_vec False 1 (take 1 [0])) 0 = Some \<lparr>sc_distance = 1, sc_clientId = 1, sc_label = 0\<rparr>"
    by code_simp
  then have "\<forall>i < 1. \<exists>x. score_row False [0] [1] 1 (unit_vec False 1 (take 1 [0])) i = Some x \<and> \<not> f32_is_nan (sc_distance x)"
    using ex_not_nan(2) by simp
  from bruteForce_nearest [OF ins.psort.partial_sorter_axioms _ _ _ _ this, of 1] show ?thesis by auto
qed

text \<open>
  Asking each shard for \<open>k / numShards\<close> is wrong: with two shards and \<open>k = 2\<close> it returns a far
  vector in place of the second nearest, which scatter and gather finds.
\<close>

lemma naive_gather_loses:
  "map_option (map sc_key \<circ> fst) (scatter_gather (std_sort scored_less) [ex_two, ex_far] [1] 2 2) = Some [(1, 7), (1, 8)] \<and>
   map_option (map sc_key \<circ> fst) (naive_gather (std_sort scored_less) [ex_two, ex_far] [1] 2 2) = Some [(1, 7), (2, 7)]"
proof -
  let ?a = "\<lparr>sc_distance = 0, sc_clientId = 1, sc_label = 7\<rparr>" and ?b = "\<lparr>sc_distance = 1, sc_clientId = 1, sc_label = 8\<rparr>"
    and ?c = "\<lparr>sc_distance = F32 0x41100000, sc_clientId = 2, sc_label = 7\<rparr>"
  note two = ex_two_answers [of "ix_labelToId ex_two", folded ex_two_eq]
  have 1: "map_option fst (ask [1] 2 2 [ex_two, ex_far]) = Some [?a, ?b, ?c]" using ask_two [OF two(2) ex_far_answers(2)] by simp
  have 2: "map_option fst (ask [1] 1 2 [ex_two, ex_far]) = Some [?a, ?c]" using ask_two [OF two(1) ex_far_answers(1)] by simp
  have g: "map sc_key (gather (std_sort scored_less) 2 [?a, ?b, ?c]) = [(1, 7), (1, 8)]"
    "map sc_key (gather (std_sort scored_less) 2 [?a, ?c]) = [(1, 7), (2, 7)]" by code_simp+
  have m: "map_option (f \<circ> fst) (map_option (map_prod h id) x) = map_option (f \<circ> h) (map_option fst x)"
    for f :: "scored list \<Rightarrow> (64 word \<times> 64 word) list" and h and x :: "(scored list \<times> index list) option" by (cases x) auto
  have p: "max 1 (2 div length [ex_two, ex_far]) = 1" by (simp add: numeral_2_eq_2)
  show ?thesis unfolding scatter_gather_def naive_gather_def Let_def p m 1 2 using g by simp
qed

text \<open>
  The ground truth normalises a vector by dividing by its norm, the index by multiplying with the reciprocal:
  for the one-dimensional vector 41 the results differ by one unit in the last place.
\<close>

lemma normalisations_differ:
  "f32_div (F32 0x42240000) (F32 0x42240000) = F32 0x3F800000"
  "F32 0x42240000 * f32_div 1 (F32 0x42240000) = F32 0x3F7FFFFF"
  by code_simp+

end
