(* ===== verification/Benchmark.thy ===== *)
theory Benchmark
  imports Float64 Hnsw_Repeat Shard_Sim "HOL-Library.Product_Lexorder"
begin

text \<open>
  The synthetic benchmark \<open>src/benchmark.cpp\<close>: brute force, the sweep over \<open>efSearch\<close> with its
  recall, and the two checks at its end, of soft deletes and of snapshots. Parameters are the random
  vectors, the drawn levels, the clock (the latency of a query, a rational), \<open>std::partial_sort\<close>, and
  the device the snapshot is written to. Printing is left out; what is printed is the result.

  The results: the brute-force answer does not depend on the sorting algorithm, and the program runs to its
  end with both checks passing.
\<close>

section \<open>Ground truth\<close>

definition kBenchClientId :: "64 word" where "kBenchClientId = 1"

text \<open>The order of \<open>std::pair\<close>.\<close>

definition pair_less :: "f32 \<times> nat \<Rightarrow> f32 \<times> nat \<Rightarrow> bool" where
  "pair_less x y \<longleftrightarrow> fst x < fst y \<or> \<not> fst y < fst x \<and> snd x < snd y"

definition norm_query :: "bool \<Rightarrow> space \<Rightarrow> nat \<Rightarrow> f32 list \<Rightarrow> f32 list" where
  "norm_query avx sp d q = (case sp of Cosine \<Rightarrow> unit_vec avx d q | L2 \<Rightarrow> q)"

definition row_dist :: "bool \<Rightarrow> space \<Rightarrow> nat \<Rightarrow> f32 list \<Rightarrow> f32 list \<Rightarrow> f32" where
  "row_dist avx sp d qn p =
     (case sp of Cosine \<Rightarrow> cosineDistance avx qn (unit_vec avx d p) d | L2 \<Rightarrow> l2SquaredDistance avx qn p d)"

definition exact_labels :: "(nat \<Rightarrow> (f32 \<times> nat) list \<Rightarrow> (f32 \<times> nat) list) \<Rightarrow> bool \<Rightarrow> f32 list \<Rightarrow> nat \<Rightarrow> nat \<Rightarrow> f32 list \<Rightarrow>
    nat \<Rightarrow> space \<Rightarrow> label list option" where
  "exact_labels psrt avx base n d query k sp =
     (case rd_range query 0 d of None \<Rightarrow> None
      | Some q \<Rightarrow>
          let qn = norm_query avx sp d q in
          case those (map (\<lambda>i. map_option (\<lambda>p. (row_dist avx sp d qn p, i)) (row base d i)) [0..<n]) of None \<Rightarrow> None
          | Some scored \<Rightarrow>
              if length scored < k then None
              else Some (map (\<lambda>x. Label kBenchClientId (of_nat (snd x))) (take k (psrt k scored))))"

section \<open>Build and sweep\<close>

definition add_bench :: "(nat \<Rightarrow> int) \<Rightarrow> f32 list \<Rightarrow> nat \<Rightarrow> exn + index \<Rightarrow> nat \<Rightarrow> (exn + index) option" where
  "add_bench level base d st i =
     (case st of Inl e \<Rightarrow> Some (Inl e)
      | Inr ix \<Rightarrow> (case row base d i of None \<Rightarrow> None
          | Some v \<Rightarrow> map_option (\<lambda>(r, ix'). case r of Inl e \<Rightarrow> Inl e | Inr _ \<Rightarrow> Inr ix')
                       (addPoint ix v (Label kBenchClientId (of_nat i)) (level i))))"

definition build_bench :: "bool \<Rightarrow> space \<Rightarrow> (nat \<Rightarrow> int) \<Rightarrow> f32 list \<Rightarrow> nat \<Rightarrow> nat \<Rightarrow> nat \<Rightarrow> nat \<Rightarrow> (exn + index) option" where
  "build_bench avx sp level base d n M efc = foldM (add_bench level base d) (Index avx sp d n M efc) [0..<n]"

definition label_hits :: "label list list \<Rightarrow> nat \<Rightarrow> search_result list \<Rightarrow> nat option" where
  "label_hits truth q res = map_option (\<lambda>t. length (filter (\<lambda>r. sr_label r \<in> set t) res)) (rd truth q)"

record sweep_row =
  sw_ef :: nat
  sw_recall :: rat
  sw_p50 :: rat
  sw_p95 :: rat
  sw_p99 :: rat

text \<open>One query of the sweep; \<open>hits_of\<close> counts the results that are in the ground truth.\<close>

definition sweep_query :: "(nat \<Rightarrow> search_result list \<Rightarrow> nat option) \<Rightarrow> f32 list \<Rightarrow> nat \<Rightarrow> nat \<Rightarrow> nat \<Rightarrow> nat \<times> index \<Rightarrow> nat \<Rightarrow>
    (nat \<times> index) option" where
  "sweep_query hits_of queries d k ef st q =
     (case st of (hits, ix) \<Rightarrow>
      case row queries d q of None \<Rightarrow> None | Some qv \<Rightarrow>
      case search ix qv k ef of None \<Rightarrow> None | Some (res, ix') \<Rightarrow>
      map_option (\<lambda>h. (hits + h, ix')) (hits_of q res))"

definition sweep_ef :: "(nat \<Rightarrow> search_result list \<Rightarrow> nat option) \<Rightarrow> (nat \<Rightarrow> nat \<Rightarrow> rat) \<Rightarrow> (sweep_row \<Rightarrow> bool) \<Rightarrow> f32 list \<Rightarrow> nat \<Rightarrow> nat \<Rightarrow> nat \<Rightarrow>
    sweep_row list \<times> bool \<times> index \<Rightarrow> nat \<Rightarrow> (sweep_row list \<times> bool \<times> index) option" where
  "sweep_ef hits_of clock good queries d nq k st ef =
     (case st of (rows, hitTarget, ix) \<Rightarrow>
      if ef < k then Some st
      else case foldM (sweep_query hits_of queries d k ef) (0, ix) [0..<nq] of None \<Rightarrow> None
        | Some (hits, ix') \<Rightarrow>
            let latencies = map (clock ef) [0..<nq] in
            case (percentile latencies 50, percentile latencies 95, percentile latencies 99) of
              (Some p50, Some p95, Some p99) \<Rightarrow>
                let r = \<lparr>sw_ef = ef, sw_recall = f64_round (of_nat hits / of_nat (nq * k)), sw_p50 = p50, sw_p95 = p95, sw_p99 = p99\<rparr>
                in Some (rows @ [r], hitTarget \<or> good r, ix')
            | _ \<Rightarrow> None)"

definition efSearch :: "nat list" where
  "efSearch = [10, 20, 40, 60, 100, 150, 200, 400]"

definition recall_reached :: "sweep_row \<Rightarrow> bool" where
  "recall_reached r \<longleftrightarrow> f64_round (95 / 100) \<le> sw_recall r"

section \<open>The checks at the end\<close>

definition delete_check :: "f32 list \<Rightarrow> nat \<Rightarrow> nat \<Rightarrow> index \<Rightarrow> (bool \<times> nat \<times> nat \<times> index) option" where
  "delete_check queries d k ix =
     (case row queries d 0 of None \<Rightarrow> None | Some qv \<Rightarrow>
      case search ix qv k 100 of None \<Rightarrow> None | Some (before, ix1) \<Rightarrow>
      case before of [] \<Rightarrow> None | front # _ \<Rightarrow>
      let victim = sr_label front in
      case markDeleted ix1 victim of None \<Rightarrow> None | Some (_, ix2) \<Rightarrow>
      case search ix2 qv k 100 of None \<Rightarrow> None | Some (after, ix3) \<Rightarrow>
      case unmarkDeleted ix3 victim of None \<Rightarrow> None | Some (_, ix4) \<Rightarrow>
      Some (filter (\<lambda>r. sr_label r = victim) after = [], activeSize ix3, size_ix ix3, ix4))"

definition compare_query :: "f32 list \<Rightarrow> nat \<Rightarrow> nat \<Rightarrow> nat \<times> index \<times> index \<Rightarrow> nat \<Rightarrow> (nat \<times> index \<times> index) option" where
  "compare_query queries d k st q =
     (case st of (mismatches, ix, re) \<Rightarrow>
      case row queries d q of None \<Rightarrow> None | Some qv \<Rightarrow>
      case search ix qv k 100 of None \<Rightarrow> None | Some (a, ix') \<Rightarrow>
      case search re qv k 100 of None \<Rightarrow> None | Some (b, re') \<Rightarrow>
      Some (if length a \<noteq> length b \<or> \<not> list_all2 (\<lambda>x y. sr_label x = sr_label y) a b then mismatches + 1 else mismatches, ix', re'))"

definition reload_check :: "(nat \<Rightarrow> nat) \<Rightarrow> string \<Rightarrow> device \<Rightarrow> f32 list \<Rightarrow> nat \<Rightarrow> nat \<Rightarrow> nat \<Rightarrow> index \<Rightarrow> (exn + nat \<times> nat) option" where
  "reload_check junk path dev queries d nq k ix =
     (case save ix path dev of None \<Rightarrow> None
      | Some (Inl e, _) \<Rightarrow> Some (Inl e)
      | Some (Inr _, content) \<Rightarrow>
          (case load (ix_avx ix) junk path content of None \<Rightarrow> None
           | Some (Inl e) \<Rightarrow> Some (Inl e)
           | Some (Inr re) \<Rightarrow>
               map_option (\<lambda>(m, _, r). Inr (m, size_ix r)) (foldM (compare_query queries d k) (0, ix, re) [0..<nq])))"

record bench_result =
  be_rows :: "sweep_row list"
  be_target :: bool
  be_gone :: bool
  be_active :: nat
  be_size :: nat
  be_mismatches :: nat
  be_restored :: nat

definition bench_main :: "(nat \<Rightarrow> (f32 \<times> nat) list \<Rightarrow> (f32 \<times> nat) list) \<Rightarrow> bool \<Rightarrow> (nat \<Rightarrow> int) \<Rightarrow> (nat \<Rightarrow> nat \<Rightarrow> rat) \<Rightarrow> (nat \<Rightarrow> nat) \<Rightarrow> string \<Rightarrow> device \<Rightarrow>
    f32 list \<Rightarrow> f32 list \<Rightarrow> nat \<Rightarrow> nat \<Rightarrow> (exn + bench_result) option" where
  "bench_main psrt avx level clock junk path dev base queries N d =
     (let nq = 200; k = 10 in
      case build_bench avx Cosine level base d N 16 200 of None \<Rightarrow> None
      | Some (Inl e) \<Rightarrow> Some (Inl e)
      | Some (Inr ix) \<Rightarrow>
          (case those (map (\<lambda>q. case row queries d q of None \<Rightarrow> None | Some qv \<Rightarrow> exact_labels psrt avx base N d qv k Cosine) [0..<nq]) of None \<Rightarrow> None
           | Some truth \<Rightarrow>
          case foldM (sweep_ef (label_hits truth) clock recall_reached queries d nq k) ([], False, ix) efSearch of None \<Rightarrow> None
           | Some (rows, hitTarget, ix1) \<Rightarrow>
          case delete_check queries d k ix1 of None \<Rightarrow> None
           | Some (gone, active, sz, ix2) \<Rightarrow>
          map_option (map_sum id (\<lambda>(m, restored). \<lparr>be_rows = rows, be_target = hitTarget, be_gone = gone, be_active = active, be_size = sz,
              be_mismatches = m, be_restored = restored\<rparr>)) (reload_check junk path dev queries d nq k ix2)))"

section \<open>Sorting pairs\<close>

definition pairs_ok :: "(f32 \<times> nat) list \<Rightarrow> bool" where
  "pairs_ok xs \<longleftrightarrow> (\<forall>x \<in> set xs. \<not> f32_is_nan (fst x))"

text \<open>\<open>std::partial_sort\<close> on pairs.\<close>

locale pair_sorter =
  fixes psrt :: "nat \<Rightarrow> (f32 \<times> nat) list \<Rightarrow> (f32 \<times> nat) list"
  assumes perm: "mset (psrt k xs) = mset xs"
    and sorted: "pairs_ok xs \<Longrightarrow> sorted_wrt (\<lambda>x y. \<not> pair_less y x) (take k (psrt k xs))"
    and least: "pairs_ok xs \<Longrightarrow> x \<in> set (take k (psrt k xs)) \<Longrightarrow> y \<in> set (drop k (psrt k xs)) \<Longrightarrow> \<not> pair_less y x"

definition pair_key :: "f32 \<times> nat \<Rightarrow> int \<times> nat" where
  "pair_key x = (f32_key (fst x), snd x)"

lemma pair_less_key:
  "\<not> f32_is_nan (fst x) \<Longrightarrow> \<not> f32_is_nan (fst y) \<Longrightarrow> pair_less x y \<longleftrightarrow> pair_key x < pair_key y"
  by (auto simp: pair_less_def pair_key_def less_f32_def less_prod_def)

lemma take_of_sort:
  fixes ys :: "'a::linorder list"
  assumes "mset ys = mset zs" "sorted (take k ys)" "\<forall>x \<in> set (take k ys). \<forall>y \<in> set (drop k ys). x \<le> y" "k \<le> length ys"
  shows "take k ys = take k (sort zs)"
proof -
  have "sorted (take k ys @ sort (drop k ys))" using assms(2,3) by (simp add: sorted_append)
  moreover have "mset (take k ys @ sort (drop k ys)) = mset zs" using assms(1) by (metis append_take_drop_id mset_append mset_sort)
  ultimately have "sort zs = take k ys @ sort (drop k ys)" by (metis properties_for_sort)
  then show ?thesis using assms(4) by simp
qed

interpretation prw: weak_order pair_less "\<lambda>x. \<not> f32_is_nan (fst x)"
proof
  show "pair_less x y \<Longrightarrow> \<not> pair_less y x" for x y unfolding pair_less_def less_f32_def by auto
  show "\<not> f32_is_nan (fst x) \<Longrightarrow> \<not> f32_is_nan (fst y) \<Longrightarrow> \<not> f32_is_nan (fst z) \<Longrightarrow>
    \<not> pair_less x y \<Longrightarrow> \<not> pair_less y z \<Longrightarrow> \<not> pair_less x z" for x y z unfolding pair_less_def less_f32_def by auto
qed

interpretation pins: pair_sorter "\<lambda>_. std_sort pair_less"
proof
  fix k xs assume "pairs_ok xs"
  then have s: "sorted_wrt (\<lambda>x y. \<not> pair_less y x) (std_sort pair_less xs)" by (simp add: pairs_ok_def prw.std_sort_sorted)
  then show "sorted_wrt (\<lambda>x y. \<not> pair_less y x) (take k (std_sort pair_less xs))" by (rule sorted_wrt_take)
  show "x \<in> set (take k (std_sort pair_less xs)) \<Longrightarrow> y \<in> set (drop k (std_sort pair_less xs)) \<Longrightarrow> \<not> pair_less y x" for x y
    using s by (metis append_take_drop_id sorted_wrt_append)
qed simp

context pair_sorter
begin

text \<open>Off the NaNs the first \<open>k\<close> keys are determined.\<close>

lemma prefix_determined:
  assumes "pairs_ok xs" "k \<le> length xs"
  shows "map pair_key (take k (psrt k xs)) = take k (sort (map pair_key xs))"
proof -
  let ?p = "psrt k xs"
  have set: "set ?p = set xs" using perm [of k xs] by (rule mset_eq_setD)
  have nn: "\<not> f32_is_nan (fst x)" if "x \<in> set (take k ?p) \<union> set (drop k ?p)" for x
    using assms(1) that set by (metis append_take_drop_id pairs_ok_def set_append)
  have "sorted_wrt (\<lambda>x y. pair_key x \<le> pair_key y) (take k ?p)"
    by (rule sorted_wrt_mono_rel [OF _ sorted [OF assms(1)]]) (use nn pair_less_key in force)
  then have "sorted (take k (map pair_key ?p))" by (simp add: sorted_map take_map)
  moreover have "pair_key x \<le> pair_key y" if "x \<in> set (take k ?p)" "y \<in> set (drop k ?p)" for x y
    using least [OF assms(1) that] pair_less_key [of y x] nn that by (simp add: not_less)
  then have "\<forall>x \<in> set (take k (map pair_key ?p)). \<forall>y \<in> set (drop k (map pair_key ?p)). x \<le> y"
    by (simp add: take_map drop_map)
  moreover have "mset (map pair_key ?p) = mset (map pair_key xs)" using perm by simp
  moreover have "length ?p = length xs" using perm [of k xs] by (rule mset_eq_length)
  ultimately show ?thesis using take_of_sort [of "map pair_key ?p" "map pair_key xs" k] assms(2) by (simp add: take_map)
qed

end

lemma sort_map_key: "sort (map g xs) = map g (sort_key g xs)"
  by (rule properties_for_sort) (simp_all only: mset_map mset_sort sorted_sort_key)

lemma exact_labels_rows:
  assumes "pair_sorter psrt" "length base = n * d" "d \<le> length q" "k \<le> n"
    and "\<forall>i < n. \<not> f32_is_nan (row_dist avx sp d (norm_query avx sp d (take d q)) (block d base i))"
  shows "exact_labels psrt avx base n d q k sp = Some (map (\<lambda>i. Label kBenchClientId (of_nat i))
    (take k (sort_key (\<lambda>i. (f32_key (row_dist avx sp d (norm_query avx sp d (take d q)) (block d base i)), i)) [0..<n])))"
proof -
  define D where "D i = row_dist avx sp d (norm_query avx sp d (take d q)) (block d base i)" for i
  let ?xs = "map (\<lambda>i. (D i, i)) [0..<n]"
  have t: "those (map (\<lambda>i. map_option (\<lambda>p. (row_dist avx sp d (norm_query avx sp d (take d q)) p, i)) (row base d i)) [0..<n]) = Some ?xs"
    by (rule those_map_Some) (simp add: row_Some [OF assms(2)] D_def)
  have ok: "pairs_ok ?xs" using assms(5) by (auto simp: pairs_ok_def D_def)
  have "map snd (take k (psrt k ?xs)) = map snd (map pair_key (take k (psrt k ?xs)))" by (simp add: pair_key_def)
  also have "\<dots> = map snd (take k (sort (map pair_key ?xs)))"
    using pair_sorter.prefix_determined [OF assms(1) ok, of k] assms(4) by simp
  also have "map pair_key ?xs = map (\<lambda>i. (f32_key (D i), i)) [0..<n]" by (simp add: pair_key_def)
  also have "map snd (take k (sort \<dots>)) = take k (sort_key (\<lambda>i. (f32_key (D i), i)) [0..<n])"
    by (simp add: sort_map_key take_map comp_def)
  finally have "map (\<lambda>i. Label kBenchClientId (of_nat i)) (map snd (take k (psrt k ?xs))) =
      map (\<lambda>i. Label kBenchClientId (of_nat i)) (take k (sort_key (\<lambda>i. (f32_key (D i), i)) [0..<n]))" by (rule arg_cong)
  then have "map (\<lambda>x. Label kBenchClientId (of_nat (snd x))) (take k (psrt k ?xs)) =
      map (\<lambda>i. Label kBenchClientId (of_nat i)) (take k (sort_key (\<lambda>i. (f32_key (D i), i)) [0..<n]))" by (simp only: map_map comp_def)
  then show ?thesis using t assms(3,4) by (simp add: exact_labels_def rd_range_def Let_def D_def)
qed

section \<open>Queries leave the index as it is\<close>

definition kept :: "index \<Rightarrow> index \<Rightarrow> bool" where
  "kept ix ix' \<longleftrightarrow> wf_ix ix' \<and> (\<exists>p. ix' = ix\<lparr>ix_visitedPool := p\<rparr>)"

lemma kept_refl: "wf_ix ix \<Longrightarrow> kept ix ix"
  unfolding kept_def by (intro conjI exI [of _ "ix_visitedPool ix"]) simp_all

lemma kept_trans: "kept a b \<Longrightarrow> kept b c \<Longrightarrow> kept a c"
  by (auto simp: kept_def)

lemma kept_dim: "kept ix ix' \<Longrightarrow> ix_dim ix' = ix_dim ix"
  by (auto simp: kept_def)

lemma search_kept:
  assumes "wf_ix ix" "ix_dim ix \<le> length q"
  obtains res ix' where "search ix q k ef = Some (res, ix')" "kept ix ix'" "answers_ok ix (query_vec ix q) k res"
  using search_spec [OF assms, of k ef] unfolding kept_def by blast

lemma search_nonempty:
  assumes "wf_ix ix" "ix_dim ix \<le> length q" "0 < ix_count ix" "0 < k" "\<forall>i < ix_count ix. \<not> is_del ix i"
    "search ix q k ef = Some (res, ix')"
  shows "res \<noteq> []"
proof -
  let ?q = "query_vec ix q"
  obtain heap p e where s: "search ix q k ef = Some (map (answer ix) (top_k k heap), ix\<lparr>ix_visitedPool := p\<rparr>)"
    "node ix 0 e" "beam_result ix ?q (max ef k) 0 True e heap"
    using search_layers [OF assms(1,2)] assms(3) by blast
  have "e \<in> reachable ix 0 e" "eligible ix True e"
    using s(2) assms(5) by (auto simp: reachable_def eligible_def node_def)
  then have "heap \<noteq> []" using s(3) assms(4) by (auto simp: beam_result_def)
  then have "top_k k heap \<noteq> []" using top_k_props(2) [of k heap] assms(4) by (auto simp flip: length_greater_0_conv)
  then show ?thesis using s(1) assms(6) by simp
qed

lemma kept_views:
  assumes "kept ix ix'"
  shows "wf_ix ix'" "abs_ix ix' = abs_ix ix" "ix_count ix' = ix_count ix" "ix_dim ix' = ix_dim ix" "config ix' = config ix"
    "typed ix \<Longrightarrow> typed ix'"
  using assms typed_cong(1) by (auto simp: kept_def config_pool)

lemma all_live:
  assumes "wf_ix ix" "\<forall>lab v del. abs_ix ix lab = Some (v, del) \<longrightarrow> \<not> del" "i < ix_count ix"
  shows "\<not> is_del ix i"
  using label_abs(2) [OF assms(1,3)] assms(2) by blast

section \<open>The run of the benchmark\<close>

lemma sweep_query_ok:
  assumes ix: "wf_ix ix" "ix_dim ix = d" and q: "length queries = nq * d" "q < nq"
    and h: "\<forall>q < nq. \<forall>res. \<exists>h \<le> length res. hits_of q res = Some h"
  shows "\<exists>hits' ix'. sweep_query hits_of queries d k ef (hits, ix) q = Some (hits', ix') \<and> kept ix ix' \<and> hits' \<le> hits + k"
proof -
  have r: "row queries d q = Some (block d queries q)" "ix_dim ix \<le> length (block d queries q)"
    using row_Some [OF q] ix(2) q by simp_all
  obtain res ix' where s: "search ix (block d queries q) k ef = Some (res, ix')" "kept ix ix'" "length res \<le> k"
    using search_kept [OF ix(1) r(2), of k ef] by (metis answers_ok_def)
  obtain n where "n \<le> length res" "hits_of q res = Some n" using h q(2) by blast
  then show ?thesis using r(1) s by (auto simp: sweep_query_def)
qed

definition rows_ok :: "nat \<Rightarrow> nat list \<Rightarrow> sweep_row list \<Rightarrow> bool" where
  "rows_ok k efs rows \<longleftrightarrow> map sw_ef rows = filter (\<lambda>ef. k \<le> ef) efs \<and> (\<forall>r \<in> set rows. 0 \<le> sw_recall r \<and> sw_recall r \<le> 1)"

lemma sweep_ef_ok:
  assumes ix: "wf_ix ix" "ix_dim ix = d" and q: "length queries = nq * d" "0 < nq" "nq < 2 ^ 53" "0 < k"
    and h: "\<forall>q < nq. \<forall>res. \<exists>h \<le> length res. hits_of q res = Some h" and rows: "rows_ok k efs rows"
  shows "\<exists>rows' t' ix'. sweep_ef hits_of clock good queries d nq k (rows, t, ix) ef = Some (rows', t', ix') \<and> kept ix ix' \<and>
    rows_ok k (efs @ [ef]) rows'"
proof (cases "ef < k")
  case True
  then show ?thesis using rows kept_refl [OF ix(1)] by (auto simp: sweep_ef_def rows_ok_def)
next
  case False
  define P where "P ys st \<longleftrightarrow> kept ix (snd st) \<and> fst st \<le> length ys * k" for ys :: "nat list" and st :: "nat \<times> index"
  have "\<exists>st. foldM (sweep_query hits_of queries d k ef) (0, ix) [0..<nq] = Some st \<and> P [0..<nq] st"
  proof (rule foldM_rule)
    show "P [] (0, ix)" using kept_refl [OF ix(1)] by (simp add: P_def)
  next
    fix ys x zs st assume e: "[0..<nq] = ys @ x # zs" and p: "P ys st"
    have "x < nq" using e by (metis atLeastLessThan_iff in_set_conv_decomp set_upt)
    moreover obtain hits ix1 where st: "st = (hits, ix1)" "kept ix ix1" using p by (cases st) (simp add: P_def)
    ultimately obtain hits' ix' where "sweep_query hits_of queries d k ef st x = Some (hits', ix')" "kept ix1 ix'" "hits' \<le> hits + k"
      using sweep_query_ok [OF _ _ q(1) _ h, of ix1 x k ef hits] kept_views(1,4) [OF st(2)] ix(2) by auto
    then show "\<exists>st'. sweep_query hits_of queries d k ef st x = Some st' \<and> P (ys @ [x]) st'"
      using p st kept_trans [OF st(2)] by (auto simp: P_def)
  qed
  then obtain hits ix' where f: "foldM (sweep_query hits_of queries d k ef) (0, ix) [0..<nq] = Some (hits, ix')" "kept ix ix'" "hits \<le> nq * k"
    by (auto simp: P_def)
  have v: "map (clock ef) [0..<nq] \<noteq> []" "length (map (clock ef) [0..<nq]) < 2 ^ 53" using q(2,3) by simp_all
  have "\<exists>x. percentile (map (clock ef) [0..<nq]) p = Some x" if "p \<le> 100" for p using percentile_mem [OF v that] by blast
  from this [of 50] this [of 95] this [of 99] obtain a b c where p: "percentile (map (clock ef) [0..<nq]) 50 = Some a"
    "percentile (map (clock ef) [0..<nq]) 95 = Some b" "percentile (map (clock ef) [0..<nq]) 99 = Some c" by auto
  have "(of_nat hits :: rat) / of_nat (nq * k) \<le> of_nat 1" using f(3) q(2,4) by (simp add: divide_le_eq flip: of_nat_mult)
  then have "f64_round (of_nat hits / of_nat (nq * k)) \<le> of_nat 1" by (rule f64_round_le) simp
  then show ?thesis using f p False rows f64_round_nonneg by (auto simp: sweep_ef_def rows_ok_def Let_def)
qed

lemma sweep_ok:
  assumes ix: "wf_ix ix" "ix_dim ix = d" and q: "length queries = nq * d" "0 < nq" "nq < 2 ^ 53" "0 < k"
    and h: "\<forall>q < nq. \<forall>res. \<exists>h \<le> length res. hits_of q res = Some h"
  obtains rows t ix' where "foldM (sweep_ef hits_of clock good queries d nq k) ([], False, ix) efs = Some (rows, t, ix')"
    "kept ix ix'" "rows_ok k efs rows"
proof -
  define P where "P ys st \<longleftrightarrow> kept ix (snd (snd st)) \<and> rows_ok k ys (fst st)" for ys and st :: "sweep_row list \<times> bool \<times> index"
  have "\<exists>st. foldM (sweep_ef hits_of clock good queries d nq k) ([], False, ix) efs = Some st \<and> P efs st"
  proof (rule foldM_rule)
    show "P [] ([], False, ix)" using kept_refl [OF ix(1)] by (simp add: P_def rows_ok_def)
  next
    fix ys ef zs st assume p: "P ys st"
    obtain rows t ix1 where st: "st = (rows, t, ix1)" "kept ix ix1" "rows_ok k ys rows" using p by (cases st) (simp add: P_def)
    then obtain rows' t' ix' where "sweep_ef hits_of clock good queries d nq k st ef = Some (rows', t', ix')" "kept ix1 ix'"
      "rows_ok k (ys @ [ef]) rows'"
      using sweep_ef_ok [OF _ _ q h st(3), of ix1 clock good t ef] kept_views(1,4) [OF st(2)] ix(2) by auto
    then show "\<exists>st'. sweep_ef hits_of clock good queries d nq k st ef = Some st' \<and> P (ys @ [ef]) st'"
      using kept_trans [OF st(2)] by (auto simp: P_def)
  qed
  then show ?thesis using that by (auto simp: P_def)
qed

lemma delete_check_ok:
  assumes ix: "wf_ix ix" "typed ix" "ix_dim ix = d" "0 < ix_count ix" "\<forall>lab v del. abs_ix ix lab = Some (v, del) \<longrightarrow> \<not> del"
    and q: "length queries = nq * d" "0 < nq" "0 < k"
  obtains ix' where "delete_check queries d k ix = Some (True, ix_count ix - 1, ix_count ix, ix')" "wf_ix ix'" "typed ix'"
    "config ix' = config ix" "ix_count ix' = ix_count ix"
proof -
  let ?q = "block d queries 0"
  have r: "row queries d 0 = Some ?q" "d \<le> length ?q" using row_Some [OF q(1,2)] q by simp_all
  obtain bf ix1 where 1: "search ix ?q k 100 = Some (bf, ix1)" "kept ix ix1" "answers_ok ix (query_vec ix ?q) k bf"
    using search_kept [OF ix(1), of ?q k 100] r(2) ix(3) by auto
  note k1 = kept_views [OF 1(2)]
  have "bf \<noteq> []" by (rule search_nonempty [OF ix(1) _ ix(4) q(3) _ 1(1)]) (use all_live [OF ix(1,5)] r(2) ix(3) in auto)
  then obtain f fs where bf: "bf = f # fs" by (cases bf) auto
  define lab where "lab = sr_label f"
  obtain v where v: "abs_ix ix lab = Some (v, False)" using 1(3) by (auto simp: bf answers_ok_def lab_def)
  obtain ix2 where 2: "markDeleted ix1 lab = Some (True, ix2)" "wf_ix ix2" "config ix2 = config ix1"
    "abs_ix ix2 = (abs_ix ix)(lab \<mapsto> (v, True))"
    using markDeleted_ok [OF k1(1), of lab] v by (auto simp: spec_mark_def k1(2))
  have t2: "typed ix2" by (rule step_typed [OF k1(1) k1(6) [OF ix(2)], of "Mark lab"]) (simp_all add: step_op_def 2(1))
  have d2: "ix_dim ix2 = d" using 2(3) k1(4) ix(3) by (simp add: config_def)
  obtain af ix3 where 3: "search ix2 ?q k 100 = Some (af, ix3)" "kept ix2 ix3" "answers_ok ix2 (query_vec ix2 ?q) k af"
    using search_kept [OF 2(2), of ?q k 100] r(2) d2 by auto
  note k3 = kept_views [OF 3(2)]
  have gone: "filter (\<lambda>r. sr_label r = lab) af = []"
    using 3(3) 2(4) by (auto simp: answers_ok_def filter_empty_conv split: if_splits)
  obtain ix4 where 4: "unmarkDeleted ix3 lab = Some (True, ix4)" "wf_ix ix4" "config ix4 = config ix3" "abs_ix ix4 = abs_ix ix"
    using unmarkDeleted_ok [OF k3(1), of lab] v by (auto simp: spec_mark_def k3(2) 2(4) map_upd_triv [of "abs_ix ix" lab, OF v])
  have t4: "typed ix4" by (rule step_typed [OF k3(1) k3(6) [OF t2], of "Unmark lab"]) (simp_all add: step_op_def 4(1))
  have dom: "dom (abs_ix ix2) = dom (abs_ix ix)" using v 2(4) by auto
  have n2: "ix_count ix2 = ix_count ix" using card_dom_abs [OF 2(2)] card_dom_abs [OF ix(1)] dom by simp
  have n4: "ix_count ix4 = ix_count ix" using card_dom_abs [OF 4(2)] card_dom_abs [OF ix(1)] 4(4) by simp
  let ?L = "\<lambda>s. {lab. \<exists>v. s lab = Some (v, False)}"
  have "?L (abs_ix ix3) = dom (abs_ix ix) - {lab}" using ix(5) by (fastforce simp: k3(2) 2(4) split: if_splits)
  then have "activeSize ix3 = card (dom (abs_ix ix) - {lab})" using live_card(1) [OF k3(1)] by simp
  also have "\<dots> = ix_count ix - 1" using card_dom_abs [OF ix(1)] v by (simp add: card_Diff_singleton domI)
  finally have "delete_check queries d k ix = Some (True, ix_count ix - 1, ix_count ix, ix4)"
    using r(1) 1(1) bf 2(1) 3(1) 4(1) gone k3(3) n2 by (simp add: delete_check_def Let_def size_ix_def flip: lab_def)
  moreover have "config ix4 = config ix" using 4(3) k3(5) 2(3) k1(5) by simp
  ultimately show ?thesis using that 4(2) t4 n4 by blast
qed

lemma kept_answers:
  assumes "wf_ix ix" "kept ix ix'"
  shows "map_option fst (search ix' q k ef) = map_option fst (search ix q k ef)"
proof -
  obtain p where p: "ix' = ix\<lparr>ix_visitedPool := p\<rparr>" "wf_ix ix'" using assms(2) by (auto simp: kept_def)
  then have "pool_ok p" "vp_n p = ix_maxElements ix" by (auto simp: wf_ix_def shape_def)
  then show ?thesis using search_pool [OF assms(1)] p(1) by simp
qed

lemma compare_query_ok:
  assumes ix: "wf_ix ix" "ix_dim ix = d" and k: "kept ix a" "kept ix b" and q: "length queries = nq * d" "q < nq"
  shows "\<exists>a' b'. compare_query queries d k (0, a, b) q = Some (0, a', b') \<and> kept ix a' \<and> kept ix b'"
proof -
  let ?q = "block d queries q"
  have r: "row queries d q = Some ?q" "d \<le> length ?q" using row_Some [OF q] q by simp_all
  note ka = kept_views [OF k(1)] and kb = kept_views [OF k(2)]
  obtain ra a' where sa: "search a ?q k 100 = Some (ra, a')" "kept a a'"
    by (rule search_kept [OF ka(1), of ?q k 100]) (use r(2) ka(4) ix(2) in simp)
  obtain rb b' where sb: "search b ?q k 100 = Some (rb, b')" "kept b b'"
    by (rule search_kept [OF kb(1), of ?q k 100]) (use r(2) kb(4) ix(2) in simp)
  have "ra = rb" using kept_answers [OF ix(1) k(1), of ?q k 100] kept_answers [OF ix(1) k(2), of ?q k 100] sa(1) sb(1)
    by (metis fst_conv option.inject option.simps(9))
  then show ?thesis using r(1) sa sb kept_trans k by (auto simp: compare_query_def list_all2_refl)
qed

lemma reload_check_ok:
  assumes ix: "wf_ix ix" "typed ix" "ix_dim ix = d" and q: "length queries = nq * d"
    and bs: "snapshot_bytes ix = Some bs" "dev_opens dev" "length bs \<le> dev_room dev"
  shows "reload_check junk path dev queries d nq k ix = Some (Inr (0, ix_count ix))"
proof -
  let ?r = "ix\<lparr>ix_visitedPool := VisitedListPool 1 (ix_maxElements ix)\<rparr>"
  have s: "save ix path dev = Some (Inr (), Some bs)" using bs by (simp add: save_def)
  have "reloaded (ix_avx ix) ix = ?r" by (cases ix) (simp add: reloaded_def)
  then have l: "load (ix_avx ix) junk path (Some bs) = Some (Inr ?r)" using load_roundtrip [OF ix(1,2) bs(1)] by simp
  have w: "wf_ix ?r" by (rule wf_pool [OF ix(1) pool_ok_new]) (simp add: VisitedListPool_def)
  define P where "P ys st \<longleftrightarrow> fst st = 0 \<and> kept ix (fst (snd st)) \<and> kept ix (snd (snd st))" for ys :: "nat list" and st :: "nat \<times> index \<times> index"
  have "\<exists>st. foldM (compare_query queries d k) (0, ix, ?r) [0..<nq] = Some st \<and> P [0..<nq] st"
  proof (rule foldM_rule)
    show "P [] (0, ix, ?r)" using kept_refl [OF ix(1)] w by (auto simp: P_def kept_def)
  next
    fix ys x zs st assume e: "[0..<nq] = ys @ x # zs" and p: "P ys st"
    have "x < nq" using e by (metis atLeastLessThan_iff in_set_conv_decomp set_upt)
    moreover obtain a b where "st = (0, a, b)" "kept ix a" "kept ix b" using p by (cases st) (simp add: P_def)
    ultimately show "\<exists>st'. compare_query queries d k st x = Some st' \<and> P (ys @ [x]) st'"
      using compare_query_ok [OF ix(1,3) _ _ q] by (fastforce simp: P_def)
  qed
  then show ?thesis using s l kept_views(3) by (auto simp: reload_check_def size_ix_def P_def)
qed

lemma foldM_cong: "(\<And>x s. x \<in> set xs \<Longrightarrow> f s x = g s x) \<Longrightarrow> foldM f s xs = foldM g s xs"
  by (induction xs arbitrary: s) (auto split: option.split)

lemma build_bench_ok:
  assumes b: "length base = n * d" "0 < n" "n < 2 ^ 32" "0 < d" "n * d * 4 < 2 ^ 64" "0 < M" "M \<le> 128" "efc < 2 ^ 64"
    and lv: "\<forall>i. 0 \<le> level i \<and> level i \<le> 2 ^ 24"
  obtains ix where "build_bench avx sp level base d n M efc = Some (Inr ix)" "wf_ix ix" "typed ix" "ix_dim ix = d" "ix_count ix = n"
    "config ix = (sp, avx, d, n, M, max efc M)" "\<forall>lab v del. abs_ix ix lab = Some (v, del) \<longrightarrow> \<not> del"
proof -
  have "1 * d \<le> n * d" using b(2) by (intro mult_le_mono1) simp
  then have nd: "n * d < 2 ^ 64" "d < 2 ^ 64" using b(5) by linarith+
  obtain ix0 where i0: "Index avx sp d n M efc = Inr ix0" "wf_ix ix0" "ix_count ix0 = 0" "abs_ix ix0 = Map.empty"
    "ix_dim ix0 = d" "ix_maxElements ix0 = n"
    using Index_Inr [of d n M avx sp efc] b nd by auto
  have t: "typed ix0" by (rule Index_typed [OF i0(1,2)]) (use b nd in simp_all)
  let ?c = "replicate n kBenchClientId"
  have "foldM (add_bench level base d) (Inr ix0) [0..<n] = foldM (add_row level base ?c d) (Inr ix0) [0..<n]"
    using row_Some [OF b(1)] by (intro foldM_cong) (simp add: add_bench_def add_row_def rd_def split: sum.split)
  moreover obtain ix where ix: "foldM (add_row level base ?c d) (Inr ix0) [0..<n] = Some (Inr ix)" "built ix0 base ?c [0..<n] ix" "typed ix"
    using add_rows [of base n ix0 ?c "[0..<n]" level] b i0 lv t by (auto simp: atLeast0LessThan)
  ultimately have "build_bench avx sp level base d n M efc = Some (Inr ix)" by (simp add: build_bench_def i0(1))
  then show ?thesis
    using that ix i0 Index_config [OF i0(1)] by (auto simp: built_def row_store_def config_def split: if_splits)
qed

section \<open>Properties\<close>

text \<open>
  The ground truth of the benchmark is determined: whatever algorithm \<open>std::partial_sort\<close> uses, it is the
  labels of the first \<open>k\<close> rows in the order of distance and row number, for both metrics.
\<close>

lemma bench_truth:
  assumes "pair_sorter psrt" "length base = n * d" "d \<le> length q" "k \<le> n"
    and "\<forall>i < n. \<not> f32_is_nan (row_dist avx sp d (norm_query avx sp d (take d q)) (block d base i))"
  shows "exact_labels psrt avx base n d q k sp = Some (map (\<lambda>i. Label kBenchClientId (of_nat i))
    (take k (sort_key (\<lambda>i. (f32_key (row_dist avx sp d (norm_query avx sp d (take d q)) (block d base i)), i)) [0..<n])))"
  by (rule exact_labels_rows [OF assms])

lemma bench_truth_witness:
  "exact_labels (\<lambda>_. std_sort pair_less) False [1, 0, 0] 3 1 [0] 2 L2 = Some [Label 1 1, Label 1 2]"
proof -
  let ?f = "\<lambda>i. row_dist False L2 1 (norm_query False L2 1 (take 1 [0])) (block 1 [1, 0, 0] i)"
  have d: "?f 0 = 1" "?f 1 = 0" "?f 2 = 0" by code_simp+
  then have "\<forall>i < 3. \<not> f32_is_nan (?f i)" using ex_not_nan by (auto simp: less_Suc_eq numeral_3_eq_3 numeral_2_eq_2)
  from bench_truth [OF pins.pair_sorter_axioms _ _ _ this, of 2]
  have "exact_labels (\<lambda>_. std_sort pair_less) False [1, 0, 0] 3 1 [0] 2 L2 =
    Some (map (\<lambda>i. Label kBenchClientId (of_nat i)) (take 2 (sort_key (\<lambda>i. (f32_key (?f i), i)) [0..<3])))" by simp
  moreover have k: "f32_key 0 = 0" "f32_key 1 = 1065353216" "[0..<3] = [0, 1, 2]" by code_simp+
  have "take 2 (sort_key (\<lambda>i. (g i, i)) [0, 1, 2]) = [1, 2]" if "g 0 = 1065353216" "g 1 = 0" "g 2 = 0" for g :: "nat \<Rightarrow> int"
    using that by (simp add: less_eq_prod_def numeral_2_eq_2)
  from this [of "\<lambda>i. f32_key (?f i)"] have "take 2 (sort_key (\<lambda>i. (f32_key (?f i), i)) [0..<3]) = [1, 2]"
    unfolding k(3) d k(1,2) by (rule meta_mp) simp_all
  ultimately show ?thesis by (simp add: kBenchClientId_def)
qed

text \<open>
  C30: The benchmark runs to its end on any data, for any drawn levels, clock and sorting algorithm: one row per
  beam width with a recall between 0 and 1, the deleted vector is gone from the results and counted, and
  after saving and loading no query is answered differently.
\<close>

theorem benchmark_passes:
  assumes "length base = N * d" "length queries = 200 * d" "10 \<le> N" "N < 2 ^ 32" "0 < d" "N * d * 4 < 2 ^ 64"
    and "\<forall>i. 0 \<le> level i \<and> level i \<le> 2 ^ 24"
  shows "\<exists>size res. be_gone res \<and> be_active res = N - 1 \<and> be_size res = N \<and> be_mismatches res = 0 \<and> be_restored res = N \<and>
    map sw_ef (be_rows res) = efSearch \<and> (\<forall>r \<in> set (be_rows res). 0 \<le> sw_recall r \<and> sw_recall r \<le> 1) \<and>
    (\<forall>dev. dev_opens dev \<and> size \<le> dev_room dev \<longrightarrow>
       bench_main psrt avx level clock junk path dev base queries N d = Some (Inr res))"
proof -
  obtain ix where ix: "build_bench avx Cosine level base d N 16 200 = Some (Inr ix)" "wf_ix ix" "typed ix" "ix_dim ix = d" "ix_count ix = N"
    "\<forall>lab v del. abs_ix ix lab = Some (v, del) \<longrightarrow> \<not> del"
    using build_bench_ok [of base N d 16 200 level avx Cosine] assms by auto
  let ?t = "\<lambda>q. case row queries d q of None \<Rightarrow> None | Some qv \<Rightarrow> exact_labels psrt avx base N d qv 10 Cosine"
  have row: "row queries d q = Some (block d queries q)" "length (block d queries q) = d" if "q < 200" for q
    using row_Some [OF assms(2) that] length_block [OF that assms(2)] by simp_all
  have "\<exists>y. ?t q = Some y" if "q \<in> set [0..<200]" for q
  proof -
    have "those (map (\<lambda>i. map_option (\<lambda>p. (row_dist avx Cosine d qn p, i)) (row base d i)) [0..<N]) =
        Some (map (\<lambda>i. (row_dist avx Cosine d qn (block d base i), i)) [0..<N])" for qn
      by (rule those_map_Some) (simp add: row_Some [OF assms(1)])
    then show ?thesis using row [of q] that assms(3) by (simp add: exact_labels_def rd_range_def Let_def)
  qed
  then obtain truth where t: "those (map ?t [0..<200]) = Some truth" "length truth = 200"
    using those_all_Some [of "[0..<200]" ?t] by auto
  have h: "\<forall>q < 200. \<forall>res. \<exists>h \<le> length res. label_hits truth q res = Some h"
    using t(2) by (simp add: label_hits_def rd_def)
  obtain rows tgt ix1 where s: "foldM (sweep_ef (label_hits truth) clock recall_reached queries d 200 10) ([], False, ix) efSearch =
      Some (rows, tgt, ix1)" "kept ix ix1" "rows_ok 10 efSearch rows"
    by (rule sweep_ok [OF ix(2,4) assms(2) _ _ _ h, of 10]) (simp, simp, simp)
  note k1 = kept_views [OF s(2)]
  obtain ix2 where c: "delete_check queries d 10 ix1 = Some (True, N - 1, N, ix2)" "wf_ix ix2" "typed ix2" "config ix2 = config ix1" "ix_count ix2 = N"
    using delete_check_ok [OF k1(1) k1(6) [OF ix(3)], of d queries 200 10] k1 ix assms(2,3) by auto
  have "ix_dim ix2 = d" using c(4) k1(4) ix(4) by (simp add: config_def)
  obtain bs where bs: "snapshot_bytes ix2 = Some bs" using snapshot_bytes_wf [OF c(2)] by blast
  note rl = reload_check_ok [OF c(2,3) \<open>ix_dim ix2 = d\<close> assms(2) bs]
  define res where "res = \<lparr>be_rows = rows, be_target = tgt, be_gone = True, be_active = N - 1, be_size = N, be_mismatches = 0, be_restored = N\<rparr>"
  have "bench_main psrt avx level clock junk path dev base queries N d = Some (Inr res)" if "dev_opens dev" "length bs \<le> dev_room dev" for dev
    unfolding bench_main_def Let_def using ix(1) t(1) s(1) c(1) rl [OF that] c(5) by (simp add: res_def del: upt_rec_numeral)
  moreover have "rows_ok 10 efSearch rows \<longleftrightarrow> map sw_ef rows = efSearch \<and> (\<forall>r \<in> set rows. 0 \<le> sw_recall r \<and> sw_recall r \<le> 1)"
    by (simp add: rows_ok_def efSearch_def)
  ultimately show ?thesis using s(3) by (intro exI [of _ "length bs"] exI [of _ res]) (simp add: res_def)
qed

theorem benchmark_passes_witness:
  "\<exists>size res. be_gone res \<and> be_mismatches res = 0 \<and>
     bench_main (\<lambda>_. std_sort pair_less) False (\<lambda>_. 0) (\<lambda>_ _. 1) id ''f'' \<lparr>dev_opens = True, dev_room = size, dev_buffered = 0\<rparr>
       (replicate 10 1) (replicate 200 1) 10 1 = Some (Inr res)"
proof -
  from benchmark_passes [of "replicate 10 1" 10 1 "replicate 200 1" "\<lambda>_. 0" "\<lambda>_. std_sort pair_less" False "\<lambda>_ _. 1" id "''f''"]
  obtain size res where r: "be_gone res" "be_mismatches res = 0"
    "\<forall>dev. dev_opens dev \<and> size \<le> dev_room dev \<longrightarrow>
       bench_main (\<lambda>_. std_sort pair_less) False (\<lambda>_. 0) (\<lambda>_ _. 1) id ''f'' dev (replicate 10 1) (replicate 200 1) 10 1 = Some (Inr res)"
    by (auto simp del: replicate.simps)
  then have "bench_main (\<lambda>_. std_sort pair_less) False (\<lambda>_. 0) (\<lambda>_ _. 1) id ''f'' \<lparr>dev_opens = True, dev_room = size, dev_buffered = 0\<rparr>
      (replicate 10 1) (replicate 200 1) 10 1 = Some (Inr res)" by simp
  then show ?thesis using r(1,2) by blast
qed

end
