(* ===== verification/Vec_Files.thy ===== *)
theory Vec_Files
  imports Complex_Main Hnsw_Snapshot
begin

text \<open>
  Vector files: \<open>writeFvecs\<close> and \<open>writeIvecs\<close> of \<open>make_test_fvecs.cpp\<close>,
  \<open>readVecs\<close> and \<open>percentile\<close> of \<open>src/sift_bench.cpp\<close>. A file is a sequence of records, each a
  32-bit dimension followed by that many 4-byte elements. The result is that the reader accepts exactly the
  files the writer produces, and returns what was written. 
\<close>

section \<open>Writing\<close>

definition record_bytes :: "('a \<Rightarrow> byte list) \<Rightarrow> nat \<Rightarrow> 'a list \<Rightarrow> byte list" where
  "record_bytes enc d r = enc_i32 (to_i32 (d mod 2 ^ 32)) @ concat (map enc r)"

definition write_record :: "('a \<Rightarrow> byte list) \<Rightarrow> 'a list \<Rightarrow> nat \<Rightarrow> byte list \<Rightarrow> nat \<Rightarrow> byte list option" where
  "write_record enc data d bs i = map_option (\<lambda>r. bs @ record_bytes enc d r) (rd_range data (i * d) d)"

definition writeFvecs :: "f32 list \<Rightarrow> nat \<Rightarrow> nat \<Rightarrow> byte list option" where
  "writeFvecs data n d = foldM (write_record enc_f32 data d) [] [0..<n]"

definition writeIvecs :: "int list \<Rightarrow> nat \<Rightarrow> nat \<Rightarrow> byte list option" where
  "writeIvecs data n d = foldM (write_record enc_i32 data d) [] [0..<n]"

section \<open>Reading\<close>

record 'a vec_file =
  vf_data :: "'a list"
  vf_n :: nat
  vf_d :: nat

fun read_records :: "(byte list \<Rightarrow> 'a) \<Rightarrow> string \<Rightarrow> nat \<Rightarrow> nat \<Rightarrow> nat \<Rightarrow> byte list \<Rightarrow> exn + 'a list" where
  "read_records dec path d 0 i bs = Inr []"
| "read_records dec path d (Suc n) i bs =
     (if dec_i32 (take 4 bs) \<noteq> int d
      then Inl (Runtime_error (path @ '': inconsistent dimension at record '' @ to_string i))
      else map_sum id ((@) (decode_n 4 dec d (drop 4 bs))) (read_records dec path d n (Suc i) (drop (4 + d * 4) bs)))"

definition readVecs :: "(byte list \<Rightarrow> 'a) \<Rightarrow> string \<Rightarrow> nat \<Rightarrow> byte list option \<Rightarrow> exn + 'a vec_file" where
  "readVecs dec path limit content =
     (case content of None \<Rightarrow> Inl (Runtime_error (''cannot open '' @ path))
      | Some bs \<Rightarrow>
          if length bs < 4 \<or> dec_i32 (take 4 bs) \<le> 0
          then Inl (Runtime_error (path @ '': failed to read dimension header''))
          else let d = nat (dec_i32 (take 4 bs)); recordSize = 4 + d * 4
            in if length bs mod recordSize \<noteq> 0
               then Inl (Runtime_error (path @ '': file size not a multiple of record size -- '' @
                      ''wrong dtype (fvecs vs ivecs) or corrupt file?''))
               else let total = length bs div recordSize; n = (if limit = 0 then total else min limit total)
                 in map_sum id (\<lambda>data. \<lparr>vf_data = data, vf_n = n, vf_d = d\<rparr>) (read_records dec path d n 0 bs))"

section \<open>The format\<close>

lemma concat_blocks: "m * d \<le> length xs \<Longrightarrow> concat (map (block d xs) [0..<m]) = take (m * d) xs"
proof (induction m)
  case (Suc m)
  have "concat (map (block d xs) [0..<Suc m]) = take (m * d) xs @ block d xs m" using Suc by simp
  also have "\<dots> = take (m * d + d) xs" by (simp add: block_def take_add)
  finally show ?case by (simp add: add.commute)
qed simp

lemma write_records:
  assumes "n * d \<le> length data"
  shows "foldM (write_record enc data d) [] [0..<n] = Some (concat (map (\<lambda>i. record_bytes enc d (block d data i)) [0..<n]))"
proof -
  define s where "s k = concat (map (\<lambda>i. record_bytes enc d (block d data i)) [0..<k])" for k
  have "foldM (write_record enc data d) (s 0) [0..<n] = Some (s n)"
  proof (rule foldM_upt)
    fix k assume "k < n"
    then have "k * d + d \<le> length data" using block_bound [of k n d] assms by linarith
    then show "write_record enc data d (s k) k = Some (s (Suc k))"
      by (simp add: write_record_def s_def rd_range_def block_def)
  qed
  then show ?thesis by (simp add: s_def)
qed

lemma un_le_less: "un_le bs < 256 ^ length bs"
proof (induction bs)
  case (Cons b bs)
  have "unat b < 256" using unsigned_less [of b] by simp
  then show ?case using Cons by simp
qed simp

text \<open>An encoding of elements of four bytes that is a bijection.\<close>

locale cell = codec 4 enc dec ok for enc :: "'a \<Rightarrow> byte list" and dec :: "byte list \<Rightarrow> 'a" and ok :: "'a \<Rightarrow> bool" +
  assumes enc_dec: "length bs = 4 \<Longrightarrow> enc (dec bs) = bs \<and> ok (dec bs)"
begin

lemma decode_encode: "length bs = n * 4 \<Longrightarrow> concat (map enc (decode_n 4 dec n bs)) = bs \<and> (\<forall>x \<in> set (decode_n 4 dec n bs). ok x)"
proof (induction n arbitrary: bs)
  case (Suc n)
  have "length (drop 4 bs) = n * 4" "length (take 4 bs) = 4" using Suc.prems by simp_all
  then show ?case using Suc.IH [of "drop 4 bs"] enc_dec [of "take 4 bs"] by (simp del: length_take length_drop)
qed simp

end

interpretation cell_f32: cell enc_f32 dec_f32 "\<lambda>_. True"
proof
  fix bs :: "byte list" assume l: "length bs = 4"
  have "un_le bs < 2 ^ 32" using un_le_less [of bs] l by simp
  then have "unat (of_nat (un_le bs) :: 32 word) = un_le bs" by (simp add: unat_of_nat)
  then show "enc_f32 (dec_f32 bs) = bs \<and> True" using le_un_le [OF l] by (simp add: enc_f32_def dec_f32_def)
qed

interpretation cell_i32: cell enc_i32 dec_i32 in_i32
proof
  fix bs :: "byte list" assume l: "length bs = 4"
  have u: "un_le bs < 2 ^ 32" using un_le_less [of bs] l by simp
  have "nat (to_i32 (un_le bs) mod 2 ^ 32) = un_le bs"
  proof (cases "un_le bs < 2 ^ 31")
    case False
    have "(int (un_le bs) - 2 ^ 32) mod 2 ^ 32 = int (un_le bs) mod 2 ^ 32" by simp
    also have "\<dots> = int (un_le bs)" using u by simp
    finally show ?thesis using False by (simp add: to_i32_def)
  qed (simp add: to_i32_def)
  then show "enc_i32 (dec_i32 bs) = bs \<and> in_i32 (dec_i32 bs)"
    using le_un_le [OF l] u by (auto simp: enc_i32_def dec_i32_def in_i32_def to_i32_def)
qed

lemma length_decode_n [simp]: "length (decode_n w dec n bs) = n"
  by (induction n arbitrary: bs) auto

lemma header_dec:
  assumes "d < 2 ^ 31"
  shows "dec_i32 (take 4 (record_bytes enc d r @ rest)) = int d"
  using assms c_i32.dec_enc [of "int d"] by (simp add: record_bytes_def to_i32_def enc_i32_def in_i32_def)

context cell
begin

lemma length_record: "length (record_bytes enc d r) = 4 + length r * 4"
  using length_concat_enc [of r] by (simp add: record_bytes_def enc_i32_def)

lemma read_written:
  assumes "d < 2 ^ 31" "\<forall>r \<in> set rows. length r = d \<and> (\<forall>x \<in> set r. ok x)"
  shows "read_records dec path d (length rows) i (concat (map (record_bytes enc d) rows) @ rest) = Inr (concat rows)"
  using assms(2)
proof (induction rows arbitrary: i)
  case (Cons r rows)
  let ?rest = "concat (map (record_bytes enc d) rows) @ rest"
  let ?bs = "record_bytes enc d r @ ?rest"
  have r: "length r = d" "\<forall>x \<in> set r. ok x" using Cons.prems by auto
  have "drop 4 ?bs = concat (map enc r) @ ?rest" by (simp add: record_bytes_def enc_i32_def)
  then have e: "decode_n 4 dec d (drop 4 ?bs) = r" using decode_concat [OF r(2), of ?rest] r(1) by simp
  have t: "drop (4 + d * 4) ?bs = ?rest" using length_record [of d r] r(1) by simp
  have "read_records dec path d (Suc (length rows)) i ?bs = map_sum id ((@) r) (read_records dec path d (length rows) (Suc i) ?rest)"
    by (simp only: read_records.simps header_dec [OF assms(1)] e t) simp
  then show ?case using Cons.IH [of "Suc i"] Cons.prems by simp
qed simp

lemma read_accepts:
  assumes "read_records dec path d n i bs = Inr data" "length bs = n * (4 + d * 4)" "d < 2 ^ 31"
  shows "\<exists>rows. length rows = n \<and> (\<forall>r \<in> set rows. length r = d \<and> (\<forall>x \<in> set r. ok x)) \<and> data = concat rows \<and>
    bs = concat (map (record_bytes enc d) rows)"
  using assms(1,2)
proof (induction n arbitrary: i bs data)
  case (Suc n)
  let ?r = "decode_n 4 dec d (drop 4 bs)"
  have h: "dec_i32 (take 4 bs) = int d" using Suc.prems(1) by (auto split: if_splits)
  then obtain data' where d': "read_records dec path d n (Suc i) (drop (4 + d * 4) bs) = Inr data'" "data = ?r @ data'"
    using Suc.prems(1) by (cases "read_records dec path d n (Suc i) (drop (4 + d * 4) bs)") auto
  obtain rows where rows: "length rows = n" "\<forall>r \<in> set rows. length r = d \<and> (\<forall>x \<in> set r. ok x)" "data' = concat rows"
    "drop (4 + d * 4) bs = concat (map (record_bytes enc d) rows)"
    using Suc.IH [OF d'(1)] Suc.prems(2) by auto
  have l: "4 + d * 4 \<le> length bs" using Suc.prems(2) by simp
  have e: "concat (map enc (decode_n 4 dec d (take (d * 4) (drop 4 bs)))) = take (d * 4) (drop 4 bs) \<and>
      (\<forall>x \<in> set (decode_n 4 dec d (take (d * 4) (drop 4 bs))). ok x)" by (rule decode_encode) (use l in simp)
  have t: "decode_n 4 dec d (take (d * 4) xs) = decode_n 4 dec d xs" for xs
    by (induction d arbitrary: xs) (simp_all add: drop_take min_def)
  have "enc_i32 (int d) = take 4 bs" using cell_i32.enc_dec [of "take 4 bs"] h l by simp
  then have "record_bytes enc d ?r = take 4 bs @ take (d * 4) (drop 4 bs)"
    using e assms(3) by (simp add: t record_bytes_def to_i32_def)
  then have "record_bytes enc d ?r @ drop (4 + d * 4) bs = bs" by (simp add: take_add [symmetric])
  then show ?case using rows d'(2) e by (intro exI [of _ "?r # rows"]) (simp add: t)
qed simp

definition written :: "'a list \<Rightarrow> nat \<Rightarrow> nat \<Rightarrow> byte list \<Rightarrow> bool" where
  "written data n d bs \<longleftrightarrow> 0 < n \<and> 0 < d \<and> d < 2 ^ 31 \<and> length data = n * d \<and> (\<forall>x \<in> set data. ok x) \<and>
     foldM (write_record enc data d) [] [0..<n] = Some bs"

lemma write_rows:
  assumes "\<forall>r \<in> set rows. length r = d"
  shows "foldM (write_record enc (concat rows) d) [] [0..<length rows] = Some (concat (map (record_bytes enc d) rows))"
proof -
  have l: "length (concat rows) = length rows * d" using assms by (induction rows) auto
  have b: "block d (concat rows) i = rows ! i" if "i < length rows" for i
    using that assms
  proof (induction rows arbitrary: i)
    case (Cons r rows)
    then show ?case by (cases i) (auto simp: block_def)
  qed simp
  have "map (\<lambda>i. record_bytes enc d (block d (concat rows) i)) [0..<length rows] = map (record_bytes enc d) (map ((!) rows) [0..<length rows])"
    using b by simp
  then show ?thesis using write_records [of "length rows" d "concat rows" enc] l by (simp only: map_nth)
qed

lemma blocks_ok:
  assumes "length data = n * d" "\<forall>x \<in> set data. ok x" "r \<in> set (map (block d data) [0..<n])"
  shows "length r = d \<and> (\<forall>x \<in> set r. ok x)"
proof -
  obtain i where i: "i < n" "r = block d data i" using assms(3) by auto
  then have "set r \<subseteq> set data" by (auto simp: block_def dest: in_set_takeD in_set_dropD)
  then show ?thesis using i assms(1,2) by auto
qed

lemma length_rows: "\<forall>r \<in> set rows. length r = d \<Longrightarrow> length (concat (map (record_bytes enc d) rows)) = length rows * (4 + d * 4)"
  by (induction rows) (simp_all add: length_record)

lemma written_length:
  assumes "written data n d bs" shows "length bs = n * (4 + d * 4)"
proof -
  have w: "length data = n * d" "\<forall>x \<in> set data. ok x" using assms by (auto simp: written_def)
  have "bs = concat (map (record_bytes enc d) (map (block d data) [0..<n]))"
    using assms write_records [of n d data enc] w(1) by (simp add: written_def comp_def)
  then show ?thesis using length_rows [of "map (block d data) [0..<n]" d] blocks_ok [OF w] by auto
qed

lemma read_back:
  assumes "written data n d bs"
  shows "readVecs dec path limit (Some bs) =
    (let m = (if limit = 0 then n else min limit n) in Inr \<lparr>vf_data = take (m * d) data, vf_n = m, vf_d = d\<rparr>)"
proof -
  define rows where "rows = map (block d data) [0..<n]"
  define m where "m = (if limit = 0 then n else min limit n)"
  have w: "0 < n" "0 < d" "d < 2 ^ 31" "length data = n * d" "\<forall>x \<in> set data. ok x" using assms by (auto simp: written_def)
  have ok: "\<forall>r \<in> set rows. length r = d \<and> (\<forall>x \<in> set r. ok x)" using blocks_ok [OF w(4,5)] by (simp add: rows_def)
  have bs: "bs = concat (map (record_bytes enc d) rows)"
    using assms write_records [of n d data enc] w(4) by (simp add: written_def rows_def comp_def)
  note len = written_length [OF assms]
  obtain r rs where rs: "rows = r # rs" using w(1) by (cases rows) (auto simp: rows_def)
  have h: "dec_i32 (take 4 bs) = int d" using header_dec [OF w(3), of enc r] by (simp add: bs rs)
  have ge: "4 \<le> length bs" using w(1) by (cases n) (simp_all add: len)
  have m: "m \<le> n" "take m rows = map (block d data) [0..<m]" by (simp_all add: m_def rows_def take_map)
  have "read_records dec path d (length (take m rows)) 0 (concat (map (record_bytes enc d) (take m rows)) @ concat (map (record_bytes enc d) (drop m rows)))
      = Inr (concat (take m rows))"
    by (rule read_written [OF w(3)]) (use ok in \<open>auto dest: in_set_takeD\<close>)
  moreover have "concat (map (record_bytes enc d) (take m rows)) @ concat (map (record_bytes enc d) (drop m rows)) = bs"
    by (simp add: bs flip: concat_append map_append)
  moreover have "length (take m rows) = m" using m(1) by (simp add: rows_def)
  moreover have "concat (take m rows) = take (m * d) data"
    unfolding m(2) by (rule concat_blocks) (use m(1) w(4) in simp)
  ultimately have "read_records dec path d m 0 bs = Inr (take (m * d) data)" by simp
  then show ?thesis using ge h w(2) by (simp add: readVecs_def len m_def Let_def)
qed

lemma read_only_written:
  assumes "readVecs dec path 0 (Some bs) = Inr vf"
  shows "written (vf_data vf) (vf_n vf) (vf_d vf) bs"
proof -
  define d where "d = nat (dec_i32 (take 4 bs))"
  define n where "n = length bs div (4 + d * 4)"
  have h: "4 \<le> length bs" "0 < dec_i32 (take 4 bs)" "length bs mod (4 + d * 4) = 0"
    using assms by (auto simp: readVecs_def d_def Let_def split: if_splits)
  have rd: "read_records dec path d n 0 bs = Inr (vf_data vf)" "vf_n vf = n" "vf_d vf = d"
    using assms h by (cases "read_records dec path d n 0 bs"; auto simp: readVecs_def d_def n_def Let_def)+
  have "in_i32 (dec_i32 (take 4 bs))" using cell_i32.enc_dec [of "take 4 bs"] h(1) by simp
  then have d: "0 < d" "d < 2 ^ 31" using h(2) by (auto simp: d_def in_i32_def)
  have len: "length bs = n * (4 + d * 4)" using h(3) by (metis n_def dvd_div_mult_self mod_eq_0_iff_dvd)
  obtain rows where rows: "length rows = n" "\<forall>r \<in> set rows. length r = d \<and> (\<forall>x \<in> set r. ok x)"
    "vf_data vf = concat rows" "bs = concat (map (record_bytes enc d) rows)"
    using read_accepts [OF rd(1) len d(2)] by auto
  have "length (concat rows) = n * d" using rows(1,2) by (induction rows arbitrary: n) auto
  moreover have "0 < n" using len h(1) by (cases n) auto
  ultimately show ?thesis using rows d write_rows [of rows d] by (auto simp: written_def rd)
qed

lemma read_iff: "readVecs dec path 0 (Some bs) = Inr vf \<longleftrightarrow> written (vf_data vf) (vf_n vf) (vf_d vf) bs"
proof
  assume w: "written (vf_data vf) (vf_n vf) (vf_d vf) bs"
  then have "length (vf_data vf) = vf_n vf * vf_d vf" by (simp add: written_def)
  then show "readVecs dec path 0 (Some bs) = Inr vf" using read_back [OF w, of path 0] by simp
qed (rule read_only_written)

end

lemma decode_reinterpret: "n * 4 \<le> length bs \<Longrightarrow> decode_n 4 dec_f32 n bs = map (dec_f32 \<circ> enc_i32) (decode_n 4 dec_i32 n bs)"
proof (induction n arbitrary: bs)
  case (Suc n)
  then show ?case using cell_i32.enc_dec [of "take 4 bs"] by simp
qed simp

lemma records_reinterpret:
  "n * (4 + d * 4) \<le> length bs \<Longrightarrow>
   read_records dec_f32 path d n i bs = map_sum id (map (dec_f32 \<circ> enc_i32)) (read_records dec_i32 path d n i bs)"
proof (induction n arbitrary: i bs)
  case (Suc n)
  have "decode_n 4 dec_f32 d (drop 4 bs) = map (dec_f32 \<circ> enc_i32) (decode_n 4 dec_i32 d (drop 4 bs))"
    by (rule decode_reinterpret) (use Suc.prems in simp)
  moreover have "n * (4 + d * 4) \<le> length (drop (4 + d * 4) bs)" using Suc.prems by simp
  ultimately show ?case using Suc.IH [of "drop (4 + d * 4) bs" "Suc i"] by (simp add: sum.map_comp comp_def)
qed simp

section \<open>Properties\<close>

text \<open>
  The format of the vector files, for \<open>float\<close> and for \<open>int32_t\<close> elements. \<open>readVecs\<close> without a
  limit accepts exactly the files \<open>writeFvecs\<close> (\<open>writeIvecs\<close>) produces for at least one record of a
  positive dimension, and returns what was written; with a limit it returns the first records.
\<close>
lemma vecs_format:
  "(readVecs dec_f32 path 0 (Some bs) = Inr vf \<longleftrightarrow> 0 < vf_n vf \<and> 0 < vf_d vf \<and> vf_d vf < 2 ^ 31 \<and>
      length (vf_data vf) = vf_n vf * vf_d vf \<and> writeFvecs (vf_data vf) (vf_n vf) (vf_d vf) = Some bs) \<and>
   (readVecs dec_i32 path 0 (Some bs) = Inr vi \<longleftrightarrow> 0 < vf_n vi \<and> 0 < vf_d vi \<and> vf_d vi < 2 ^ 31 \<and>
      length (vf_data vi) = vf_n vi * vf_d vi \<and> filter in_i32 (vf_data vi) = vf_data vi \<and>
      writeIvecs (vf_data vi) (vf_n vi) (vf_d vi) = Some bs)"
  unfolding cell_f32.read_iff cell_i32.read_iff cell_f32.written_def cell_i32.written_def writeFvecs_def writeIvecs_def filter_id_conv
  by simp

text \<open>
  Reading a prefix. Of a file \<open>writeFvecs\<close> produced, \<open>readVecs\<close> with a limit returns the first
  records, as many as the limit allows, and all of them for the limit 0.
\<close>
lemma readVecs_limit:
  assumes "0 < n" "0 < d" "d < 2 ^ 31" "length data = n * d" "writeFvecs data n d = Some bs"
  shows "readVecs dec_f32 path limit (Some bs) =
    (let m = (if limit = 0 then n else min limit n) in Inr \<lparr>vf_data = take (m * d) data, vf_n = m, vf_d = d\<rparr>)"
  using assms by (intro cell_f32.read_back) (simp add: cell_f32.written_def writeFvecs_def)

lemma readVecs_limit_witness:
  "readVecs dec_f32 ''x'' 2 (writeFvecs [0, 1, 0, 1, 0, 1] 3 2) = Inr \<lparr>vf_data = [0, 1, 0, 1], vf_n = 2, vf_d = 2\<rparr>"
proof -
  obtain bs where bs: "writeFvecs [0, 1, 0, 1, 0, 1] 3 2 = Some bs"
    using write_records [of 3 2 "[0, 1, 0, 1, 0, 1]" enc_f32] by (simp add: writeFvecs_def)
  then show ?thesis
    using readVecs_limit [of 3 2 "[0, 1, 0, 1, 0, 1]" bs "''x''" 2] by (simp add: Let_def)
qed

text \<open>
  The element type plays no part in what \<open>readVecs\<close> accepts: a file read as \<open>float\<close> gives the
  same error, or the same shape with the bits of each \<open>int32_t\<close> taken for a \<open>float\<close>. So a file of
  the other type is not rejected, although the error text suggests it.
\<close>
lemma readVecs_dtype:
  "readVecs dec_f32 path limit content =
     map_sum id (\<lambda>v. \<lparr>vf_data = map (dec_f32 \<circ> enc_i32) (vf_data v), vf_n = vf_n v, vf_d = vf_d v\<rparr>) (readVecs dec_i32 path limit content)"
proof (cases content)
  case (Some bs)
  define d where "d = nat (dec_i32 (take 4 bs))"
  define n where "n = (if limit = 0 then length bs div (4 + d * 4) else min limit (length bs div (4 + d * 4)))"
  have "n \<le> length bs div (4 + d * 4)" by (simp add: n_def)
  then have "n * (4 + d * 4) \<le> length bs" by (meson div_times_less_eq_dividend le_trans mult_le_mono1)
  then have "read_records dec_f32 path d n 0 bs = map_sum id (map (dec_f32 \<circ> enc_i32)) (read_records dec_i32 path d n 0 bs)"
    by (rule records_reinterpret)
  then show ?thesis using Some
    by (simp add: readVecs_def Let_def sum.map_comp comp_def flip: d_def n_def)
qed (simp add: readVecs_def)

end
