(* ===== verification/Sift_Bench.thy ===== *)
theory Sift_Bench
  imports Benchmark Vec_Files Hnsw_Level
begin

text \<open>
  The benchmark on vector files, \<open>src/sift_bench.cpp\<close>, and the program that writes files for it,
  \<open>make_test_fvecs.cpp\<close>. File contents are byte lists (\<open>None\<close>: the file cannot be opened); the
  constants of the writer are arguments. The sweep is the one of \<open>Benchmark\<close>, which the two programs share.

  The results: for levels that \<open>randomLevel\<close> draws and vectors without NaN distances the benchmark handles every
  file content without leaving an array; it runs to its end exactly if the files fit together, and the files of the writer do.
\<close>

section \<open>The writer\<close>

definition test_dist :: "f32 list \<Rightarrow> f32 list \<Rightarrow> nat \<Rightarrow> f32" where
  "test_dist qv bv d = foldl (\<lambda>acc j. let diff = qv ! j - bv ! j in acc + diff * diff) 0 [0..<d]"

definition gt_row :: "(nat \<Rightarrow> (f32 \<times> nat) list \<Rightarrow> (f32 \<times> nat) list) \<Rightarrow> f32 list \<Rightarrow> nat \<Rightarrow> nat \<Rightarrow> nat \<Rightarrow> f32 list \<Rightarrow> int list option" where
  "gt_row psrt base n d k qv =
     (case those (map (\<lambda>i. map_option (\<lambda>bv. (test_dist qv bv d, i)) (row base d i)) [0..<n]) of None \<Rightarrow> None
      | Some scored \<Rightarrow>
          if length scored < k then None else Some (map (\<lambda>x. to_i32 (snd x mod 2 ^ 32)) (take k (psrt k scored))))"

definition make_test :: "(nat \<Rightarrow> (f32 \<times> nat) list \<Rightarrow> (f32 \<times> nat) list) \<Rightarrow> f32 list \<Rightarrow> f32 list \<Rightarrow> nat \<Rightarrow> nat \<Rightarrow> nat \<Rightarrow> nat \<Rightarrow>
    (byte list \<times> byte list \<times> byte list) option" where
  "make_test psrt base queries N d nq k =
     (case those (map (\<lambda>q. case row queries d q of None \<Rightarrow> None | Some qv \<Rightarrow> gt_row psrt base N d k qv) [0..<nq]) of None \<Rightarrow> None
      | Some gt \<Rightarrow>
          (case (writeFvecs base N d, writeFvecs queries nq d, writeIvecs (concat gt) nq k) of
             (Some fb, Some fq, Some fg) \<Rightarrow> Some (fb, fq, fg)
           | _ \<Rightarrow> None))"

section \<open>The benchmark\<close>

definition gt_hits :: "int list \<Rightarrow> nat \<Rightarrow> nat \<Rightarrow> nat \<Rightarrow> search_result list \<Rightarrow> nat option" where
  "gt_hits gt gtd k q res =
     map_option (\<lambda>truth. length (filter (\<lambda>r. to_i32 (unat (label_no (sr_label r)) mod 2 ^ 32) \<in> set truth) res)) (rd_range gt (q * gtd) k)"

definition sift_good :: "sweep_row \<Rightarrow> bool" where
  "sift_good r \<longleftrightarrow> f64_round (95 / 100) \<le> sw_recall r \<and> sw_p99 r < 50"

definition sift_main :: "bool \<Rightarrow> (nat \<Rightarrow> int) \<Rightarrow> (nat \<Rightarrow> nat \<Rightarrow> rat) \<Rightarrow> string \<Rightarrow> byte list option \<Rightarrow> string \<Rightarrow> byte list option \<Rightarrow>
    string \<Rightarrow> byte list option \<Rightarrow> nat \<Rightarrow> nat \<Rightarrow> nat \<Rightarrow> (exn + sweep_row list \<times> bool) option" where
  "sift_main avx level clock basePath baseFile queryPath queryFile gtPath gtFile N M efc =
     (case readVecs dec_f32 basePath N baseFile of Inl e \<Rightarrow> Some (Inl e) | Inr base \<Rightarrow>
      case readVecs dec_f32 queryPath 0 queryFile of Inl e \<Rightarrow> Some (Inl e) | Inr queries \<Rightarrow>
      case readVecs dec_i32 gtPath 0 gtFile of Inl e \<Rightarrow> Some (Inl e) | Inr gt \<Rightarrow>
      if vf_d base \<noteq> vf_d queries then Some (Inl (Runtime_error ''base and query dimension mismatch''))
      else if vf_n gt < vf_n queries then Some (Inl (Runtime_error ''ground truth has fewer rows than queries''))
      else if vf_d gt < 10 then Some (Inl (Runtime_error ''ground truth has fewer than K neighbours per row''))
      else case build_bench avx L2 level (vf_data base) (vf_d base) (vf_n base) M efc of None \<Rightarrow> None
        | Some (Inl e) \<Rightarrow> Some (Inl e)
        | Some (Inr ix) \<Rightarrow>
            map_option (\<lambda>(rows, hitTarget, _). Inr (rows, hitTarget))
              (foldM (sweep_ef (gt_hits (vf_data gt) (vf_d gt) 10) clock sift_good (vf_data queries) (vf_d queries) (vf_n queries) 10)
                 ([], False, ix) efSearch))"

section \<open>Files of any content\<close>

lemma read_records_length: "read_records dec path d n i bs = Inr data \<Longrightarrow> length data = n * d"
proof (induction n arbitrary: i bs data)
  case (Suc n)
  then show ?case
    by (cases "read_records dec path d n (Suc i) (drop (4 + d * 4) bs)") (auto split: if_splits)
qed simp

lemma readVecs_shape:
  assumes "readVecs dec path limit content = Inr vf"
  obtains bs where "content = Some bs" "0 < vf_n vf" "0 < vf_d vf" "length (vf_data vf) = vf_n vf * vf_d vf"
    "vf_n vf * (4 + vf_d vf * 4) \<le> length bs"
proof (cases content)
  case (Some bs)
  define d where "d = nat (dec_i32 (take 4 bs))"
  define t where "t = length bs div (4 + d * 4)"
  define n where "n = (if limit = 0 then t else min limit t)"
  have h: "4 \<le> length bs" "0 < dec_i32 (take 4 bs)" "length bs mod (4 + d * 4) = 0"
    using assms by (auto simp: readVecs_def Some d_def Let_def split: if_splits)
  obtain data where r: "read_records dec path d n 0 bs = Inr data" "vf = \<lparr>vf_data = data, vf_n = n, vf_d = d\<rparr>"
    using assms h by (cases "read_records dec path d n 0 bs") (auto simp: readVecs_def Some Let_def simp flip: d_def t_def n_def)
  have "t \<noteq> 0" using h(1,3) by (auto simp: t_def div_eq_0_iff)
  moreover have "t * (4 + d * 4) \<le> length bs" by (simp add: t_def div_times_less_eq_dividend)
  then have "n * (4 + d * 4) \<le> length bs" by (rule order_trans [rotated]) (simp add: n_def)
  moreover have "n \<noteq> 0" using \<open>t \<noteq> 0\<close> by (auto simp: n_def)
  ultimately show ?thesis using that Some r read_records_length [OF r(1)] h(2) by (simp add: d_def)
qed (use assms in \<open>simp add: readVecs_def\<close>)

definition files_fit :: "f32 vec_file \<Rightarrow> f32 vec_file \<Rightarrow> int vec_file \<Rightarrow> bool" where
  "files_fit base queries gt \<longleftrightarrow> vf_d base = vf_d queries \<and> vf_n queries \<le> vf_n gt \<and> 10 \<le> vf_d gt"

lemma gt_hits_ok:
  assumes "length gt = n * gtd" "nq \<le> n" "k \<le> gtd"
  shows "\<forall>q < nq. \<forall>res. \<exists>h \<le> length res. gt_hits gt gtd k q res = Some h"
proof (intro allI impI)
  fix q res assume "q < nq"
  then have "q * gtd + gtd \<le> length gt" using block_bound [of q n gtd] assms(1,2) by simp
  then show "\<exists>h \<le> length res. gt_hits gt gtd k q res = Some h" using assms(3) by (simp add: gt_hits_def rd_range_def)
qed

lemma Index_bad_M: "0 < d \<Longrightarrow> 0 < n \<Longrightarrow> M < 2 ^ 63 \<Longrightarrow> \<not> (0 < M \<and> M \<le> 128) \<Longrightarrow>
    Index avx sp d n M efc = Inl (Invalid_argument ''M must be in 1..kMaxDegree/2'')"
  by (auto simp: Index_def mul_sz_def kMaxDegree_def)

lemma foldM_Inl: "foldM (add_bench level base d) (Inl e) xs = Some (Inl e)"
  by (induction xs) (simp_all add: add_bench_def)

lemma size_bounds:
  fixes a p l :: nat
  assumes "a * 4 + p * 4 \<le> l"
  shows "l < 2 ^ 34 \<Longrightarrow> a < 2 ^ 32" "l < 2 ^ 34 \<Longrightarrow> p * 4 < 2 ^ 64" "l < 2 ^ 53 \<Longrightarrow> a < 2 ^ 53"
  using assms by simp_all

lemma sift_run:
  assumes b: "readVecs dec_f32 bp N bf = Inr base" and q: "readVecs dec_f32 qp 0 qf = Inr queries" and g: "readVecs dec_i32 gp 0 gf = Inr gt"
    and l: "\<forall>bs. bf = Some bs \<longrightarrow> length bs < 2 ^ 34" "\<forall>bs. qf = Some bs \<longrightarrow> length bs < 2 ^ 53" "M < 2 ^ 63" "efc < 2 ^ 64"
    and lv: "0 < M \<and> M \<le> 128 \<longrightarrow> (\<forall>i. 0 \<le> level i \<and> level i \<le> 2 ^ 24)"
  shows "\<exists>r. sift_main avx level clock bp bf qp qf gp gf N M efc = Some r \<and>
    (if files_fit base queries gt \<and> 0 < M \<and> M \<le> 128 then \<exists>rows hit. r = Inr (rows, hit) \<and> rows_ok 10 efSearch rows else isl r)"
proof -
  obtain bs where B: "bf = Some bs" "0 < vf_n base" "0 < vf_d base" "length (vf_data base) = vf_n base * vf_d base"
    "vf_n base * (4 + vf_d base * 4) \<le> length bs" using readVecs_shape [OF b] by metis
  obtain bs' where Q: "qf = Some bs'" "0 < vf_n queries" "length (vf_data queries) = vf_n queries * vf_d queries"
    "vf_n queries * (4 + vf_d queries * 4) \<le> length bs'" using readVecs_shape [OF q] by metis
  have G: "length (vf_data gt) = vf_n gt * vf_d gt" using readVecs_shape [OF g] by metis
  have n: "vf_n base < 2 ^ 32" "vf_n base * vf_d base * 4 < 2 ^ 64" "vf_n queries < 2 ^ 53"
  proof -
    have "vf_n base * 4 + vf_n base * vf_d base * 4 \<le> length bs" "vf_n queries * 4 + vf_n queries * vf_d queries * 4 \<le> length bs'"
      using B(5) Q(4) by (simp_all only: distrib_left mult.assoc)
    from size_bounds(1,2) [OF this(1)] size_bounds(3) [OF this(2)]
    show "vf_n base < 2 ^ 32" "vf_n base * vf_d base * 4 < 2 ^ 64" "vf_n queries < 2 ^ 53" using l(1,2) B(1) Q(1) by simp_all
  qed
  show ?thesis
  proof (cases "files_fit base queries gt \<and> 0 < M \<and> M \<le> 128")
    case True
    then have f: "vf_d base = vf_d queries" "vf_n queries \<le> vf_n gt" "10 \<le> vf_d gt" by (simp_all add: files_fit_def)
    have lv': "\<forall>i. 0 \<le> level i \<and> level i \<le> 2 ^ 24" using lv True by simp
    obtain ix where ix: "build_bench avx L2 level (vf_data base) (vf_d base) (vf_n base) M efc = Some (Inr ix)" "wf_ix ix" "ix_dim ix = vf_d base"
      by (rule build_bench_ok [OF B(4,2) n(1) B(3) n(2) _ _ l(4) lv', of M avx L2]) (use True in simp_all)
    obtain rows t ix' where "foldM (sweep_ef (gt_hits (vf_data gt) (vf_d gt) 10) clock sift_good (vf_data queries) (vf_d queries) (vf_n queries) 10)
        ([], False, ix) efSearch = Some (rows, t, ix')" "rows_ok 10 efSearch rows"
      by (rule sweep_ok [OF ix(2) _ Q(3,2) n(3) _ gt_hits_ok [OF G f(2,3)], of 10]) (use ix(3) f(1) in simp, simp)
    then show ?thesis using True f ix(1) b q g by (simp add: sift_main_def)
  next
    case False
    then show ?thesis using b q g Index_bad_M [OF B(3,2) l(3), of avx L2 efc]
      by (auto simp: sift_main_def files_fit_def build_bench_def foldM_Inl)
  qed
qed

section \<open>Files of the writer\<close>

lemma length_concat_rows: "\<forall>r \<in> set rows. length r = d \<Longrightarrow> length (concat rows) = length rows * d"
  by (induction rows) auto

lemma to_i32_range: "in_i32 (to_i32 (x mod 2 ^ 32))"
proof -
  have "x mod 2 ^ 32 < 2 ^ 32" by simp
  then show ?thesis by (auto simp: in_i32_def to_i32_def)
qed

lemma gt_row_ok:
  assumes "pair_sorter psrt" "length base = n * d" "k \<le> n"
  shows "\<exists>r. gt_row psrt base n d k qv = Some r \<and> length r = k \<and> (\<forall>x \<in> set r. in_i32 x)"
proof -
  let ?xs = "map (\<lambda>i. (test_dist qv (block d base i) d, i)) [0..<n]"
  have "those (map (\<lambda>i. map_option (\<lambda>bv. (test_dist qv bv d, i)) (row base d i)) [0..<n]) = Some ?xs"
    by (rule those_map_Some) (simp add: row_Some [OF assms(2)])
  moreover have "length (psrt k ?xs) = n" using mset_eq_length [OF pair_sorter.perm [OF assms(1), of k ?xs]] by simp
  ultimately show ?thesis using assms(3) to_i32_range by (auto simp: gt_row_def)
qed

lemma make_test_files:
  assumes "pair_sorter psrt" "length base = N * d" "length queries = nq * d" "k \<le> N"
  obtains gt fb fq fg where "make_test psrt base queries N d nq k = Some (fb, fq, fg)" "writeFvecs base N d = Some fb"
    "writeFvecs queries nq d = Some fq" "writeIvecs gt nq k = Some fg" "length gt = nq * k" "\<forall>x \<in> set gt. in_i32 x"
proof -
  let ?f = "\<lambda>q. case row queries d q of None \<Rightarrow> None | Some qv \<Rightarrow> gt_row psrt base N d k qv"
  have f: "\<exists>r. ?f q = Some r \<and> length r = k \<and> (\<forall>x \<in> set r. in_i32 x)" if "q < nq" for q
    using row_Some [OF assms(3) that] gt_row_ok [OF assms(1,2,4)] by simp
  obtain rows where r: "those (map ?f [0..<nq]) = Some rows" "length rows = nq"
    using those_all_Some [of "[0..<nq]" ?f] f by (metis (no_types, lifting) atLeastLessThan_iff length_upt minus_nat.diff_0 set_upt)
  have ok: "\<forall>r \<in> set rows. length r = k \<and> (\<forall>x \<in> set r. in_i32 x)"
  proof
    fix x assume "x \<in> set rows"
    then obtain q where q: "q < nq" "x = rows ! q" using r(2) by (metis in_set_conv_nth)
    then have "?f q = Some x" using those_nth [OF r(1), of q] by simp
    then show "length x = k \<and> (\<forall>y \<in> set x. in_i32 y)" using f [OF q(1)] by (metis option.inject)
  qed
  have l: "length (concat rows) = nq * k" using length_concat_rows [of rows k] ok r(2) by simp
  obtain fb fq fg where w: "writeFvecs base N d = Some fb" "writeFvecs queries nq d = Some fq" "writeIvecs (concat rows) nq k = Some fg"
    using write_records [of N d base enc_f32] write_records [of nq d queries enc_f32] write_records [of nq k "concat rows" enc_i32] assms(2,3) l
    by (simp add: writeFvecs_def writeIvecs_def)
  show ?thesis by (rule that [OF _ w l]) (use r w ok in \<open>auto simp: make_test_def\<close>)
qed

section \<open>Properties\<close>

text \<open>No distance between two base vectors or from a query to a base vector is a NaN.\<close>

definition comparable :: "bool \<Rightarrow> f32 vec_file \<Rightarrow> f32 vec_file \<Rightarrow> bool" where
  "comparable avx base queries \<longleftrightarrow>
     (let d = vf_d base; b = block d (vf_data base); q = block d (vf_data queries) in
      \<forall>v \<in> b ` {..<vf_n base} \<union> q ` {..<vf_n queries}. \<forall>i < vf_n base. \<not> f32_is_nan (l2SquaredDistance avx v (b i) d))"

text \<open>
  C31: The benchmark is safe on files of any shape (up to 16 GiB of base vectors): it never leaves an array. It ends with
  an error if a file is not a vector file, the three files do not fit together or \<open>M\<close> is out of range, and with
  one row per beam width, each with a recall between 0 and 1, otherwise. \<open>M = 1\<close> is excluded, because drawing a
  level is undefined then; the levels are any that \<open>randomLevel\<close> draws. So are files whose distances contain a
  NaN: the comparators of the heaps and of the sort are no order on them, which the standard library leaves undefined.
\<close>

theorem sift_safe:
  assumes "length bs < 2 ^ 34" "length qs < 2 ^ 53" "M < 2 ^ 63" "efc < 2 ^ 64" "M \<noteq> 1" "log_accurate lg"
    "0 < M \<and> M \<le> 128 \<longrightarrow> (\<forall>i. drawn lg M (level i))"
    "\<forall>base queries. readVecs dec_f32 bp N (Some bs) = Inr base \<and> readVecs dec_f32 qp 0 (Some qs) = Inr queries \<longrightarrow>
       comparable avx base queries"
  shows "\<exists>r. sift_main avx level clock bp (Some bs) qp (Some qs) gp gf N M efc = Some r \<and>
    (case (readVecs dec_f32 bp N (Some bs), readVecs dec_f32 qp 0 (Some qs), readVecs dec_i32 gp 0 gf) of
       (Inr base, Inr queries, Inr gt) \<Rightarrow>
         if files_fit base queries gt \<and> 0 < M \<and> M \<le> 128
         then \<exists>rows hit. r = Inr (rows, hit) \<and> map sw_ef rows = efSearch \<and> (\<forall>w \<in> set rows. 0 \<le> sw_recall w \<and> sw_recall w \<le> 1)
         else isl r
     | _ \<Rightarrow> isl r)"
proof -
  have rows: "rows_ok 10 efSearch rows \<longleftrightarrow> map sw_ef rows = efSearch \<and> (\<forall>r \<in> set rows. 0 \<le> sw_recall r \<and> sw_recall r \<le> 1)" for rows
    by (simp add: rows_ok_def efSearch_def)
  have lv: "0 < M \<and> M \<le> 128 \<longrightarrow> (\<forall>i. 0 \<le> level i \<and> level i \<le> 2 ^ 24)"
  proof (intro impI allI)
    fix i assume M: "0 < M \<and> M \<le> 128"
    then have "0 \<le> level i" "level i \<le> 1022" using drawn_levels(2,3) [OF assms(6), of M "level i"] assms(7) by simp_all
    then show "0 \<le> level i \<and> level i \<le> 2 ^ 24" by simp
  qed
  show ?thesis
  proof (cases "isl (readVecs dec_f32 bp N (Some bs)) \<or> isl (readVecs dec_f32 qp 0 (Some qs)) \<or> isl (readVecs dec_i32 gp 0 gf)")
    case True
    then show ?thesis by (auto simp: sift_main_def split: sum.split)
  next
    case False
    then obtain base queries gt where r: "readVecs dec_f32 bp N (Some bs) = Inr base" "readVecs dec_f32 qp 0 (Some qs) = Inr queries"
      "readVecs dec_i32 gp 0 gf = Inr gt" by (metis isl_def sum.exhaust)
    show ?thesis using sift_run [OF r _ _ assms(3,4) lv, of avx clock] assms(1,2) unfolding r rows by simp
  qed
qed

theorem sift_safe_witness:
  "\<exists>fb fq level rows hit. writeFvecs (replicate 10 1) 10 1 = Some fb \<and> writeFvecs [1] 1 1 = Some fq \<and>
     sift_main False (\<lambda>_. level) (\<lambda>_ _. 1) ''b'' (Some fb) ''q'' (Some fq) ''g'' (writeIvecs [0, 1, 2, 3, 4, 5, 6, 7, 8, 9] 1 10) 0 16 200 =
       Some (Inr (rows, hit)) \<and> map sw_ef rows = efSearch"
proof -
  let ?gt = "[0, 1, 2, 3, 4, 5, 6, 7, 8, 9] :: int list"
  obtain fb fq fg where w: "writeFvecs (replicate 10 1) 10 1 = Some fb" "writeFvecs [1] 1 1 = Some fq" "writeIvecs ?gt 1 10 = Some fg"
    using write_records [of 10 1 "replicate 10 1" enc_f32] write_records [of 1 1 "[1]" enc_f32] write_records [of 1 10 ?gt enc_i32]
    by (simp add: writeFvecs_def writeIvecs_def)
  then have f: "cell_f32.written (replicate 10 1) 10 1 fb" "cell_f32.written [1] 1 1 fq" "cell_i32.written ?gt 1 10 fg"
    by (simp_all add: cell_f32.written_def cell_i32.written_def writeFvecs_def writeIvecs_def in_i32_def)
  have r: "readVecs dec_f32 ''b'' 0 (Some fb) = Inr \<lparr>vf_data = replicate 10 1, vf_n = 10, vf_d = 1\<rparr>"
    "readVecs dec_f32 ''q'' 0 (Some fq) = Inr \<lparr>vf_data = [1], vf_n = 1, vf_d = 1\<rparr>"
    "readVecs dec_i32 ''g'' 0 (Some fg) = Inr \<lparr>vf_data = ?gt, vf_n = 1, vf_d = 10\<rparr>"
    using f cell_f32.read_iff cell_i32.read_iff by simp_all
  have l: "length fb < 2 ^ 34" "length fq < 2 ^ 53" using cell_f32.written_length [OF f(1)] cell_f32.written_length [OF f(2)] by simp_all
  have b: "block 1 (replicate 10 1) i = [1]" if "i < 10" for i :: nat and x :: f32
    using that by (simp add: block_def)
  have "\<not> f32_is_nan (l2SquaredDistance False [1] [1] 1)" by code_simp
  then have c: "comparable False \<lparr>vf_data = replicate 10 1, vf_n = 10, vf_d = 1\<rparr> \<lparr>vf_data = [1], vf_n = 1, vf_d = 1\<rparr>"
    by (auto simp: comparable_def Let_def block_def)
  have "draw (1 / 2)" by (simp add: draw_def)
  then obtain level where "drawn (\<lambda>x. f64 (ln x)) 16 level"
    using randomLevel_levels [OF log_accurate_rounded, of 16 "1 / 2"] by (auto simp: drawn_def)
  then show ?thesis
    using sift_safe [OF l, of 16 200 "\<lambda>x. f64 (ln x)" "\<lambda>_. level" "''b''" 0 "''q''" False "\<lambda>_ _. 1" "''g''" "Some fg"]
      log_accurate_rounded c w unfolding r by (auto simp: files_fit_def)
qed

text \<open>
  The files \<open>make_test_fvecs\<close> writes are read back by \<open>sift_bench\<close> and accepted: the benchmark on them runs to
  its end. Its sorting function is any that meets the contract of \<open>std::partial_sort\<close>.
\<close>

lemma make_test_accepted:
  assumes "pair_sorter psrt" "length base = N * d" "length queries = nq * d" "10 \<le> k" "k \<le> N" "0 < nq" "0 < d" "d < 2 ^ 31" "k < 2 ^ 31"
    and "N * (4 + d * 4) < 2 ^ 34" "nq * (4 + d * 4) < 2 ^ 53" "0 < M" "M \<le> 128" "efc < 2 ^ 64" "\<forall>i. 0 \<le> level i \<and> level i \<le> 2 ^ 24"
  shows "\<exists>fb fq fg rows hit. make_test psrt base queries N d nq k = Some (fb, fq, fg) \<and>
    sift_main avx level clock bp (Some fb) qp (Some fq) gp (Some fg) 0 M efc = Some (Inr (rows, hit)) \<and> map sw_ef rows = efSearch"
proof -
  obtain gt fb fq fg where m: "make_test psrt base queries N d nq k = Some (fb, fq, fg)" "writeFvecs base N d = Some fb"
    "writeFvecs queries nq d = Some fq" "writeIvecs gt nq k = Some fg" "length gt = nq * k" "\<forall>x \<in> set gt. in_i32 x"
    by (rule make_test_files [OF assms(1-3,5)])
  have w: "cell_f32.written base N d fb" "cell_f32.written queries nq d fq" "cell_i32.written gt nq k fg"
    using m assms by (simp_all add: cell_f32.written_def cell_i32.written_def writeFvecs_def writeIvecs_def)
  have r: "readVecs dec_f32 bp 0 (Some fb) = Inr \<lparr>vf_data = base, vf_n = N, vf_d = d\<rparr>"
    "readVecs dec_f32 qp 0 (Some fq) = Inr \<lparr>vf_data = queries, vf_n = nq, vf_d = d\<rparr>"
    "readVecs dec_i32 gp 0 (Some fg) = Inr \<lparr>vf_data = gt, vf_n = nq, vf_d = k\<rparr>"
    using w cell_f32.read_iff cell_i32.read_iff by simp_all
  have len: "length fb = N * (4 + d * 4)" "length fq = nq * (4 + d * 4)"
    using cell_f32.written_length [OF w(1)] cell_f32.written_length [OF w(2)] by simp_all
  have "M < 2 ^ 63" using assms(13) by simp
  from sift_run [OF r _ _ this assms(14) impI [OF assms(15)], of avx clock] obtain rows hit where
    "sift_main avx level clock bp (Some fb) qp (Some fq) gp (Some fg) 0 M efc = Some (Inr (rows, hit))" "rows_ok 10 efSearch rows"
    using assms len by (auto simp: files_fit_def)
  then show ?thesis using m(1) by (auto simp: rows_ok_def efSearch_def)
qed

lemma make_test_accepted_witness:
  "\<exists>fb fq fg rows hit. make_test (\<lambda>_. std_sort pair_less) (replicate 10 1) [1] 10 1 1 10 = Some (fb, fq, fg) \<and>
     sift_main False (\<lambda>_. 0) (\<lambda>_ _. 1) ''b'' (Some fb) ''q'' (Some fq) ''g'' (Some fg) 0 16 200 = Some (Inr (rows, hit)) \<and>
     map sw_ef rows = efSearch"
  by (rule make_test_accepted [OF pins.pair_sorter_axioms]) simp_all

end
