(* ===== verification/Go_Os.thy ===== *)
theory Go_Os
  imports Hnsw_C
begin

text \<open>
  What the Go packages under \<open>src/go\<close> use of the language and its standard library: error values with
  wrapping, and the system calls on files. A \<open>world\<close> is a process with the C library loaded
  (\<open>wd_c\<close>, whose \<open>cs_files\<close> is the disk), together with everything the outside decides: which
  of the coming system calls fail (\<open>wd_plan\<close>), the levels \<open>addPoint\<close> will draw, the CPU, and what
  uninitialised memory holds.

  \<open>wd_trace\<close> collects every state the disk goes through: a process that is killed leaves one of
  them. A file that is being written passes through all its prefixes, so the trace has a torn write for every
  length.
\<close>

section \<open>Errors\<close>

text \<open>
  The sentinel errors of \<open>hnsw.go\<close>, the errors of packages \<open>os\<close> and \<open>io\<close>
  that are told apart, a plain message
  (\<open>errors.New\<close>, \<open>fmt.Errorf\<close>), and a wrapped error (\<open>%w\<close>).
\<close>

datatype go_error =
    ErrDuplicateLabel
  | ErrNotFound
  | ErrFull
  | Os_not_exist
  | Os_exist
  | Os_closed
  | Os_failed
  | Io_EOF
  | Io_unexpected_EOF
  | Errorf string
  | Wrap string go_error

fun errors_Is :: "go_error \<Rightarrow> go_error \<Rightarrow> bool" where
  "errors_Is (Wrap msg e) tgt \<longleftrightarrow> Wrap msg e = tgt \<or> errors_Is e tgt"
| "errors_Is e tgt \<longleftrightarrow> e = tgt"

section \<open>The world\<close>

type_synonym disk = "string \<Rightarrow> byte list option"

record world =
  wd_c :: c_state
  wd_trace :: "disk list"
  wd_plan :: "nat option list"
  wd_levels :: "nat \<Rightarrow> int"
  wd_avx :: bool
  wd_junk :: "nat \<Rightarrow> nat"

abbreviation disk_of :: "world \<Rightarrow> disk" where
  "disk_of w \<equiv> cs_files (wd_c w)"

text \<open>The disk passes through the states \<open>ds\<close> and ends in the last one.\<close>

definition pass :: "disk list \<Rightarrow> world \<Rightarrow> world" where
  "pass ds w = w\<lparr>wd_trace := wd_trace w @ ds, wd_c := (wd_c w)\<lparr>cs_files := last (disk_of w # ds)\<rparr>\<rparr>"

text \<open>A file growing from \<open>old\<close> by \<open>buf\<close>.\<close>

definition growing :: "disk \<Rightarrow> string \<Rightarrow> byte list \<Rightarrow> byte list \<Rightarrow> disk list" where
  "growing d path old buf = map (\<lambda>k. d(path \<mapsto> old @ take k buf)) [0..<Suc (length buf)]"

section \<open>System calls\<close>

text \<open>
  The fate of the next system call: \<open>None\<close> if it works, \<open>Some n\<close> if it fails, for a write or a read
  after \<open>n\<close> bytes. When the plan is used up, every call works.
\<close>

definition sys_call :: "world \<Rightarrow> nat option \<times> world" where
  "sys_call w = (case wd_plan w of [] \<Rightarrow> (None, w) | f # fs \<Rightarrow> (f, w\<lparr>wd_plan := fs\<rparr>))"

text \<open>A call that either fails or has the effect \<open>act\<close>.\<close>

definition sys :: "(world \<Rightarrow> go_error option \<times> world) \<Rightarrow> world \<Rightarrow> go_error option \<times> world" where
  "sys act w = (case sys_call w of (Some _, w1) \<Rightarrow> (Some Os_failed, w1) | (None, w1) \<Rightarrow> act w1)"

definition os_stat :: "string \<Rightarrow> world \<Rightarrow> go_error option \<times> world" where
  "os_stat path = sys (\<lambda>w. (if disk_of w path = None then Some Os_not_exist else None, w))"

text \<open>\<open>os.OpenFile\<close> with \<open>O_RDWR\<close>, and with \<open>O_RDWR|O_CREATE|O_EXCL\<close>.\<close>

definition os_open :: "string \<Rightarrow> world \<Rightarrow> go_error option \<times> world" where
  "os_open path = sys (\<lambda>w. (if disk_of w path = None then Some Os_not_exist else None, w))"

definition os_create_excl :: "string \<Rightarrow> world \<Rightarrow> go_error option \<times> world" where
  "os_create_excl path = sys (\<lambda>w. if disk_of w path \<noteq> None then (Some Os_exist, w)
     else (None, pass [(disk_of w)(path \<mapsto> [])] w))"

text \<open>
  \<open>f.Write\<close> at the end of the file, where the position of every handle of the program is when it
  writes. A file that was removed meanwhile takes the bytes out of reach.
\<close>

definition os_write :: "string \<Rightarrow> byte list \<Rightarrow> world \<Rightarrow> go_error option \<times> world" where
  "os_write path buf w =
     (let (fate, w1) = sys_call w;
          out = (case fate of None \<Rightarrow> buf | Some n \<Rightarrow> take n buf);
          w2 = (case disk_of w1 path of None \<Rightarrow> w1 | Some old \<Rightarrow> pass (growing (disk_of w1) path old out) w1)
      in (map_option (\<lambda>_. Os_failed) fate, w2))"

definition os_truncate :: "string \<Rightarrow> nat \<Rightarrow> world \<Rightarrow> go_error option \<times> world" where
  "os_truncate path n = sys (\<lambda>w. (None, case disk_of w path of None \<Rightarrow> w
     | Some bs \<Rightarrow> pass [(disk_of w)(path \<mapsto> take n bs @ replicate (n - length bs) 0)] w))"

text \<open>\<open>Sync\<close>, \<open>Seek\<close> and \<open>Close\<close> change no file.\<close>

definition os_nop :: "world \<Rightarrow> go_error option \<times> world" where
  "os_nop = sys (\<lambda>w. (None, w))"

definition os_remove :: "string \<Rightarrow> world \<Rightarrow> go_error option \<times> world" where
  "os_remove path = sys (\<lambda>w. if disk_of w path = None then (Some Os_not_exist, w)
     else (None, pass [(disk_of w)(path := None)] w))"

definition os_rename :: "string \<Rightarrow> string \<Rightarrow> world \<Rightarrow> go_error option \<times> world" where
  "os_rename from to = sys (\<lambda>w. case disk_of w from of None \<Rightarrow> (Some Os_not_exist, w)
     | Some bs \<Rightarrow> (None, pass [(disk_of w)(from := None, to \<mapsto> bs)] w))"

text \<open>\<open>os.Open\<close>, and all that the handle can read: up to the end of the file, or to a read error.\<close>

definition os_read_all :: "string \<Rightarrow> world \<Rightarrow> (go_error + byte list) \<times> world" where
  "os_read_all path w =
     (case sys_call w of (Some _, w1) \<Rightarrow> (Inl Os_failed, w1)
      | (None, w1) \<Rightarrow> (case disk_of w1 path of None \<Rightarrow> (Inl Os_not_exist, w1)
          | Some bs \<Rightarrow> (case sys_call w1 of (fate, w2) \<Rightarrow>
              (Inr (case fate of None \<Rightarrow> bs | Some n \<Rightarrow> take n bs), w2))))"

section \<open>Calls that work\<close>

named_theorems os_simps

lemma pass_simps [simp]:
  "wd_plan (pass ds w) = wd_plan w" "wd_levels (pass ds w) = wd_levels w" "wd_avx (pass ds w) = wd_avx w"
  "wd_junk (pass ds w) = wd_junk w" "wd_trace (pass ds w) = wd_trace w @ ds"
  "cs_objs (wd_c (pass ds w)) = cs_objs (wd_c w)" "cs_next (wd_c (pass ds w)) = cs_next (wd_c w)"
  "disk_of (pass ds w) = last (disk_of w # ds)"
  by (simp_all add: pass_def)

lemma last_growing [simp]: "last (d # growing d path old buf) = d(path \<mapsto> old @ buf)"
  by (simp add: growing_def)

lemma last_growing': "last (growing d p old buf) = d(p \<mapsto> old @ buf)"
  by (simp add: growing_def last_map)

lemma growing_ne [simp]: "growing d p old buf \<noteq> []"
  by (simp add: growing_def)

lemma in_growing: "d' \<in> set (growing d path old buf) \<longleftrightarrow> (\<exists>k \<le> length buf. d' = d(path \<mapsto> old @ take k buf))"
  unfolding growing_def set_map set_upt by (auto simp: less_Suc_eq_le)

lemma sys_call_none [os_simps]: "wd_plan w = [] \<Longrightarrow> sys_call w = (None, w)"
  by (simp add: sys_call_def)

lemma os_calls_work [os_simps]:
  assumes "wd_plan w = []"
  shows "os_stat path w = (if disk_of w path = None then Some Os_not_exist else None, w)"
    "os_open path w = (if disk_of w path = None then Some Os_not_exist else None, w)"
    "os_create_excl path w = (if disk_of w path \<noteq> None then (Some Os_exist, w) else (None, pass [(disk_of w)(path \<mapsto> [])] w))"
    "os_nop w = (None, w)"
    "disk_of w path = Some old \<Longrightarrow> os_write path buf w = (None, pass (growing (disk_of w) path old buf) w)"
    "disk_of w path = Some old \<Longrightarrow> n \<le> length old \<Longrightarrow> os_truncate path n w = (None, pass [(disk_of w)(path \<mapsto> take n old)] w)"
    "disk_of w path = Some old \<Longrightarrow> os_rename path to w = (None, pass [(disk_of w)(path := None, to \<mapsto> old)] w)"
    "os_read_all path w = (case disk_of w path of None \<Rightarrow> Inl Os_not_exist | Some bs \<Rightarrow> Inr bs, w)"
  using assms
  by (simp_all add: sys_def sys_call_none os_stat_def os_open_def os_create_excl_def os_nop_def os_write_def
      os_truncate_def os_rename_def os_read_all_def split: option.split)

end
