(* ===== verification/Wal.thy ===== *)
theory Wal
  imports Go_Os
begin

text \<open>
  The write-ahead log of \<open>src/go/wal/wal.go\<close>: a file header and a sequence of records, each with its
  length and a CRC-32 of its payload. \<open>encode\<close> and \<open>decode\<close> are inverse; \<open>readRecord\<close> never reads
  a record that was torn or damaged in one byte, and \<open>Replay\<close> of a log whose last record is torn
  applies exactly the complete records and reports where they end.
\<close>

unbundle bit_operations_syntax

section \<open>CRC-32\<close>

text \<open>\<open>crc32.ChecksumIEEE\<close> of the Go library: the reflected polynomial, one bit at a time.\<close>

definition crc_bit :: "32 word \<Rightarrow> 32 word" where
  "crc_bit c = (if bit c 0 then drop_bit 1 c XOR 0xEDB88320 else drop_bit 1 c)"

definition crc_byte :: "32 word \<Rightarrow> byte \<Rightarrow> 32 word" where
  "crc_byte c b = (crc_bit ^^ 8) (c XOR ucast b)"

definition ChecksumIEEE :: "byte list \<Rightarrow> 32 word" where
  "ChecksumIEEE bs = NOT (foldl crc_byte (NOT 0) bs)"

section \<open>Records\<close>

definition OpAdd :: byte where "OpAdd = 1"
definition OpMarkDeleted :: byte where "OpMarkDeleted = 2"
definition OpUnmarkDeleted :: byte where "OpUnmarkDeleted = 3"
lemmas ops_defs = OpAdd_def OpMarkDeleted_def OpUnmarkDeleted_def

definition wal_magic :: nat where "wal_magic = 0x57414C31"
definition wal_version :: nat where "wal_version = 2"
definition headerSize :: nat where "headerSize = 8"
definition maxPayloadLen :: nat where "maxPayloadLen = 2 ^ 24"

record wal_record =
  r_Op :: byte
  r_ClientID :: "64 word"
  r_Label :: "64 word"
  r_Vector :: "f32 list"

definition encode_payload :: "wal_record \<Rightarrow> byte list" where
  "encode_payload r = r_Op r # le 8 (unat (r_ClientID r)) @ le 8 (unat (r_Label r)) @ le 4 (length (r_Vector r)) @
     concat (map enc_f32 (r_Vector r))"

definition encode :: "wal_record \<Rightarrow> go_error + byte list" where
  "encode r =
     (if r_Op r = OpAdd \<and> length (r_Vector r) = 0 then Inl (Errorf ''wal: OpAdd requires a non-empty vector'')
      else if r_Op r \<noteq> OpAdd \<and> length (r_Vector r) \<noteq> 0 then Inl (Errorf ''wal: only OpAdd carries a vector'')
      else let payloadLen = 1 + 8 + 8 + 4 + length (r_Vector r) * 4; p = encode_payload r
           in Inr (le 4 payloadLen @ p @ le 4 (unat (ChecksumIEEE p))))"

definition decode :: "byte list \<Rightarrow> go_error + wal_record" where
  "decode p =
     (if length p < 21 then Inl (Errorf ''wal: payload shorter than fixed header'')
      else let op = p ! 0; clientID = of_nat (un_le (take 8 (drop 1 p))); lab = of_nat (un_le (take 8 (drop 9 p)));
               dim = un_le (take 4 (drop 17 p))
           in if length p \<noteq> 21 + dim * 4 then Inl (Errorf ''wal: payload length does not match declared dim'')
              else if op \<notin> {OpAdd, OpMarkDeleted, OpUnmarkDeleted}
                then Inl (Errorf (''wal: unknown op byte '' @ to_string (unat op)))
              else Inr \<lparr>r_Op = op, r_ClientID = clientID, r_Label = lab,
                         r_Vector = decode_n 4 dec_f32 dim (drop 21 p)\<rparr>)"

text \<open>
  The bytes are what the reader still has; \<open>io.ReadFull\<close> fails if there are not enough. The result is
  the record, the number of bytes it takes and the bytes behind it.
\<close>

definition readFull :: "nat \<Rightarrow> byte list \<Rightarrow> (byte list \<times> byte list) option" where
  "readFull n bs = (if n \<le> length bs then Some (take n bs, drop n bs) else None)"

definition readRecord :: "byte list \<Rightarrow> (wal_record \<times> nat \<times> byte list) option" where
  "readRecord bs =
     (case readFull 4 bs of None \<Rightarrow> None | Some (lenBuf, bs1) \<Rightarrow>
        let payloadLen = un_le lenBuf in
        if payloadLen = 0 \<or> payloadLen > maxPayloadLen then None
        else case readFull payloadLen bs1 of None \<Rightarrow> None | Some (payload, bs2) \<Rightarrow>
          (case readFull 4 bs2 of None \<Rightarrow> None | Some (crcBuf, bs3) \<Rightarrow>
             if unat (ChecksumIEEE payload) \<noteq> un_le crcBuf then None
             else case decode payload of Inl _ \<Rightarrow> None | Inr r \<Rightarrow> Some (r, 4 + payloadLen + 4, bs3)))"

lemma readRecord_Some:
  "readRecord bs = Some (r, n, rest) \<longleftrightarrow>
    (\<exists>p. p = un_le (take 4 bs) \<and> 0 < p \<and> p \<le> maxPayloadLen \<and> 8 + p \<le> length bs \<and> n = 8 + p \<and> rest = drop (8 + p) bs \<and>
      unat (ChecksumIEEE (take p (drop 4 bs))) = un_le (take 4 (drop (4 + p) bs)) \<and> decode (take p (drop 4 bs)) = Inr r)"
  (is "?l \<longleftrightarrow> ?r")
proof
  assume ?l then show ?r
    unfolding readRecord_def readFull_def Let_def
    by (auto split: option.splits if_splits sum.splits simp: add.commute)
next
  assume ?r
  then obtain p where p: "p = un_le (take 4 bs)" "0 < p" "p \<le> maxPayloadLen" "8 + p \<le> length bs" "n = 8 + p" "rest = drop (8 + p) bs"
    "unat (ChecksumIEEE (take p (drop 4 bs))) = un_le (take 4 (drop (4 + p) bs))" "decode (take p (drop 4 bs)) = Inr r" by blast
  from p(2-8) [unfolded p(1)] show ?l by (auto simp: readRecord_def readFull_def Let_def add.commute [of _ 4])
qed

lemma readRecord_shrinks:
  assumes "readRecord bs = Some (r, n, rest)" shows "8 < n" "n \<le> length bs" "rest = drop n bs" "length rest < length bs"
  using assms by (auto simp: readRecord_Some)

section \<open>Replay\<close>

fun to_hex :: "nat \<Rightarrow> string" where
  "to_hex n = (if n < 16 then [''0123456789abcdef'' ! n] else to_hex (n div 16) @ [''0123456789abcdef'' ! (n mod 16)])"

declare to_hex.simps [simp del]

text \<open>
  The loop of \<open>Replay\<close>: the records applied, the offset, and the error of \<open>apply\<close> if there was one.
\<close>

function replay_loop :: "(wal_record \<Rightarrow> 's \<Rightarrow> (go_error option \<times> 's) option) \<Rightarrow> byte list \<Rightarrow> nat \<Rightarrow> nat \<Rightarrow> 's \<Rightarrow>
    (nat \<times> nat \<times> go_error option \<times> 's) option" where
  "replay_loop app bs recordsApplied offset s =
     (case readRecord bs of None \<Rightarrow> Some (recordsApplied, offset, None, s)
      | Some (r, n, rest) \<Rightarrow>
          (case app r s of None \<Rightarrow> None
           | Some (Some e, s') \<Rightarrow> Some (recordsApplied, offset,
               Some (Wrap (''wal: applying record '' @ to_string recordsApplied @ '' (op='' @ to_string (unat (r_Op r)) @
                 '' clientId='' @ to_string (unat (r_ClientID r)) @ '' label='' @ to_string (unat (r_Label r)) @ ''): '') e), s')
           | Some (None, s') \<Rightarrow> replay_loop app rest (recordsApplied + 1) (offset + n) s'))"
  by pat_completeness auto
termination
  by (relation "measure (\<lambda>(_, bs, _). length bs)") (auto dest: readRecord_shrinks(4))

declare replay_loop.simps [simp del]

definition replay_bytes :: "(wal_record \<Rightarrow> 's \<Rightarrow> (go_error option \<times> 's) option) \<Rightarrow> string \<Rightarrow> byte list \<Rightarrow> 's \<Rightarrow>
    (nat \<times> nat \<times> go_error option \<times> 's) option" where
  "replay_bytes app path bs s =
     (case readFull headerSize bs of None \<Rightarrow> Some (0, 0, Some (Wrap (''wal: '' @ path @ '': reading header: '') (if bs = [] then Io_EOF else Io_unexpected_EOF)), s)
      | Some (hdr, rest) \<Rightarrow>
          if un_le (take 4 hdr) \<noteq> wal_magic then Some (0, 0, Some (Errorf (''wal: '' @ path @ '': bad magic 0x'' @ to_hex (un_le (take 4 hdr)) @
            '' -- not a WAL file'')), s)
          else if un_le (drop 4 hdr) \<noteq> wal_version
            then Some (0, 0, Some (Errorf (''wal: '' @ path @ '': version '' @ to_string (un_le (drop 4 hdr)) @
              '', this code expects '' @ to_string wal_version @ '' (v2 added a clientId field to every record; old WAL files cannot be '' @
              ''replayed and must be discarded)'')), s)
          else replay_loop app rest 0 headerSize s)"

definition Replay :: "(wal_record \<Rightarrow> world \<Rightarrow> (go_error option \<times> world) option) \<Rightarrow> string \<Rightarrow> world \<Rightarrow>
    (nat \<times> nat \<times> go_error option \<times> world) option" where
  "Replay app path w =
     (case os_read_all path w of
        (Inl e, w1) \<Rightarrow> Some (0, 0, if e = Os_not_exist then None else Some (Wrap (''wal: open '' @ path @ '': '') e), w1)
      | (Inr bs, w1) \<Rightarrow> replay_bytes app path bs w1)"

section \<open>The log file\<close>

record wal =
  w_path :: string
  w_open :: bool

definition header_bytes_wal :: "byte list" where
  "header_bytes_wal = le 4 wal_magic @ le 4 wal_version"

definition writeHeader :: "string \<Rightarrow> world \<Rightarrow> go_error option \<times> world" where
  "writeHeader path w =
     (case os_write path header_bytes_wal w of (e, w1) \<Rightarrow> (map_option (Wrap ''wal: writing header: '') e, w1))"

definition Create :: "string \<Rightarrow> world \<Rightarrow> (go_error + wal) \<times> world" where
  "Create path w =
     (case os_create_excl path w of (Some e, w1) \<Rightarrow> (Inl (Wrap (''wal: create '' @ path @ '': '') e), w1)
      | (None, w1) \<Rightarrow> (case writeHeader path w1 of (Some e, w2) \<Rightarrow> (Inl e, snd (os_remove path (snd (os_nop w2))))
        | (None, w2) \<Rightarrow> (case os_nop w2 of (Some e, w3) \<Rightarrow> (Inl (Wrap ''wal: fsync header: '' e), snd (os_nop w3))
          | (None, w3) \<Rightarrow> (Inr \<lparr>w_path = path, w_open = True\<rparr>, w3))))"

definition OpenForAppend :: "string \<Rightarrow> int \<Rightarrow> world \<Rightarrow> (go_error + wal) \<times> world" where
  "OpenForAppend path truncateTo w =
     (case os_open path w of (Some e, w1) \<Rightarrow> (Inl (Wrap (''wal: open '' @ path @ '': '') e), w1)
      | (None, w1) \<Rightarrow> (case (if 0 \<le> truncateTo then os_truncate path (nat truncateTo) w1 else (None, w1)) of
          (Some e, w2) \<Rightarrow> (Inl (Wrap ''wal: truncating torn tail: '' e), snd (os_nop w2))
        | (None, w2) \<Rightarrow> (case os_nop w2 of (Some e, w3) \<Rightarrow> (Inl (Wrap ''wal: seeking to end: '' e), snd (os_nop w3))
          | (None, w3) \<Rightarrow> (Inr \<lparr>w_path = path, w_open = True\<rparr>, w3))))"

definition Append :: "wal \<Rightarrow> wal_record \<Rightarrow> world \<Rightarrow> go_error option \<times> world" where
  "Append lg r w =
     (case encode r of Inl e \<Rightarrow> (Some e, w)
      | Inr buf \<Rightarrow>
          if \<not> w_open lg then (Some (Wrap ''wal: write: '' Os_closed), w)
          else case os_write (w_path lg) buf w of (Some e, w1) \<Rightarrow> (Some (Wrap ''wal: write: '' e), w1)
          | (None, w1) \<Rightarrow> (case os_nop w1 of (e, w2) \<Rightarrow> (map_option (Wrap ''wal: fsync: '') e, w2)))"

definition Sync :: "wal \<Rightarrow> world \<Rightarrow> go_error option \<times> world" where
  "Sync lg w =
     (if \<not> w_open lg then (Some (Wrap ''wal: fsync: '' Os_closed), w)
      else case os_nop w of (e, w1) \<Rightarrow> (map_option (Wrap ''wal: fsync: '') e, w1))"

text \<open>A handle is closed afterwards, whatever \<open>close\<close> returned.\<close>

definition Close_wal :: "wal \<Rightarrow> world \<Rightarrow> go_error option \<times> wal \<times> world" where
  "Close_wal lg w =
     (if \<not> w_open lg then (Some (Wrap ''wal: close: '' Os_closed), lg, w)
      else case os_nop w of (e, w1) \<Rightarrow> (map_option (Wrap ''wal: close: '') e, lg\<lparr>w_open := False\<rparr>, w1))"

section \<open>The checksum sees a changed byte\<close>

lemma bit_crc_bit: "bit (crc_bit c) 31 = bit c 0"
  using bit_imp_le_length [of c 32] by (auto simp: crc_bit_def bit_simps)

lemma xor_word_cancel: "a XOR c = b XOR c \<Longrightarrow> a = (b :: 'w::len word)"
  by (metis xor.assoc xor.right_neutral xor_self_eq)

lemma inj_crc_bit: "inj crc_bit"
proof (rule injI)
  fix a b assume e: "crc_bit a = crc_bit b"
  then have z: "bit a 0 = bit b 0" using bit_crc_bit by metis
  have d: "drop_bit 1 a = drop_bit 1 b"
    using e z by (cases "bit b 0") (auto simp: crc_bit_def dest: xor_word_cancel)
  show "a = b"
  proof (rule bit_eqI)
    fix n show "bit a n = bit b n"
      using z arg_cong [OF d, of "\<lambda>c. bit c (n - 1)"] by (cases n) (simp_all add: bit_simps)
  qed
qed

lemma inj_crc_bits: "inj (crc_bit ^^ n)"
  by (rule inj_fn [OF inj_crc_bit])

lemma crc_byte_eq: "crc_byte a b = crc_byte a' b' \<longleftrightarrow> a XOR ucast b = a' XOR ucast b'"
  unfolding crc_byte_def by (rule inj_eq [OF inj_crc_bits])

lemma crc_byte_byte: "crc_byte a b = crc_byte a b' \<longleftrightarrow> b = b'"
proof
  assume "crc_byte a b = crc_byte a b'"
  then have "ucast b XOR a = (ucast b' XOR a :: 32 word)" by (simp add: crc_byte_eq xor.commute)
  then have e: "(ucast b :: 32 word) = ucast b'" by (rule xor_word_cancel)
  show "b = b'"
  proof (rule bit_eqI)
    fix n show "bit b n = bit b' n"
      using arg_cong [OF e, of "\<lambda>c. bit c n"] bit_imp_le_length [of b n] bit_imp_le_length [of b' n]
      by (auto simp: bit_simps)
  qed
qed simp

lemma foldl_crc_inj: "foldl crc_byte a bs = foldl crc_byte a' bs \<Longrightarrow> a = a'"
proof (induction bs arbitrary: a a')
  case (Cons b bs)
  then have "a XOR ucast b = a' XOR (ucast b :: 32 word)" by (metis foldl_Cons crc_byte_eq)
  then show ?case by (rule xor_word_cancel)
qed simp

lemma Checksum_one_byte:
  assumes "i < length p" "b \<noteq> p ! i" shows "ChecksumIEEE (p[i := b]) \<noteq> ChecksumIEEE p"
proof
  assume e: "ChecksumIEEE (p[i := b]) = ChecksumIEEE p"
  let ?x = "foldl crc_byte (NOT 0) (take i p)"
  have "foldl crc_byte (NOT 0) (p[i := b]) = foldl crc_byte (NOT 0) p"
    using arg_cong [OF e, of "\<lambda>c. NOT c"] by (simp add: ChecksumIEEE_def)
  moreover have "p = take i p @ p ! i # drop (Suc i) p" "p[i := b] = take i p @ b # drop (Suc i) p"
    using assms(1) by (simp_all add: id_take_nth_drop upd_conv_take_nth_drop)
  ultimately have "foldl crc_byte (crc_byte ?x b) (drop (Suc i) p) = foldl crc_byte (crc_byte ?x (p ! i)) (drop (Suc i) p)"
    by (metis foldl_append foldl_Cons)
  then have "crc_byte ?x b = crc_byte ?x (p ! i)" by (rule foldl_crc_inj)
  then show False using assms(2) by (simp add: crc_byte_byte)
qed

text \<open>A known value: the checksum of the one-byte text \<open>1\<close>.\<close>

lemma Checksum_check: "ChecksumIEEE [49] = 0x83DCEFB7"
  by code_simp

section \<open>Encoding and decoding\<close>

definition rec_bytes :: "wal_record \<Rightarrow> byte list" where
  "rec_bytes r = le 4 (21 + length (r_Vector r) * 4) @ encode_payload r @ le 4 (unat (ChecksumIEEE (encode_payload r)))"

text \<open>What \<open>encode\<close> accepts and \<open>decode\<close> understands, and what the reader accepts.\<close>

definition encodable :: "wal_record \<Rightarrow> bool" where
  "encodable r \<longleftrightarrow> r_Op r \<in> {OpAdd, OpMarkDeleted, OpUnmarkDeleted} \<and> (r_Op r = OpAdd \<longleftrightarrow> r_Vector r \<noteq> [])"

definition rec_ok :: "wal_record \<Rightarrow> bool" where
  "rec_ok r \<longleftrightarrow> encodable r \<and> 21 + length (r_Vector r) * 4 \<le> maxPayloadLen"

lemma encode_encodable: "encodable r \<Longrightarrow> encode r = Inr (rec_bytes r)"
  by (simp add: encode_def encodable_def rec_bytes_def Let_def)

lemma length_payload [simp]: "length (encode_payload r) = 21 + length (r_Vector r) * 4"
  by (simp add: encode_payload_def c_f32.length_concat_enc)

lemma length_rec_bytes [simp]: "length (rec_bytes r) = 29 + length (r_Vector r) * 4"
  by (simp add: rec_bytes_def)

lemma decode_payload:
  assumes "encodable r" "length (r_Vector r) < 2 ^ 32" shows "decode (encode_payload r) = Inr r"
proof -
  let ?p = "encode_payload r"
  have d: "decode_n 4 dec_f32 (length (r_Vector r)) (concat (map enc_f32 (r_Vector r))) = r_Vector r"
    using c_f32.decode_concat [of "r_Vector r" "[]"] by simp
  have "un_le (take 4 (drop 17 ?p)) = length (r_Vector r)" using assms(2) by (simp add: encode_payload_def un_le_le)
  moreover have "take 8 (drop 1 ?p) = le 8 (unat (r_ClientID r))" "take 8 (drop 9 ?p) = le 8 (unat (r_Label r))"
    "?p ! 0 = r_Op r" "drop 21 ?p = concat (map enc_f32 (r_Vector r))"
    by (simp_all add: encode_payload_def)
  ultimately show ?thesis using assms(1) d by (auto simp: decode_def encodable_def of_nat_le8 Let_def)
qed

lemma un_le_crc: "un_le (le 4 (unat (c :: 32 word))) = unat c"
proof -
  have "unat c < 2 ^ LENGTH(32)" by (rule unsigned_less)
  then have "unat c mod 256 ^ 4 = unat c" by (intro mod_less) simp
  then show ?thesis by (simp add: un_le_le)
qed

lemma readRecord_frame:
  assumes "length p = n" "0 < n" "n \<le> maxPayloadLen" "length c = 4"
  shows "readRecord (le 4 n @ p @ c @ rest) =
    (if unat (ChecksumIEEE p) \<noteq> un_le c then None
     else case decode p of Inl _ \<Rightarrow> None | Inr r \<Rightarrow> Some (r, 4 + n + 4, rest))"
proof -
  have "un_le (le 4 n) = n" using assms(3) by (simp add: un_le_le maxPayloadLen_def)
  then show ?thesis using assms by (auto simp: readRecord_def readFull_def split: sum.split)
qed

lemma readRecord_encode:
  assumes "rec_ok r" shows "readRecord (rec_bytes r @ rest) = Some (r, length (rec_bytes r), rest)"
proof -
  have "length (r_Vector r) < 2 ^ 32" using assms by (simp add: rec_ok_def maxPayloadLen_def)
  then have "decode (encode_payload r) = Inr r" using assms by (intro decode_payload) (simp_all add: rec_ok_def)
  then show ?thesis
    using readRecord_frame [of "encode_payload r" "21 + length (r_Vector r) * 4" "le 4 (unat (ChecksumIEEE (encode_payload r)))" rest] assms
    by (simp add: rec_bytes_def rec_ok_def un_le_crc)
qed

lemma readRecord_torn:
  assumes "rec_ok r" "k < length (rec_bytes r)" shows "readRecord (take k (rec_bytes r)) = None"
proof -
  have p: "un_le (take 4 (rec_bytes r)) = 21 + length (r_Vector r) * 4"
    using assms(1) by (simp add: rec_bytes_def un_le_le rec_ok_def maxPayloadLen_def)
  show ?thesis
  proof (cases "4 \<le> k")
    case True
    then have "un_le (take 4 (take k (rec_bytes r))) = 21 + length (r_Vector r) * 4" using p by (simp add: min_def)
    then show ?thesis using assms(2) True by (auto simp: readRecord_def readFull_def Let_def)
  qed (use assms(2) in \<open>simp add: readRecord_def readFull_def\<close>)
qed

lemma readRecord_oversize:
  assumes "maxPayloadLen < 21 + length (r_Vector r) * 4" "21 + length (r_Vector r) * 4 < 2 ^ 32"
  shows "readRecord (rec_bytes r @ rest) = None"
  using assms by (simp add: readRecord_def readFull_def rec_bytes_def un_le_le)

text \<open>One byte of the payload or of the checksum replaced.\<close>

lemma le4_eq: "length c = 4 \<Longrightarrow> un_le c = un_le d \<Longrightarrow> length d = 4 \<Longrightarrow> c = d"
  by (metis le_un_le)

lemma readRecord_damaged:
  assumes "rec_ok r" "4 \<le> i" "i < length (rec_bytes r)" "b \<noteq> rec_bytes r ! i"
  shows "readRecord ((rec_bytes r)[i := b] @ rest) = None"
proof -
  let ?p = "encode_payload r" and ?n = "21 + length (r_Vector r) * 4"
  let ?c = "le 4 (unat (ChecksumIEEE ?p))"
  have n: "?n \<le> maxPayloadLen" using assms(1) by (simp add: rec_ok_def)
  show ?thesis
  proof (cases "i - 4 < ?n")
    case True
    have "(rec_bytes r)[i := b] = le 4 ?n @ ?p[i - 4 := b] @ ?c"
      using assms(2) True by (simp add: rec_bytes_def list_update_append)
    moreover have "b \<noteq> ?p ! (i - 4)" using assms(2,4) True by (simp add: rec_bytes_def nth_append)
    then have "ChecksumIEEE (?p[i - 4 := b]) \<noteq> ChecksumIEEE ?p" using True by (intro Checksum_one_byte) simp_all
    ultimately show ?thesis
      using readRecord_frame [of "?p[i - 4 := b]" ?n ?c rest] n by (simp add: un_le_crc word_unat_eq_iff)
  next
    case False
    define j where "j = i - 4 - ?n"
    have j: "j < 4" "b \<noteq> ?c ! j" using assms(2-4) False by (simp_all add: j_def rec_bytes_def nth_append)
    have "(rec_bytes r)[i := b] = le 4 ?n @ ?p @ ?c[j := b]"
      using assms(2) False by (simp add: rec_bytes_def list_update_append j_def)
    moreover have "?c[j := b] \<noteq> ?c" using j by (metis length_le nth_list_update_eq)
    then have "un_le (?c[j := b]) \<noteq> un_le ?c" using le4_eq [of "?c[j := b]" ?c] by auto
    ultimately show ?thesis
      using readRecord_frame [of ?p ?n "?c[j := b]" rest] n by (simp add: un_le_crc)
  qed
qed

section \<open>Replaying a log\<close>

text \<open>The specification: \<open>apply\<close> on one record after the other, up to the first error.\<close>

fun apply_all :: "(wal_record \<Rightarrow> 's \<Rightarrow> (go_error option \<times> 's) option) \<Rightarrow> wal_record list \<Rightarrow> 's \<Rightarrow> (go_error option \<times> 's) option" where
  "apply_all app [] s = Some (None, s)"
| "apply_all app (r # rs) s =
     (case app r s of None \<Rightarrow> None
      | Some (Some e, s') \<Rightarrow> Some (Some e, s')
      | Some (None, s') \<Rightarrow> apply_all app rs s')"

definition records_bytes :: "wal_record list \<Rightarrow> byte list" where
  "records_bytes rs = concat (map rec_bytes rs)"

definition log_bytes :: "wal_record list \<Rightarrow> byte list" where
  "log_bytes rs = header_bytes_wal @ records_bytes rs"

lemma records_simps [simp]: "records_bytes [] = []" "records_bytes (r # rs) = rec_bytes r @ records_bytes rs"
  by (simp_all add: records_bytes_def)

lemma log_snoc: "log_bytes (rs @ [r]) = log_bytes rs @ rec_bytes r"
  by (simp add: log_bytes_def records_bytes_def)

lemma length_header_wal [simp]: "length header_bytes_wal = 8"
  by (simp add: header_bytes_wal_def)

lemma replay_loop_good:
  assumes "\<forall>r \<in> set rs. rec_ok r" "apply_all app rs s = Some (None, s')"
  shows "replay_loop app (records_bytes rs @ tail) n off s = replay_loop app tail (n + length rs) (off + length (records_bytes rs)) s'"
  using assms
proof (induction rs arbitrary: n off s)
  case (Cons r rs)
  then obtain s1 where "app r s = Some (None, s1)" "apply_all app rs s1 = Some (None, s')"
    by (auto split: option.splits)
  then show ?case
    using Cons.IH [of s1 "n + 1" "off + length (rec_bytes r)"] Cons.prems(1) readRecord_encode [of r "records_bytes rs @ tail"]
    by (subst replay_loop.simps) (simp add: ac_simps)
qed simp

lemma replay_loop_error:
  assumes "\<forall>r \<in> set rs. rec_ok r" "apply_all app rs s = Some (Some e, s')"
  shows "\<exists>k off' msg. replay_loop app (records_bytes rs @ tail) n off s = Some (k, off', Some (Wrap msg e), s')"
  using assms
proof (induction rs arbitrary: n off s)
  case (Cons r rs)
  then have rd: "readRecord (rec_bytes r @ records_bytes rs @ tail) = Some (r, length (rec_bytes r), records_bytes rs @ tail)"
    by (simp add: readRecord_encode)
  show ?case
  proof (cases "app r s")
    case (Some p)
    obtain o1 s1 where p: "p = (o1, s1)" by (cases p)
    show ?thesis
      using Cons.IH [of s1 "n + 1" "off + length (rec_bytes r)"] Cons.prems Some p rd
      by (subst replay_loop.simps) (auto split: option.splits)
  qed (use Cons.prems in simp)
qed simp

lemma replay_loop_None: "readRecord tail = None \<Longrightarrow> replay_loop app tail n off s = Some (n, off, None, s)"
  by (subst replay_loop.simps) simp

lemma replay_bytes_log: "replay_bytes app path (log_bytes rs @ tail) s = replay_loop app (records_bytes rs @ tail) 0 8 s"
  by (simp add: replay_bytes_def readFull_def headerSize_def log_bytes_def header_bytes_wal_def un_le_le wal_magic_def wal_version_def)

lemma length_log: "length (log_bytes rs) = 8 + length (records_bytes rs)"
  by (simp add: log_bytes_def)

lemma replay_log:
  assumes "\<forall>r \<in> set rs. rec_ok r" "apply_all app rs s = Some (None, s')" "readRecord tail = None"
  shows "replay_bytes app path (log_bytes rs @ tail) s = Some (length rs, length (log_bytes rs), None, s')"
  using replay_loop_good [OF assms(1,2), of tail 0 8] replay_loop_None [OF assms(3), of app "length rs"]
  by (simp add: replay_bytes_log length_log)

lemma readRecord_Nil [simp]: "readRecord [] = None"
  by (simp add: readRecord_def readFull_def)

section \<open>Properties of the log\<close>

text \<open>
  C32: What \<open>Append\<close> writes for a record, \<open>readRecord\<close> reads back, and it stops right behind it,
  whatever follows in the file. For that the payload must not be longer than \<open>maxPayloadLen\<close>, a limit
  that \<open>encode\<close> does not check: a longer record is written without complaint and never read.
\<close>

theorem encode_readRecord:
  assumes "encodable r" "21 + length (r_Vector r) * 4 < 2 ^ 32"
  shows "\<exists>buf. encode r = Inr buf \<and> length buf = 29 + length (r_Vector r) * 4 \<and>
    readRecord (buf @ rest) =
      (if 21 + length (r_Vector r) * 4 \<le> maxPayloadLen then Some (r, length buf, rest) else None)"
  using assms encode_encodable [OF assms(1)] readRecord_encode [of r rest] readRecord_oversize [of r rest]
  by (simp add: rec_ok_def)

definition ex_add :: wal_record where
  "ex_add = \<lparr>r_Op = OpAdd, r_ClientID = 1, r_Label = 7, r_Vector = [1, 1]\<rparr>"
definition ex_del :: wal_record where
  "ex_del = \<lparr>r_Op = OpMarkDeleted, r_ClientID = 1, r_Label = 7, r_Vector = []\<rparr>"

lemma ex_recs_ok: "rec_ok ex_add" "rec_ok ex_del"
  by (simp_all add: rec_ok_def encodable_def ex_add_def ex_del_def ops_defs maxPayloadLen_def)

theorem encode_readRecord_witness: "\<exists>buf. encode ex_add = Inr buf \<and> readRecord (buf @ [9]) = Some (ex_add, length buf, [9])"
  using encode_readRecord [of ex_add "[9]"] ex_recs_ok(1) by (auto simp: rec_ok_def ex_add_def)

text \<open>
  C16: Replay after a crash. A log that ends in a torn record, cut anywhere, replays as the sequence of the
  complete records: each is applied once and in order, and the offset where the next record must go is
  the end of the last complete one. If applying a record fails, the error is passed on.
\<close>

theorem replay_torn_log:
  assumes "\<forall>x \<in> set rs. rec_ok x" "rec_ok r" "k < length (rec_bytes r)" "apply_all app rs s = Some (res, s')"
  shows "case res of
      None \<Rightarrow> replay_bytes app path (log_bytes rs @ take k (rec_bytes r)) s = Some (length rs, length (log_bytes rs), None, s')
    | Some e \<Rightarrow> \<exists>n off msg. replay_bytes app path (log_bytes rs @ take k (rec_bytes r)) s = Some (n, off, Some (Wrap msg e), s')"
  using assms replay_log [OF assms(1) _ readRecord_torn [OF assms(2,3)], of app s s' path]
    replay_loop_error [OF assms(1), of app s _ s' "take k (rec_bytes r)" 0 8]
  by (auto simp: replay_bytes_log split: option.split)

theorem replay_torn_log_witness:
  "replay_bytes (\<lambda>r s. Some (None, s @ [r_Op r])) ''wal'' (log_bytes [ex_add, ex_del] @ take 28 (rec_bytes ex_del)) [] =
     Some (2, length (log_bytes [ex_add, ex_del]), None, [OpAdd, OpMarkDeleted])"
proof -
  have "apply_all (\<lambda>r s. Some (None, s @ [r_Op r])) [ex_add, ex_del] [] = Some (None, [OpAdd, OpMarkDeleted])"
    by (simp add: ex_add_def ex_del_def)
  from replay_torn_log [OF _ ex_recs_ok(2) _ this, of 28 "''wal''"] show ?thesis
    using ex_recs_ok by (simp add: ex_del_def)
qed

text \<open>
  C15: A record damaged in one byte of its payload or of its checksum is never applied: the CRC-32
  of two payloads that differ in one byte differ. Replay stops in front of it, and so also drops every
  record behind the damage.
\<close>

theorem replay_stops_at_damage:
  assumes "\<forall>x \<in> set rs. rec_ok x" "apply_all app rs s = Some (None, s')"
    and "rec_ok r" "4 \<le> i" "i < length (rec_bytes r)" "b \<noteq> rec_bytes r ! i"
  shows "replay_bytes app path (log_bytes rs @ (rec_bytes r)[i := b] @ rest) s = Some (length rs, length (log_bytes rs), None, s')"
  by (rule replay_log [OF assms(1,2) readRecord_damaged [OF assms(3-6)]])

theorem replay_stops_at_damage_witness:
  "\<exists>b. replay_bytes (\<lambda>r s. Some (None, Suc s)) ''wal'' (log_bytes [ex_add] @ (rec_bytes ex_del)[9 := b] @ rec_bytes ex_add) 0 =
     Some (1, length (log_bytes [ex_add]), None, 1)"
proof -
  obtain b where "b \<noteq> rec_bytes ex_del ! 9" by (metis zero_neq_one)
  moreover have "apply_all (\<lambda>r s. Some (None, Suc s)) [ex_add] 0 = Some (None, 1)" by simp
  ultimately show ?thesis
    using replay_stops_at_damage [of "[ex_add]" "\<lambda>r s. Some (None, Suc s)" 0 1 ex_del 9 b "''wal''" "rec_bytes ex_add"] ex_recs_ok
    by (auto simp: ex_del_def)
qed

text \<open>
  Any file at all, damaged in any way: what replay takes as the good part is at most the file,
  and replaying that part alone gives the same result, so that \<open>OpenForAppend\<close> can cut the rest off.
\<close>

lemma readRecord_take:
  assumes "readRecord bs = Some (r, n, rest)" "n \<le> m" shows "readRecord (take m bs) = Some (r, n, take (m - n) rest)"
proof -
  obtain p where p: "p = un_le (take 4 bs)" "n = 8 + p" using assms(1) by (auto simp: readRecord_Some)
  have "take 4 (take m bs) = take 4 bs" "take p (drop 4 (take m bs)) = take p (drop 4 bs)"
    "take 4 (drop (4 + p) (take m bs)) = take 4 (drop (4 + p) bs)" "drop (8 + p) (take m bs) = take (m - n) (drop (8 + p) bs)"
    using p(2) assms(2) by (simp_all add: min_def drop_take)
  then show ?thesis using assms p unfolding readRecord_Some by (metis length_take min.bounded_iff)
qed

lemma replay_loop_cut:
  assumes "replay_loop app bs n off s = Some (k, off', None, s')"
  shows "off \<le> off' \<and> off' \<le> off + length bs \<and> replay_loop app (take (off' - off) bs) n off s = Some (k, off', None, s')"
  using assms
proof (induction app bs n off s rule: replay_loop.induct)
  case (1 app bs n off s)
  show ?case
  proof (cases "readRecord bs")
    case None
    then show ?thesis using 1(2) by (simp add: replay_loop_None)
  next
    case (Some p)
    obtain r m rest where p: "p = (r, m, rest)" by (cases p)
    then have rd: "readRecord bs = Some (r, m, rest)" using Some by simp
    obtain s1 where a: "app r s = Some (None, s1)" and l: "replay_loop app rest (n + 1) (off + m) s1 = Some (k, off', None, s')"
      using 1(2) rd by (subst (asm) replay_loop.simps) (auto split: option.splits)
    note sh = readRecord_shrinks [OF rd]
    have ih: "off + m \<le> off'" "off' \<le> off + m + length rest"
      "replay_loop app (take (off' - (off + m)) rest) (n + 1) (off + m) s1 = Some (k, off', None, s')"
      using 1(1) [OF rd refl refl a refl refl l] by auto
    have "readRecord (take (off' - off) bs) = Some (r, m, take (off' - (off + m)) rest)"
      using readRecord_take [OF rd, of "off' - off"] ih(1) by simp
    moreover have "length rest = length bs - m" using sh(3) by simp
    ultimately show ?thesis using ih sh(2) a by (subst replay_loop.simps) simp
  qed
qed

text \<open>
  C33: Any file, damaged in any way. If replay succeeds, the offset it reports lies in the file, and
  replaying the file cut there gives the same result: \<open>OpenForAppend\<close>, which cuts it, loses nothing
  that was replayed, and a second recovery applies the same records.
\<close>

theorem replay_then_truncate:
  assumes "replay_bytes app path bs s = Some (n, lastGood, None, s')"
  shows "headerSize \<le> lastGood \<and> lastGood \<le> length bs \<and>
    replay_bytes app path (take lastGood bs) s = Some (n, lastGood, None, s')"
proof -
  have h: "8 \<le> length bs" "un_le (take 4 (take 8 bs)) = wal_magic" "un_le (drop 4 (take 8 bs)) = wal_version"
    and l: "replay_loop app (drop 8 bs) 0 8 s = Some (n, lastGood, None, s')"
    using assms by (auto simp: replay_bytes_def readFull_def headerSize_def split: if_splits)
  have c: "8 \<le> lastGood" "lastGood \<le> length bs" "replay_loop app (take (lastGood - 8) (drop 8 bs)) 0 8 s = Some (n, lastGood, None, s')"
    using replay_loop_cut [OF l] h(1) by auto
  have "take 8 (take lastGood bs) = take 8 bs" "drop 8 (take lastGood bs) = take (lastGood - 8) (drop 8 bs)"
    using c(1) by (simp_all add: drop_take min_def)
  then show ?thesis using h c by (simp add: replay_bytes_def readFull_def headerSize_def)
qed

theorem replay_then_truncate_witness:
  "\<exists>n. replay_bytes (\<lambda>r s. Some (None, Suc s)) ''wal'' (take n (log_bytes [ex_add, ex_del] @ [1, 2, 3])) 0 = Some (2, n, None, 2)"
proof -
  have "apply_all (\<lambda>r s. Some (None, Suc s)) [ex_add, ex_del] 0 = Some (None, 2)" by simp
  then have "replay_bytes (\<lambda>r s. Some (None, Suc s)) ''wal'' (log_bytes [ex_add, ex_del] @ [1, 2, 3]) 0 =
      Some (2, length (log_bytes [ex_add, ex_del]), None, 2)"
    using replay_log [of "[ex_add, ex_del]" "\<lambda>r s. Some (None, Suc s)" 0 2 "[1, 2, 3]" "''wal''"] ex_recs_ok
    by (simp add: readRecord_def readFull_def)
  from replay_then_truncate [OF this] show ?thesis by blast
qed

end
