(* ===== verification/Go_Hnsw.thy ===== *)
theory Go_Hnsw
  imports Go_Os
begin

text \<open>
  The Go binding of the C interface, \<open>src/go/hnsw/hnsw.go\<close>: an index is the pointer the C library
  returned and the dimension. The result of a method that panics is \<open>None\<close>, like that of undefined behaviour below.
  A key (\<open>hnsw.Key\<close>) has the two fields of a C++ label and is one.

  The main result is what the methods do to the store of the index behind the pointer, with the error
  value they return (\<open>add_spec\<close>, \<open>mark_spec\<close>).
\<close>

section \<open>The binding\<close>

record go_index =
  gi_ptr :: nat
  gi_dim :: int

definition size_t :: "int \<Rightarrow> nat" where "size_t x = nat (x mod 2 ^ 64)"
definition c_int :: "int \<Rightarrow> int" where "c_int x = to_i32 (nat (x mod 2 ^ 32))"

definition itoa :: "int \<Rightarrow> string" where
  "itoa x = (if x < 0 then ''-'' @ to_string (nat (- x)) else to_string (nat x))"

definition lastError :: "c_state \<Rightarrow> go_error" where
  "lastError c = (let msg = hnsw_last_error c in if msg = '''' then Errorf ''hnsw: unknown error'' else Errorf (''hnsw: '' @ msg))"

definition go_New :: "int \<Rightarrow> int \<Rightarrow> int \<Rightarrow> int \<Rightarrow> int \<Rightarrow> world \<Rightarrow> (go_error + go_index) \<times> world" where
  "go_New space dim maxElements m efConstruction w =
     (case hnsw_new (wd_avx w) (wd_c w) (c_int space) (size_t dim) (size_t maxElements) (size_t m) (size_t efConstruction) of
        (ptr, c) \<Rightarrow> let w' = w\<lparr>wd_c := c\<rparr>
          in if ptr = 0 then (Inl (lastError c), w') else (Inr \<lparr>gi_ptr = ptr, gi_dim = dim\<rparr>, w'))"

definition go_Close :: "go_index \<Rightarrow> world \<Rightarrow> (go_index \<times> world) option" where
  "go_Close g w =
     (if gi_ptr g = 0 then Some (g, w)
      else map_option (\<lambda>c. (g\<lparr>gi_ptr := 0\<rparr>, w\<lparr>wd_c := c\<rparr>)) (hnsw_free (wd_c w) (gi_ptr g)))"

text \<open>
  \<open>addPoint\<close> draws a level: the next one of \<open>wd_levels\<close>. \<open>&vec[0]\<close> of an empty slice panics.
\<close>

definition go_Add :: "go_index \<Rightarrow> f32 list \<Rightarrow> label \<Rightarrow> world \<Rightarrow> (go_error option \<times> world) option" where
  "go_Add g v key w =
     (if int (length v) \<noteq> gi_dim g
      then Some (Some (Errorf (''hnsw: expected '' @ itoa (gi_dim g) @ '' dims, got '' @ to_string (length v))), w)
      else if v = [] then None
      else case hnsw_add (wd_c w) (gi_ptr g) (Some v) (clientId key) (label_no key) (wd_levels w 0) of None \<Rightarrow> None
        | Some (rc, c) \<Rightarrow>
            Some (if rc = HNSW_OK then None
                  else if rc = HNSW_ERR_DUPLICATE then Some ErrDuplicateLabel
                  else if rc = HNSW_ERR_FULL then Some ErrFull
                  else Some (lastError c), w\<lparr>wd_c := c, wd_levels := \<lambda>n. wd_levels w (Suc n)\<rparr>))"

definition go_Search :: "go_index \<Rightarrow> f32 list \<Rightarrow> int \<Rightarrow> int \<Rightarrow> world \<Rightarrow> ((go_error + (label \<times> f32) list) \<times> world) option" where
  "go_Search g q k ef w =
     (if int (length q) \<noteq> gi_dim g
      then Some (Inl (Errorf (''hnsw: expected '' @ itoa (gi_dim g) @ '' dims, got '' @ to_string (length q))), w)
      else if k \<le> 0 \<or> q = [] then None
      else let ef' = (if ef < k then k else ef)
        in case hnsw_search (wd_c w) (gi_ptr g) (Some q) (size_t k) (size_t ef') (Some (replicate (nat k) 0))
                  (Some (replicate (nat k) 0)) (Some (replicate (nat k) 0)) of None \<Rightarrow> None
           | Some (n, out, c) \<Rightarrow>
               let w' = w\<lparr>wd_c := c\<rparr>
               in if n < 0 then Some (Inl (lastError c), w')
                  else case out of None \<Rightarrow> Some (Inr [], w')
                    | Some b \<Rightarrow> Some (Inr (map (\<lambda>j. (Label (out_client_ids b ! j) (out_labels b ! j), out_distances b ! j)) [0..<nat n]), w'))"

definition go_MarkDeleted :: "go_index \<Rightarrow> label \<Rightarrow> world \<Rightarrow> (go_error option \<times> world) option" where
  "go_MarkDeleted g key w =
     map_option (\<lambda>(rc, c). (if rc = HNSW_OK then None else if rc = HNSW_ERR_NOT_FOUND then Some ErrNotFound else Some (lastError c),
       w\<lparr>wd_c := c\<rparr>)) (hnsw_mark_deleted (wd_c w) (gi_ptr g) (clientId key) (label_no key))"

definition go_UnmarkDeleted :: "go_index \<Rightarrow> label \<Rightarrow> world \<Rightarrow> (go_error option \<times> world) option" where
  "go_UnmarkDeleted g key w =
     map_option (\<lambda>(rc, c). (if rc = HNSW_OK then None else if rc = HNSW_ERR_NOT_FOUND then Some ErrNotFound else Some (lastError c),
       w\<lparr>wd_c := c\<rparr>)) (hnsw_unmark_deleted (wd_c w) (gi_ptr g) (clientId key) (label_no key))"

text \<open>The file passes through all prefixes of what it holds in the end.\<close>

definition go_Save :: "go_index \<Rightarrow> string \<Rightarrow> device \<Rightarrow> world \<Rightarrow> (go_error option \<times> world) option" where
  "go_Save g path dev w =
     (case hnsw_save (wd_c w) (gi_ptr g) (Some path) dev of None \<Rightarrow> None
      | Some (rc, c) \<Rightarrow>
          let states = (if dev_opens dev then growing (disk_of w) path [] (the (cs_files c path)) else [])
          in Some (if rc = HNSW_OK then None else Some (lastError c), w\<lparr>wd_c := c, wd_trace := wd_trace w @ states\<rparr>))"

definition go_Load :: "string \<Rightarrow> world \<Rightarrow> ((go_error + go_index) \<times> world) option" where
  "go_Load path w =
     (case hnsw_load (wd_avx w) (wd_junk w) (wd_c w) (Some path) of None \<Rightarrow> None
      | Some (ptr, c) \<Rightarrow>
          let w' = w\<lparr>wd_c := c\<rparr>
          in if ptr = 0 then Some (Inl (lastError c), w')
             else map_option (\<lambda>d. (Inr \<lparr>gi_ptr = ptr, gi_dim = int d\<rparr>, w')) (hnsw_dim c ptr))"

definition go_Len :: "go_index \<Rightarrow> world \<Rightarrow> nat option" where "go_Len g w = hnsw_size (wd_c w) (gi_ptr g)"
definition go_ActiveLen :: "go_index \<Rightarrow> world \<Rightarrow> nat option" where "go_ActiveLen g w = hnsw_active_size (wd_c w) (gi_ptr g)"
definition go_Capacity :: "go_index \<Rightarrow> world \<Rightarrow> nat option" where "go_Capacity g w = hnsw_capacity (wd_c w) (gi_ptr g)"

section \<open>What the methods do\<close>

definition add_spec :: "index \<Rightarrow> f32 list \<Rightarrow> label \<Rightarrow> store \<Rightarrow> go_error option \<times> store" where
  "add_spec ix v key s =
     (if s key \<noteq> None then (Some ErrDuplicateLabel, s)
      else if card (dom s) = ix_maxElements ix then (Some ErrFull, s)
      else (None, s(key \<mapsto> (query_vec ix v, False))))"

definition mark_spec :: "bool \<Rightarrow> label \<Rightarrow> store \<Rightarrow> go_error option \<times> store" where
  "mark_spec d key s = (case spec_mark d s key of (ok, s') \<Rightarrow> (if ok then None else Some ErrNotFound, s'))"

text \<open>The pointer of \<open>g\<close> is live and leads to the index \<open>ix\<close>.\<close>

definition go_live :: "world \<Rightarrow> go_index \<Rightarrow> index \<Rightarrow> bool" where
  "go_live w g ix \<longleftrightarrow> cs_objs (wd_c w) (gi_ptr g) = Some ix \<and> 0 < gi_ptr g \<and> wf_ix ix \<and> typed ix \<and> gi_dim g = int (ix_dim ix) \<and>
     (\<forall>n. 0 \<le> wd_levels w n \<and> wd_levels w n \<le> 2 ^ 24) \<and> 0 < cs_next (wd_c w)"

text \<open>A call that touches nothing but the C heap.\<close>

definition go_quiet :: "world \<Rightarrow> world \<Rightarrow> bool" where
  "go_quiet w w' \<longleftrightarrow> disk_of w' = disk_of w \<and> wd_plan w' = wd_plan w \<and> wd_trace w' = wd_trace w \<and>
     wd_avx w' = wd_avx w \<and> wd_junk w' = wd_junk w"

lemma go_quiet_refl [simp]: "go_quiet w w"
  by (simp add: go_quiet_def)

lemma go_quiet_trans: "go_quiet w w' \<Longrightarrow> go_quiet w' w'' \<Longrightarrow> go_quiet w w''"
  by (simp add: go_quiet_def)

definition refines :: "world \<Rightarrow> go_index \<Rightarrow> index \<Rightarrow> (go_error option \<times> world) option \<Rightarrow> go_error option \<times> store \<Rightarrow> bool" where
  "refines w g ix call res \<longleftrightarrow> (\<exists>w' ix'. call = Some (fst res, w') \<and> go_live w' g ix' \<and> config ix' = config ix \<and>
     abs_ix ix' = snd res \<and> go_quiet w w')"

lemma label_eta [simp]: "Label (clientId key) (label_no key) = key"
  by (simp add: Label_def)

lemma live_dim: "go_live w g ix \<Longrightarrow> 0 < ix_dim ix"
  by (simp add: go_live_def wf_ix_def shape_def)

lemma go_Add_refines:
  assumes l: "go_live w g ix" and v: "length v = ix_dim ix"
  shows "refines w g ix (go_Add g v key w) (add_spec ix v key (abs_ix ix))"
proof -
  have w: "wf_ix ix" "typed ix" "cs_objs (wd_c w) (gi_ptr g) = Some ix" "0 < gi_ptr g" "0 \<le> wd_levels w 0" "wd_levels w 0 \<le> 2 ^ 24"
    using l by (auto simp: go_live_def)
  let ?add = "addPoint ix v key (wd_levels w 0)"
  obtain r ix' where s: "step_op ix (Add v key (wd_levels w 0)) = Some (r, ix')" "wf_ix ix'" "typed ix'" "config ix' = config ix"
    using op_keeps [OF w(1,2), of "Add v key (wd_levels w 0)"] w(5,6) v by auto
  have none: "ix_labelToId ix key = None" if "abs_ix ix key = None" using that by (simp add: abs_ix_def)
  define e where "e = fst (add_spec ix v key (abs_ix ix))"
  have a: "\<exists>r. ?add = Some (r, ix') \<and> abs_ix ix' = snd (add_spec ix v key (abs_ix ix)) \<and>
    (case r of Inr _ \<Rightarrow> e = None | Inl x \<Rightarrow> e = Some (if contains ''full'' (what x) then ErrFull else ErrDuplicateLabel) \<and>
      (contains ''full'' (what x) \<or> contains ''duplicate'' (what x)))"
  proof (cases "abs_ix ix key")
    case (Some p)
    then show ?thesis using addPoint_duplicate [of ix key v "wd_levels w 0"] s(1) by (auto simp: step_op_def add_spec_def e_def)
  next
    case None
    show ?thesis
    proof (cases "ix_count ix = ix_maxElements ix")
      case True
      then show ?thesis using addPoint_full [OF w(1) None True, of v "wd_levels w 0"] s(1) None card_dom_abs [OF w(1)]
        by (auto simp: step_op_def add_spec_def e_def)
    next
      case False
      then have "ix_count ix < ix_maxElements ix" using count_capacity [OF w(1)] by simp
      then show ?thesis
        using addPoint_ok [OF w(1) none [OF None] _ _ w(5), of v] v s(1) None False card_dom_abs [OF w(1)]
        by (auto simp: step_op_def add_spec_def e_def)
    qed
  qed
  then obtain r where r: "?add = Some (r, ix')" "abs_ix ix' = snd (add_spec ix v key (abs_ix ix))"
    "case r of Inr _ \<Rightarrow> e = None | Inl x \<Rightarrow> e = Some (if contains ''full'' (what x) then ErrFull else ErrDuplicateLabel) \<and>
      (contains ''full'' (what x) \<or> contains ''duplicate'' (what x))" by blast
  have c: "call_on (wd_c w) (gi_ptr g) (\<lambda>ix. addPoint ix v key (wd_levels w 0)) =
      Some (r, (wd_c w)\<lparr>cs_objs := (cs_objs (wd_c w))(gi_ptr g \<mapsto> ix')\<rparr>)"
    using r(1) w(3) by (simp add: call_on_def cast_def)
  have d: "gi_dim g = int (length v)" "v \<noteq> []" using l v live_dim [OF l] by (auto simp: go_live_def)
  show ?thesis
    unfolding refines_def e_def [symmetric]
    using r(2,3) c d w(4) s(2-4) l config_cong(1) [OF s(4)]
    by (cases r) (auto simp: go_Add_def hnsw_add_def codes go_live_def go_quiet_def)
qed

lemma go_mark_refines:
  assumes l: "go_live w g ix"
  shows "refines w g ix (go_MarkDeleted g key w) (mark_spec True key (abs_ix ix))"
    "refines w g ix (go_UnmarkDeleted g key w) (mark_spec False key (abs_ix ix))"
proof -
  have w: "wf_ix ix" "typed ix" "cs_objs (wd_c w) (gi_ptr g) = Some ix" "0 < gi_ptr g" using l by (auto simp: go_live_def)
  obtain b1 ix1 where 1: "markDeleted ix key = Some (b1, ix1)" "wf_ix ix1" "typed ix1" "config ix1 = config ix"
    "(b1, abs_ix ix1) = spec_mark True (abs_ix ix) key"
    using markDeleted_ok [OF w(1), of key] op_keeps [OF w(1,2), of "Mark key"] by (fastforce simp: step_op_def)
  obtain b2 ix2 where 2: "unmarkDeleted ix key = Some (b2, ix2)" "wf_ix ix2" "typed ix2" "config ix2 = config ix"
    "(b2, abs_ix ix2) = spec_mark False (abs_ix ix) key"
    using unmarkDeleted_ok [OF w(1), of key] op_keeps [OF w(1,2), of "Unmark key"] by (fastforce simp: step_op_def)
  show "refines w g ix (go_MarkDeleted g key w) (mark_spec True key (abs_ix ix))"
    using 1 w l config_cong(1) [OF 1(4)] by (cases b1)
      (auto simp: refines_def go_MarkDeleted_def hnsw_mark_deleted_def call_on_def cast_def mark_spec_def codes go_live_def go_quiet_def
        simp flip: 1(5))
  show "refines w g ix (go_UnmarkDeleted g key w) (mark_spec False key (abs_ix ix))"
    using 2 w l config_cong(1) [OF 2(4)] by (cases b2)
      (auto simp: refines_def go_UnmarkDeleted_def hnsw_unmark_deleted_def call_on_def cast_def mark_spec_def codes go_live_def go_quiet_def
        simp flip: 2(5))
qed

lemma go_Search_ok:
  assumes l: "go_live w g ix" and q: "length q = ix_dim ix" and k: "0 < k" "k < 2 ^ 31" "0 \<le> ef" "ef < 2 ^ 63"
  shows "\<exists>res p w'. search ix q (nat k) (nat (max ef k)) = Some (res, ix\<lparr>ix_visitedPool := p\<rparr>) \<and> answers_ok ix (query_vec ix q) (nat k) res \<and>
    go_Search g q k ef w = Some (Inr (map (\<lambda>r. (sr_label r, sr_distance r)) res), w') \<and>
    go_live w' g (ix\<lparr>ix_visitedPool := p\<rparr>) \<and> go_quiet w w'"
proof -
  have w: "wf_ix ix" "typed ix" "cs_objs (wd_c w) (gi_ptr g) = Some ix" "0 < gi_ptr g" using l by (auto simp: go_live_def)
  obtain res p where s: "search ix q (nat k) (nat (max ef k)) = Some (res, ix\<lparr>ix_visitedPool := p\<rparr>)" "wf_ix (ix\<lparr>ix_visitedPool := p\<rparr>)"
    "answers_ok ix (query_vec ix q) (nat k) res"
    using search_spec [OF w(1), of q "nat k" "nat (max ef k)"] q by auto
  let ?s' = "(wd_c w)\<lparr>cs_objs := (cs_objs (wd_c w))(gi_ptr g \<mapsto> ix\<lparr>ix_visitedPool := p\<rparr>)\<rparr>" and ?b = "replicate (nat k) 0"
  let ?out = "\<lparr>out_client_ids = map (clientId \<circ> sr_label) res @ drop (length res) ?b,
    out_labels = map (label_no \<circ> sr_label) res @ drop (length res) ?b, out_distances = map sr_distance res @ drop (length res) ?b\<rparr>"
  have n: "length res \<le> nat k" using s(3) by (simp add: answers_ok_def)
  then have i: "to_i32 (length res mod 2 ^ 32) = int (length res)" using k by (simp add: to_i32_def)
  have z: "size_t k = nat k" "size_t (if ef < k then k else ef) = nat (max ef k)" using k by (auto simp: size_t_def max_def)
  have "call_on (wd_c w) (gi_ptr g) (\<lambda>ix. search ix q (nat k) (nat (max ef k))) = Some (res, ?s')"
    using s(1) w(3) by (simp add: call_on_def cast_def)
  then have h: "hnsw_search (wd_c w) (gi_ptr g) (Some q) (size_t k) (size_t (if ef < k then k else ef)) (Some ?b) (Some ?b) (Some ?b) =
      Some (int (length res), Some ?out, ?s')"
    using w(4) n i put_results [of res "\<lparr>out_client_ids = ?b, out_labels = ?b, out_distances = ?b\<rparr>"] by (simp add: hnsw_search_def z)
  have "map (\<lambda>j. (Label (out_client_ids ?out ! j) (out_labels ?out ! j), out_distances ?out ! j)) [0..<length res] =
      map (\<lambda>r. (sr_label r, sr_distance r)) res"
    by (rule nth_equalityI) (simp_all add: nth_append)
  moreover have "q \<noteq> []" "int (length q) = gi_dim g" using q l live_dim [OF l] by (auto simp: go_live_def)
  ultimately have "go_Search g q k ef w = Some (Inr (map (\<lambda>r. (sr_label r, sr_distance r)) res), w\<lparr>wd_c := ?s'\<rparr>)"
    using h k(1) by (simp add: go_Search_def Let_def)
  moreover have "go_live (w\<lparr>wd_c := ?s'\<rparr>) g (ix\<lparr>ix_visitedPool := p\<rparr>)" "go_quiet w (w\<lparr>wd_c := ?s'\<rparr>)"
    using l s(2) typed_cong(1) [OF w(2)] by (auto simp: go_live_def go_quiet_def)
  ultimately show ?thesis using s(1,3) by blast
qed

end
