(* ===== verification/Durable.thy ===== *)
theory Durable
  imports Wal Go_Hnsw
begin

text \<open>
  The durable index of \<open>src/go/durable/durable.go\<close>: an index in memory, a write-ahead log of the
  operations since the last snapshot, and the snapshot. Every operation is logged before it is applied;
  \<open>Open\<close> loads the snapshot and replays the log; \<open>Snapshot\<close> writes the snapshot under a temporary
  name, renames it, and rotates the log the same way.

  The operations here are those of one thread; the writers hold a read lock, and \<open>Durable_Writers\<close> lets them
  interleave. A method that panics, or runs into undefined behaviour below, is \<open>None\<close>.
\<close>

section \<open>The code\<close>

text \<open>The seed of the level generator is left out: the levels are those of \<open>wd_levels\<close>.\<close>

record d_config =
  SnapshotPath :: string
  WALPath :: string
  cf_Space :: int
  cf_Dim :: int
  cf_MaxElements :: int
  cf_M :: int
  cf_EfConstruction :: int

record durable =
  d_idx :: go_index
  d_w :: wal
  d_cfg :: d_config

text \<open>An error that wraps \<open>t\<close> counts as none.\<close>

definition ignoring :: "go_error \<Rightarrow> go_error option \<Rightarrow> go_error option" where
  "ignoring t e = (case e of None \<Rightarrow> None | Some x \<Rightarrow> if errors_Is x t then None else Some x)"

definition apply_record :: "go_index \<Rightarrow> wal_record \<Rightarrow> world \<Rightarrow> (go_error option \<times> world) option" where
  "apply_record g r w =
     (let key = Label (r_ClientID r) (r_Label r) in
      if r_Op r = OpAdd then map_option (map_prod (ignoring ErrDuplicateLabel) id) (go_Add g (r_Vector r) key w)
      else if r_Op r = OpMarkDeleted then map_option (map_prod (ignoring ErrNotFound) id) (go_MarkDeleted g key w)
      else if r_Op r = OpUnmarkDeleted then map_option (map_prod (ignoring ErrNotFound) id) (go_UnmarkDeleted g key w)
      else Some (Some (Errorf (''durable: unknown WAL op '' @ to_string (unat (r_Op r)))), w))"

definition loadOrCreateIndex :: "d_config \<Rightarrow> world \<Rightarrow> ((go_error + go_index) \<times> world) option" where
  "loadOrCreateIndex cfg w =
     (case os_stat (SnapshotPath cfg) w of
        (None, w1) \<Rightarrow> (case go_Load (SnapshotPath cfg) w1 of None \<Rightarrow> None
          | Some (Inl e, w2) \<Rightarrow> Some (Inl (Wrap (''durable: loading snapshot '' @ SnapshotPath cfg @ '': '') e), w2)
          | Some (Inr g, w2) \<Rightarrow> Some (Inr g, w2))
      | (Some e, w1) \<Rightarrow>
          if e \<noteq> Os_not_exist then Some (Inl (Wrap (''durable: checking snapshot '' @ SnapshotPath cfg @ '': '') e), w1)
          else (case go_New (cf_Space cfg) (cf_Dim cfg) (cf_MaxElements cfg) (cf_M cfg) (cf_EfConstruction cfg) w1 of
              (Inl e, w2) \<Rightarrow> Some (Inl (Wrap ''durable: creating fresh index: '' e), w2)
            | (Inr g, w2) \<Rightarrow> Some (Inr g, w2)))"

definition reopenWAL :: "string \<Rightarrow> int \<Rightarrow> world \<Rightarrow> (go_error + wal) \<times> world" where
  "reopenWAL path lastGoodOffset w =
     (case os_stat path w of
        (None, w1) \<Rightarrow> (case OpenForAppend path lastGoodOffset w1 of
            (Inl e, w2) \<Rightarrow> (Inl (Wrap (''durable: reopening WAL '' @ path @ '': '') e), w2)
          | (Inr lg, w2) \<Rightarrow> (Inr lg, w2))
      | (Some e, w1) \<Rightarrow>
          if e \<noteq> Os_not_exist then (Inl (Wrap (''durable: checking WAL '' @ path @ '': '') e), w1)
          else (case Create path w1 of
              (Inl e, w2) \<Rightarrow> (Inl (Wrap (''durable: creating WAL '' @ path @ '': '') e), w2)
            | (Inr lg, w2) \<Rightarrow> (Inr lg, w2)))"

definition Open :: "d_config \<Rightarrow> world \<Rightarrow> ((go_error + durable) \<times> world) option" where
  "Open cfg w =
     (case loadOrCreateIndex cfg w of None \<Rightarrow> None
      | Some (Inl e, w1) \<Rightarrow> Some (Inl e, w1)
      | Some (Inr g, w1) \<Rightarrow>
          (case Replay (apply_record g) (WALPath cfg) w1 of None \<Rightarrow> None
           | Some (applied, lastGood, Some e, w2) \<Rightarrow> Some (Inl (Wrap ''durable: replaying WAL: '' e), w2)
           | Some (applied, lastGood, None, w2) \<Rightarrow>
               (case reopenWAL (WALPath cfg) (int lastGood) w2 of
                  (Inl e, w3) \<Rightarrow> Some (Inl e, w3)
                | (Inr lg, w3) \<Rightarrow> Some (Inr \<lparr>d_idx = g, d_w = lg, d_cfg = cfg\<rparr>, w3))))"

definition d_Add :: "durable \<Rightarrow> f32 list \<Rightarrow> label \<Rightarrow> world \<Rightarrow> (go_error option \<times> world) option" where
  "d_Add d v key w =
     (case Append (d_w d) \<lparr>r_Op = OpAdd, r_ClientID = clientId key, r_Label = label_no key, r_Vector = v\<rparr> w of
        (Some e, w1) \<Rightarrow> Some (Some (Wrap ''durable: wal append: '' e), w1)
      | (None, w1) \<Rightarrow>
          map_option (map_prod (map_option (Wrap ''durable: index add (already logged to WAL): '')) id) (go_Add (d_idx d) v key w1))"

definition d_MarkDeleted :: "durable \<Rightarrow> label \<Rightarrow> world \<Rightarrow> (go_error option \<times> world) option" where
  "d_MarkDeleted d key w =
     (case Append (d_w d) \<lparr>r_Op = OpMarkDeleted, r_ClientID = clientId key, r_Label = label_no key, r_Vector = []\<rparr> w of
        (Some e, w1) \<Rightarrow> Some (Some (Wrap ''durable: wal append: '' e), w1)
      | (None, w1) \<Rightarrow> go_MarkDeleted (d_idx d) key w1)"

definition d_UnmarkDeleted :: "durable \<Rightarrow> label \<Rightarrow> world \<Rightarrow> (go_error option \<times> world) option" where
  "d_UnmarkDeleted d key w =
     (case Append (d_w d) \<lparr>r_Op = OpUnmarkDeleted, r_ClientID = clientId key, r_Label = label_no key, r_Vector = []\<rparr> w of
        (Some e, w1) \<Rightarrow> Some (Some (Wrap ''durable: wal append: '' e), w1)
      | (None, w1) \<Rightarrow> go_UnmarkDeleted (d_idx d) key w1)"

definition d_Search :: "durable \<Rightarrow> f32 list \<Rightarrow> int \<Rightarrow> int \<Rightarrow> world \<Rightarrow> ((go_error + (label \<times> f32) list) \<times> world) option" where
  "d_Search d q k ef w = go_Search (d_idx d) q k ef w"

text \<open>The loop of \<open>renameWithRetry\<close>, \<open>n\<close> attempts and the error of the last one so far.\<close>

fun rename_attempts :: "nat \<Rightarrow> string \<Rightarrow> string \<Rightarrow> go_error option \<Rightarrow> world \<Rightarrow> go_error option \<times> world" where
  "rename_attempts 0 oldpath newpath err w = (err, w)"
| "rename_attempts (Suc n) oldpath newpath err w =
     (case os_rename oldpath newpath w of
        (None, w1) \<Rightarrow> (None, w1)
      | (Some e, w1) \<Rightarrow> rename_attempts n oldpath newpath (Some e) w1)"

definition renameWithRetry :: "string \<Rightarrow> string \<Rightarrow> world \<Rightarrow> go_error option \<times> world" where
  "renameWithRetry oldpath newpath w = rename_attempts 10 oldpath newpath None w"

definition rotateWAL :: "durable \<Rightarrow> world \<Rightarrow> go_error option \<times> durable \<times> world" where
  "rotateWAL d w =
     (let tmpWALPath = WALPath (d_cfg d) @ ''.new'' in
      case Create tmpWALPath w of (Inl e, w1) \<Rightarrow> (Some (Wrap ''durable: creating new WAL: '' e), d, w1)
      | (Inr newWAL, w1) \<Rightarrow>
        (case Close_wal (d_w d) w1 of (Some e, lg, w2) \<Rightarrow>
            (case Close_wal newWAL w2 of (_, _, w3) \<Rightarrow>
               (Some (Wrap ''durable: closing old WAL: '' e), d\<lparr>d_w := lg\<rparr>, snd (os_remove tmpWALPath w3)))
         | (None, lg, w2) \<Rightarrow>
           (case Close_wal newWAL w2 of (Some e, _, w3) \<Rightarrow>
               (Some (Wrap ''durable: closing new WAL: '' e), d\<lparr>d_w := lg\<rparr>, snd (os_remove tmpWALPath w3))
            | (None, _, w3) \<Rightarrow>
              (case renameWithRetry tmpWALPath (WALPath (d_cfg d)) w3 of (Some e, w4) \<Rightarrow>
                  (Some (Wrap ''durable: rotating WAL into place: '' e), d\<lparr>d_w := lg\<rparr>, w4)
               | (None, w4) \<Rightarrow>
                 (case OpenForAppend (WALPath (d_cfg d)) (- 1) w4 of (Inl e, w5) \<Rightarrow>
                     (Some (Wrap ''durable: reopening rotated WAL: '' e), d\<lparr>d_w := lg\<rparr>, w5)
                  | (Inr lg', w5) \<Rightarrow> (None, d\<lparr>d_w := lg'\<rparr>, w5))))))"

definition d_Snapshot :: "durable \<Rightarrow> device \<Rightarrow> world \<Rightarrow> (go_error option \<times> durable \<times> world) option" where
  "d_Snapshot d dev w =
     (let tmpSnapshot = SnapshotPath (d_cfg d) @ ''.tmp'' in
      case go_Save (d_idx d) tmpSnapshot dev w of None \<Rightarrow> None
      | Some (Some e, w1) \<Rightarrow> Some (Some (Wrap ''durable: saving snapshot: '' e), d, w1)
      | Some (None, w1) \<Rightarrow>
          (case renameWithRetry tmpSnapshot (SnapshotPath (d_cfg d)) w1 of
             (Some e, w2) \<Rightarrow> Some (Some (Wrap ''durable: renaming snapshot into place: '' e), d, w2)
           | (None, w2) \<Rightarrow> Some (rotateWAL d w2)))"

definition d_Close :: "durable \<Rightarrow> world \<Rightarrow> go_error option \<times> durable \<times> world" where
  "d_Close d w = (case Close_wal (d_w d) w of (e, lg, w1) \<Rightarrow> (e, d\<lparr>d_w := lg\<rparr>, w1))"

text \<open>The operations of a service, and a new process on a disk.\<close>

datatype d_op = D_Add "f32 list" label | D_Mark label | D_Unmark label | D_Snapshot device

definition d_step :: "durable \<Rightarrow> d_op \<Rightarrow> world \<Rightarrow> (go_error option \<times> durable \<times> world) option" where
  "d_step d opn w =
     (case opn of
        D_Add v key \<Rightarrow> map_option (\<lambda>(e, w'). (e, d, w')) (d_Add d v key w)
      | D_Mark key \<Rightarrow> map_option (\<lambda>(e, w'). (e, d, w')) (d_MarkDeleted d key w)
      | D_Unmark key \<Rightarrow> map_option (\<lambda>(e, w'). (e, d, w')) (d_UnmarkDeleted d key w)
      | D_Snapshot dev \<Rightarrow> d_Snapshot d dev w)"

definition boot :: "disk \<Rightarrow> (nat \<Rightarrow> int) \<Rightarrow> bool \<Rightarrow> (nat \<Rightarrow> nat) \<Rightarrow> world" where
  "boot dk levels avx junk =
     \<lparr>wd_c = c_init\<lparr>cs_files := dk\<rparr>, wd_trace = [], wd_plan = [], wd_levels = levels, wd_avx = avx, wd_junk = junk\<rparr>"

definition d_store :: "world \<Rightarrow> durable \<Rightarrow> store" where
  "d_store w d = cs_store (wd_c w) (gi_ptr (d_idx d))"

section \<open>What a log means\<close>

text \<open>
  A component that applies records, described by a function on an abstract state; \<open>rel\<close> relates the two
  states, and \<open>fine\<close> says which records the description covers.
\<close>

fun spec_all :: "(wal_record \<Rightarrow> 'a \<Rightarrow> go_error option \<times> 'a) \<Rightarrow> wal_record list \<Rightarrow> 'a \<Rightarrow> go_error option \<times> 'a" where
  "spec_all spec [] a = (None, a)"
| "spec_all spec (r # rs) a =
     (case spec r a of (None, a') \<Rightarrow> spec_all spec rs a' | (Some e, a') \<Rightarrow> (Some e, a'))"

locale log_client =
  fixes app :: "wal_record \<Rightarrow> 's \<Rightarrow> (go_error option \<times> 's) option"
    and spec :: "wal_record \<Rightarrow> 'a \<Rightarrow> go_error option \<times> 'a"
    and rel :: "'s \<Rightarrow> 'a \<Rightarrow> bool" and fine :: "wal_record \<Rightarrow> bool"
  assumes step: "rel s a \<Longrightarrow> fine r \<Longrightarrow> \<exists>s'. app r s = Some (fst (spec r a), s') \<and> rel s' (snd (spec r a))"
begin

lemma apply_all_spec:
  assumes "rel s a" "\<forall>r \<in> set rs. fine r"
  shows "\<exists>s'. apply_all app rs s = Some (fst (spec_all spec rs a), s') \<and> rel s' (snd (spec_all spec rs a))"
  using assms
proof (induction rs arbitrary: s a)
  case (Cons r rs)
  then obtain s1 where 1: "app r s = Some (fst (spec r a), s1)" "rel s1 (snd (spec r a))" using step [of s a r] by auto
  then show ?case using Cons.IH [OF 1(2)] Cons.prems(2) by (cases "fst (spec r a)") (auto simp: case_prod_unfold)
qed simp

lemma replay:
  assumes "rel s a" "\<forall>r \<in> set rs. fine r \<and> rec_ok r" "spec_all spec rs a = (res, a')" "readRecord tail = None"
  shows "case res of
      None \<Rightarrow> \<exists>s'. replay_bytes app path (log_bytes rs @ tail) s = Some (length rs, length (log_bytes rs), None, s') \<and> rel s' a'
    | Some e \<Rightarrow> \<exists>n off msg s'. replay_bytes app path (log_bytes rs @ tail) s = Some (n, off, Some (Wrap msg e), s')"
proof -
  have ok: "\<forall>r \<in> set rs. rec_ok r" "\<forall>r \<in> set rs. fine r" using assms(2) by auto
  obtain s' where "apply_all app rs s = Some (res, s')" "rel s' a'" using apply_all_spec [OF assms(1) ok(2)] assms(3) by auto
  then show ?thesis
    using replay_log [OF ok(1) _ assms(4), of app s s' path] replay_loop_error [OF ok(1), of app s _ s' tail 0 8]
    by (auto simp: replay_bytes_log split: option.split)
qed

end

definition r_key :: "wal_record \<Rightarrow> label" where
  "r_key r = Label (r_ClientID r) (r_Label r)"

text \<open>One record on the store of an index that is configured like \<open>c\<close>.\<close>

definition rec_spec :: "index \<Rightarrow> wal_record \<Rightarrow> store \<Rightarrow> go_error option \<times> store" where
  "rec_spec c r s =
     (if r_Op r = OpAdd then map_prod (ignoring ErrDuplicateLabel) id (add_spec c (r_Vector r) (r_key r) s)
      else map_prod (ignoring ErrNotFound) id (mark_spec (r_Op r = OpMarkDeleted) (r_key r) s))"

definition rec_fine :: "index \<Rightarrow> wal_record \<Rightarrow> bool" where
  "rec_fine c r \<longleftrightarrow> rec_ok r \<and> (r_Op r = OpAdd \<longrightarrow> length (r_Vector r) = ix_dim c)"

definition serves :: "world \<Rightarrow> go_index \<Rightarrow> index \<Rightarrow> world \<Rightarrow> store \<Rightarrow> bool" where
  "serves w0 g c w s \<longleftrightarrow> (\<exists>ix. go_live w g ix \<and> config ix = config c \<and> abs_ix ix = s) \<and> go_quiet w0 w"

lemma add_spec_cong:
  assumes "config ix = config c" shows "add_spec ix = add_spec c"
  by (simp add: fun_eq_iff add_spec_def config_cong(2) [OF assms] query_vec_cong [OF assms])

lemma refines_serves:
  assumes "refines w g ix call res" "config ix = config c" "go_quiet w0 w"
  shows "\<exists>w'. call = Some (fst res, w') \<and> serves w0 g c w' (snd res)"
  using assms(1,2) go_quiet_trans [OF assms(3)] by (auto simp: refines_def serves_def)

interpretation rep: log_client "apply_record g" "rec_spec c" "serves w0 g c" "rec_fine c" for g c w0
proof
  fix w s r assume s: "serves w0 g c w s" and r: "rec_fine c r"
  then obtain ix where l: "go_live w g ix" "config ix = config c" "abs_ix ix = s" "go_quiet w0 w" by (auto simp: serves_def)
  have op: "r_Op r = OpAdd \<and> length (r_Vector r) = ix_dim ix \<or> r_Op r = OpMarkDeleted \<or> r_Op r = OpUnmarkDeleted"
    using r config_cong(1) [OF l(2)] by (auto simp: rec_fine_def rec_ok_def encodable_def)
  have ne: "OpAdd \<noteq> OpMarkDeleted" "OpAdd \<noteq> OpUnmarkDeleted" "OpMarkDeleted \<noteq> OpUnmarkDeleted" by (simp_all add: ops_defs)
  consider (add) "r_Op r = OpAdd" "length (r_Vector r) = ix_dim ix" | (mark) "r_Op r = OpMarkDeleted" | (unmark) "r_Op r = OpUnmarkDeleted"
    using op by blast
  then show "\<exists>w'. apply_record g r w = Some (fst (rec_spec c r s), w') \<and> serves w0 g c w' (snd (rec_spec c r s))"
  proof cases
    case add
    then show ?thesis
      using refines_serves [OF go_Add_refines [OF l(1) add(2), of "r_key r"] l(2,4)]
      by (auto simp: apply_record_def rec_spec_def r_key_def l(3) add_spec_cong [OF l(2)])
  next
    case mark
    then show ?thesis
      using refines_serves [OF go_mark_refines(1) [OF l(1), of "r_key r"] l(2,4)] ne
      by (auto simp: apply_record_def rec_spec_def r_key_def l(3))
  next
    case unmark
    then show ?thesis
      using refines_serves [OF go_mark_refines(2) [OF l(1), of "r_key r"] l(2,4)] ne
      by (auto simp: apply_record_def rec_spec_def r_key_def l(3))
  qed
qed

end
