(* ===== verification/Durable_Recovery.thy ===== *)
theory Durable_Recovery
  imports Durable
begin

text \<open>
  Recovery of the durable index. A disk is described by the store it stands for (\<open>on_disk\<close>): a snapshot, or
  none, and a log whose replay over it gives that store, maybe with a torn record at the end.
  The result: a service that never lets its index overflow, and deletes only what is
  there, can be killed at any moment, and opening the disk it leaves gives
  the store before the interrupted operation or the one after it. Both conditions are needed, and so is
  that the file system does not fail: \<open>Durable_Faults\<close> shows what happens otherwise.
\<close>

section \<open>Replaying a log twice\<close>

text \<open>What a record, and a log, make of the tombstone \<open>d\<close> of the label \<open>l\<close>.\<close>

definition mark_flag :: "wal_record \<Rightarrow> label \<Rightarrow> bool \<Rightarrow> bool" where
  "mark_flag r l d = (if r_key r = l \<and> r_Op r = OpMarkDeleted then True
     else if r_key r = l \<and> r_Op r = OpUnmarkDeleted then False else d)"

definition flag_after :: "wal_record list \<Rightarrow> label \<Rightarrow> bool \<Rightarrow> bool" where
  "flag_after rs l d = foldl (\<lambda>d r. mark_flag r l d) d rs"

definition marked :: "wal_record list \<Rightarrow> store \<Rightarrow> store" where
  "marked rs s l = (case s l of None \<Rightarrow> None | Some (v, d) \<Rightarrow> Some (v, flag_after rs l d))"

text \<open>The store has all the labels of the log, and every tombstone is as the log left it.\<close>

definition settled :: "wal_record list \<Rightarrow> store \<Rightarrow> bool" where
  "settled rs st \<longleftrightarrow> r_key ` set rs \<subseteq> dom st \<and> marked rs st = st"

lemma ops_distinct [simp]: "OpAdd \<noteq> OpMarkDeleted" "OpAdd \<noteq> OpUnmarkDeleted" "OpMarkDeleted \<noteq> OpUnmarkDeleted"
  "OpMarkDeleted \<noteq> OpAdd" "OpUnmarkDeleted \<noteq> OpAdd" "OpUnmarkDeleted \<noteq> OpMarkDeleted"
  by (simp_all add: ops_defs)

lemma rec_fine_op: "rec_fine c r \<Longrightarrow> r_Op r = OpAdd \<or> r_Op r = OpMarkDeleted \<or> r_Op r = OpUnmarkDeleted"
  by (auto simp: rec_fine_def rec_ok_def encodable_def)

lemma flag_after_simps [simp]: "flag_after [] l d = d" "flag_after [r] l d = mark_flag r l d"
  "flag_after (rs @ [r]) l d = mark_flag r l (flag_after rs l d)"
  by (simp_all add: flag_after_def)

lemma marked_Nil [simp]: "marked [] s = s"
  by (auto simp: marked_def fun_eq_iff split: option.split)

lemma dom_marked [simp]: "dom (marked rs s) = dom s"
  by (auto simp: marked_def dom_def split: option.splits)

lemma marked_snoc: "marked (rs @ [r]) s = marked [r] (marked rs s)"
  by (auto simp: marked_def fun_eq_iff split: option.split)

lemma rec_spec_present:
  assumes "rec_fine c r" "r_key r \<in> dom s" shows "rec_spec c r s = (None, marked [r] s)"
proof -
  obtain v d where s: "s (r_key r) = Some (v, d)" using assms(2) by auto
  have e: "errors_Is ErrDuplicateLabel ErrDuplicateLabel" "errors_Is ErrNotFound ErrNotFound" by simp_all
  from rec_fine_op [OF assms(1)] show ?thesis
    using s by (elim disjE) (auto simp: rec_spec_def add_spec_def mark_spec_def spec_mark_def ignoring_def marked_def mark_flag_def
      fun_eq_iff split: option.split)
qed

lemma spec_all_snoc:
  "spec_all spec (rs @ [r]) a = (case spec_all spec rs a of (None, a') \<Rightarrow> spec r a' | (Some e, a') \<Rightarrow> (Some e, a'))"
proof (induction rs arbitrary: a)
  case (Cons x rs)
  then show ?case by (cases "spec x a"; cases "fst (spec x a)") auto
qed (auto split: option.split prod.split)

lemma spec_all_present:
  assumes "\<forall>r \<in> set rs. rec_fine c r" "r_key ` set rs \<subseteq> dom s"
  shows "spec_all (rec_spec c) rs s = (None, marked rs s)"
  using assms
proof (induction rs rule: rev_induct)
  case (snoc r rs)
  then show ?case using rec_spec_present [of c r "marked rs s"] by (simp add: spec_all_snoc marked_snoc [of rs])
qed simp

lemma settled_replay:
  assumes "settled rs st" "\<forall>r \<in> set rs. rec_fine c r" shows "spec_all (rec_spec c) rs st = (None, st)"
  using spec_all_present [OF assms(2), of st] assms(1) by (simp add: settled_def)

text \<open>A record that does not belong to a later label keeps the log settled.\<close>

lemma settled_present:
  assumes "settled rs st" "rec_fine c r" "r_key r \<in> dom st"
  shows "settled (rs @ [r]) (snd (rec_spec c r st))"
proof -
  have s: "r_key ` set rs \<subseteq> dom st" "marked rs st = st" using assms(1) by (auto simp: settled_def)
  have "marked (rs @ [r]) (marked [r] st) = marked [r] st"
  proof
    fix l
    have f: "flag_after rs l d = d" if "st l = Some (v, d)" for v d
      using fun_cong [OF s(2), of l] that by (simp add: marked_def)
    show "marked (rs @ [r]) (marked [r] st) l = marked [r] st l"
    proof (cases "st l")
      case (Some p)
      obtain v d where p: "p = (v, d)" by (cases p)
      show ?thesis using f [of v d] Some by (auto simp: marked_def mark_flag_def p)
    qed (simp add: marked_def)
  qed
  then show ?thesis using s(1) assms(3) by (simp add: settled_def rec_spec_present [OF assms(2,3)])
qed

lemma flag_after_other: "\<forall>x \<in> set rs. r_key x \<noteq> l \<Longrightarrow> flag_after rs l d = d"
  by (induction rs rule: rev_induct) (simp_all add: mark_flag_def)

lemma settled_insert:
  assumes "settled rs st" "r_Op r = OpAdd" "r_key r \<notin> dom st"
  shows "settled (rs @ [r]) (st(r_key r \<mapsto> (v, False)))"
proof -
  have s: "r_key ` set rs \<subseteq> dom st" "marked rs st = st" using assms(1) by (auto simp: settled_def)
  have "\<forall>x \<in> set rs. r_key x \<noteq> r_key r" using s(1) assms(3) by auto
  then have "flag_after rs (r_key r) d = d" for d by (rule flag_after_other)
  moreover have "marked rs st l = st l" for l using s(2) by simp
  ultimately have "marked (rs @ [r]) (st(r_key r \<mapsto> (v, False))) l = (st(r_key r \<mapsto> (v, False))) l" for l
  proof (cases "l = r_key r")
    case False
    then have "marked (rs @ [r]) (st(r_key r \<mapsto> (v, False))) l = marked rs st l"
      by (auto simp: marked_def mark_flag_def split: option.split)
    then show ?thesis using s(2) False by simp
  qed (use assms(2) in \<open>simp add: marked_def mark_flag_def\<close>)
  then have "marked (rs @ [r]) (st(r_key r \<mapsto> (v, False))) = st(r_key r \<mapsto> (v, False))" ..
  then show ?thesis using s(1) by (auto simp: settled_def)
qed

section \<open>What a disk stands for\<close>

definition paths_ok :: "d_config \<Rightarrow> bool" where
  "paths_ok cfg \<longleftrightarrow> SnapshotPath cfg \<noteq> WALPath cfg \<and> SnapshotPath cfg @ ''.tmp'' \<noteq> WALPath cfg \<and>
     WALPath cfg @ ''.new'' \<noteq> SnapshotPath cfg"

definition cfg_ok :: "d_config \<Rightarrow> bool" where
  "cfg_ok cfg \<longleftrightarrow> paths_ok cfg \<and> 0 < cf_Dim cfg \<and> 21 + cf_Dim cfg * 4 \<le> int maxPayloadLen \<and>
     0 < cf_MaxElements cfg \<and> cf_MaxElements cfg < 2 ^ 32 \<and> 0 < cf_M cfg \<and> cf_M cfg \<le> 128 \<and>
     0 \<le> cf_EfConstruction cfg \<and> cf_EfConstruction cfg < 2 ^ 63"

text \<open>The empty index of a configuration. It also stands for the configuration in the specifications.\<close>

definition fresh :: "bool \<Rightarrow> d_config \<Rightarrow> index" where
  "fresh avx cfg = projr (Index avx (if c_int (cf_Space cfg) = HNSW_SPACE_L2 then L2 else Cosine) (size_t (cf_Dim cfg))
     (size_t (cf_MaxElements cfg)) (size_t (cf_M cfg)) (size_t (cf_EfConstruction cfg)))"

definition base_store :: "d_config \<Rightarrow> index \<Rightarrow> disk \<Rightarrow> store \<Rightarrow> bool" where
  "base_store cfg c dk base \<longleftrightarrow> dk (SnapshotPath cfg) = None \<and> base = Map.empty \<or>
     (\<exists>ix bs. dk (SnapshotPath cfg) = Some bs \<and> snapshot_bytes ix = Some bs \<and> obj_ok ix \<and> config ix = config c \<and> abs_ix ix = base)"

definition on_disk :: "d_config \<Rightarrow> index \<Rightarrow> disk \<Rightarrow> wal_record list \<Rightarrow> byte list \<Rightarrow> store \<Rightarrow> bool" where
  "on_disk cfg c dk rs tail st \<longleftrightarrow> (\<exists>base. base_store cfg c dk base \<and> spec_all (rec_spec c) rs base = (None, st)) \<and>
     (\<forall>r \<in> set rs. rec_fine c r) \<and> readRecord tail = None \<and>
     (dk (WALPath cfg) = Some (log_bytes rs @ tail) \<or> dk (WALPath cfg) = None \<and> rs = [] \<and> tail = [])"

lemma on_disk_cong:
  assumes "dk' (SnapshotPath cfg) = dk (SnapshotPath cfg)" "dk' (WALPath cfg) = dk (WALPath cfg)"
  shows "on_disk cfg c dk' = on_disk cfg c dk"
  by (simp add: on_disk_def base_store_def assms fun_eq_iff)

lemma on_disk_empty: "dk (SnapshotPath cfg) = None \<Longrightarrow> dk (WALPath cfg) = None \<Longrightarrow> on_disk cfg c dk [] [] Map.empty"
  by (simp add: on_disk_def base_store_def)

lemma size_t_small: "0 \<le> x \<Longrightarrow> x < 2 ^ 64 \<Longrightarrow> size_t x = nat x"
  by (simp add: size_t_def)

lemma Index_avx: "Index avx sp d n m e = Inr ix \<Longrightarrow> ix_avx ix = avx"
  by (auto simp: Index_def Let_def split: if_splits)

lemma fresh_ok:
  assumes "cfg_ok cfg"
  shows "Index avx (if c_int (cf_Space cfg) = HNSW_SPACE_L2 then L2 else Cosine) (size_t (cf_Dim cfg))
     (size_t (cf_MaxElements cfg)) (size_t (cf_M cfg)) (size_t (cf_EfConstruction cfg)) = Inr (fresh avx cfg)"
    "wf_ix (fresh avx cfg)" "typed (fresh avx cfg)" "abs_ix (fresh avx cfg) = Map.empty"
    "int (ix_dim (fresh avx cfg)) = cf_Dim cfg" "int (ix_maxElements (fresh avx cfg)) = cf_MaxElements cfg" "ix_avx (fresh avx cfg) = avx"
proof -
  let ?sp = "if c_int (cf_Space cfg) = HNSW_SPACE_L2 then L2 else Cosine"
  let ?d = "nat (cf_Dim cfg)" and ?n = "nat (cf_MaxElements cfg)" and ?m = "nat (cf_M cfg)" and ?e = "nat (cf_EfConstruction cfg)"
  have b: "0 < ?d" "?d \<le> 2 ^ 22" "0 < ?n" "?n < 2 ^ 32" "0 < ?m" "?m \<le> 128" "?e < 2 ^ 64"
    using assms by (auto simp: cfg_ok_def maxPayloadLen_def)
  have z: "size_t (cf_Dim cfg) = ?d" "size_t (cf_MaxElements cfg) = ?n" "size_t (cf_M cfg) = ?m" "size_t (cf_EfConstruction cfg) = ?e"
    using assms by (auto simp: cfg_ok_def maxPayloadLen_def intro!: size_t_small)
  have nd: "?n * ?d \<le> 2 ^ 32 * 2 ^ 22" using b by (intro mult_le_mono) auto
  then have "?n * ?d < 2 ^ 64" "?n * ?d * 4 < 2 ^ 64" by (simp_all add: mult.commute)
  then obtain ix where i: "Index avx ?sp ?d ?n ?m ?e = Inr ix"
    using Index_Inr [of ?d ?n ?m avx ?sp ?e] b by auto
  then have f: "fresh avx cfg = ix" by (simp add: fresh_def z)
  note w = Index_wf [OF i b(4) \<open>?n * ?d < 2 ^ 64\<close>]
  have m: "?m < 2 ^ 63" using b(6) by simp
  show "Index avx ?sp (size_t (cf_Dim cfg)) (size_t (cf_MaxElements cfg)) (size_t (cf_M cfg)) (size_t (cf_EfConstruction cfg)) =
      Inr (fresh avx cfg)" using i f by (simp add: z)
  show "wf_ix (fresh avx cfg)" "abs_ix (fresh avx cfg) = Map.empty" using w [OF m] f by simp_all
  show "typed (fresh avx cfg)"
    unfolding f by (rule Index_typed [OF i]) (use w [OF m] b \<open>?n * ?d * 4 < 2 ^ 64\<close> in auto)
  show "int (ix_dim (fresh avx cfg)) = cf_Dim cfg" "int (ix_maxElements (fresh avx cfg)) = cf_MaxElements cfg"
    using w [OF m] f assms by (auto simp: cfg_ok_def)
  show "ix_avx (fresh avx cfg) = avx" using Index_avx [OF i] f by simp
qed

section \<open>Opening\<close>

lemma live_pass [simp]: "go_live (pass ds w) g ix = go_live w g ix"
  by (simp add: go_live_def)

lemma live_trace [simp]: "go_live (w\<lparr>wd_trace := t\<rparr>) g ix = go_live w g ix"
  by (simp add: go_live_def)

definition d_inv :: "d_config \<Rightarrow> index \<Rightarrow> world \<Rightarrow> durable \<Rightarrow> wal_record list \<Rightarrow> store \<Rightarrow> bool" where
  "d_inv cfg c w d rs st \<longleftrightarrow> d_cfg d = cfg \<and> d_w d = \<lparr>w_path = WALPath cfg, w_open = True\<rparr> \<and>
     (\<exists>ix. go_live w (d_idx d) ix \<and> config ix = config c \<and> abs_ix ix = st) \<and> wd_plan w = [] \<and> wd_avx w = ix_avx c \<and>
     disk_of w (WALPath cfg) = Some (log_bytes rs) \<and> on_disk cfg c (disk_of w) rs [] st"

lemma d_inv_store: "d_inv cfg c w d rs st \<Longrightarrow> d_store w d = st"
  by (auto simp: d_inv_def d_store_def go_live_def cs_store_def)

lemma d_inv_trace [simp]: "d_inv cfg c (w\<lparr>wd_trace := t\<rparr>) d rs st = d_inv cfg c w d rs st"
  by (simp add: d_inv_def)

lemma obj_ok_reloaded: "obj_ok ix \<Longrightarrow> obj_ok (reloaded avx ix)"
  using wf_reloaded [of ix avx] by (auto simp: obj_ok_def reloaded_def typed_def links_fit_def link_words_def)

text \<open>A process that can still allocate, on a machine of its own.\<close>

definition ready :: "world \<Rightarrow> bool" where
  "ready w \<longleftrightarrow> wd_plan w = [] \<and> 0 < cs_next (wd_c w) \<and> (\<forall>n. 0 \<le> wd_levels w n \<and> wd_levels w n \<le> 2 ^ 24)"

lemma live_alloc:
  assumes "ready w" "alloc (wd_c w) ix = (p, s)" "obj_ok ix" "gi_dim g = int (ix_dim ix)" "gi_ptr g = p"
  shows "go_live (w\<lparr>wd_c := s\<rparr>) g ix" "go_quiet w (w\<lparr>wd_c := s\<rparr>)"
  using assms by (auto simp: go_live_def go_quiet_def alloc_def obj_ok_def ready_def)

lemma load_ok:
  assumes "cfg_ok cfg" "ready w" "c = fresh (wd_avx w) cfg" "base_store cfg c (disk_of w) base"
  shows "\<exists>g w'. loadOrCreateIndex cfg w = Some (Inr g, w') \<and> serves w g c w' base"
proof -
  note f = fresh_ok [OF assms(1), of "wd_avx w", folded assms(3)]
  have p: "wd_plan w = []" "0 < cs_next (wd_c w)" using assms(2) by (auto simp: ready_def)
  show ?thesis
  proof (cases "disk_of w (SnapshotPath cfg)")
    case None
    then have b: "base = Map.empty" using assms(4) by (simp add: base_store_def)
    obtain s where a: "alloc (wd_c w) c = (cs_next (wd_c w), s)" by (simp add: alloc_def)
    let ?g = "\<lparr>gi_ptr = cs_next (wd_c w), gi_dim = cf_Dim cfg\<rparr>"
    have n: "go_New (cf_Space cfg) (cf_Dim cfg) (cf_MaxElements cfg) (cf_M cfg) (cf_EfConstruction cfg) w = (Inr ?g, w\<lparr>wd_c := s\<rparr>)"
      using f(1) a p(2) by (simp add: go_New_def hnsw_new_def)
    have "go_live (w\<lparr>wd_c := s\<rparr>) ?g c" "go_quiet w (w\<lparr>wd_c := s\<rparr>)"
      using live_alloc [OF assms(2) a, of ?g] f(2,3,5) by (simp_all add: obj_ok_def)
    then show ?thesis using None n f(4) b p(1) by (auto simp: loadOrCreateIndex_def os_simps serves_def)
  next
    case (Some bs)
    then obtain ix where ix: "snapshot_bytes ix = Some bs" "obj_ok ix" "config ix = config c" "abs_ix ix = base"
      using assms(4) by (auto simp: base_store_def)
    let ?r = "reloaded (wd_avx w) ix" and ?g = "\<lparr>gi_ptr = cs_next (wd_c w), gi_dim = int (ix_dim ix)\<rparr>"
    have "load (wd_avx w) (wd_junk w) (SnapshotPath cfg) (Some bs) = Some (Inr ?r)"
      by (rule load_roundtrip) (use ix in \<open>simp_all add: obj_ok_def\<close>)
    moreover obtain s where a: "alloc (wd_c w) ?r = (cs_next (wd_c w), s)" by (simp add: alloc_def)
    ultimately have h: "hnsw_load (wd_avx w) (wd_junk w) (wd_c w) (Some (SnapshotPath cfg)) = Some (cs_next (wd_c w), s)"
      using Some by (simp add: hnsw_load_def)
    have d: "ix_dim ?r = ix_dim ix" by (simp add: reloaded_def)
    have "hnsw_dim s (cs_next (wd_c w)) = Some (ix_dim ix)" using a d p(2) by (auto simp: hnsw_dim_def cast_def alloc_def)
    then have l: "go_Load (SnapshotPath cfg) w = Some (Inr ?g, w\<lparr>wd_c := s\<rparr>)" using h p(2) by (simp add: go_Load_def)
    have "go_live (w\<lparr>wd_c := s\<rparr>) ?g ?r" "go_quiet w (w\<lparr>wd_c := s\<rparr>)"
      using live_alloc [OF assms(2) a obj_ok_reloaded [OF ix(2)], of ?g] d by simp_all
    moreover have "config ?r = config c" using ix(3) f(7) by (simp add: config_def reloaded_def)
    ultimately show ?thesis
      using Some l p(1) ix(4) reloaded_views(1) [of "wd_avx w" ix] by (auto simp: loadOrCreateIndex_def os_simps serves_def)
  qed
qed

lemma serves_quiet: "serves w g c w' st \<Longrightarrow> go_quiet w w'"
  by (simp add: serves_def)

lemma quiet_fields: "go_quiet w w' \<Longrightarrow> disk_of w' = disk_of w \<and> wd_plan w' = wd_plan w \<and> wd_avx w' = wd_avx w \<and> wd_trace w' = wd_trace w"
  by (simp add: go_quiet_def)

lemma records_Nil [simp]: "log_bytes [] = header_bytes_wal"
  by (simp add: log_bytes_def)

lemma replay_ok:
  assumes "on_disk cfg c (disk_of w) rs tail st" "base_store cfg c (disk_of w) base" "spec_all (rec_spec c) rs base = (None, st)"
    and "serves w0 g c w base" "wd_plan w = []"
  shows "\<exists>n lastGood w'. Replay (apply_record g) (WALPath cfg) w = Some (n, lastGood, None, w') \<and> serves w0 g c w' st \<and>
    (disk_of w (WALPath cfg) \<noteq> None \<longrightarrow> lastGood = length (log_bytes rs))"
proof (cases "disk_of w (WALPath cfg)")
  case None
  then have "rs = []" "st = base" using assms(1,3) by (auto simp: on_disk_def)
  then show ?thesis using None assms(4,5) by (simp add: Replay_def os_simps)
next
  case (Some bs)
  then have bs: "bs = log_bytes rs @ tail" "readRecord tail = None" "\<forall>r \<in> set rs. rec_fine c r" using assms(1) by (auto simp: on_disk_def)
  then have "\<forall>r \<in> set rs. rec_fine c r \<and> rec_ok r" by (simp add: rec_fine_def)
  from rep.replay [OF assms(4) this assms(3) bs(2), of "WALPath cfg"] show ?thesis
    using Some bs(1) assms(5) by (auto simp: Replay_def os_simps)
qed

definition recoverable :: "d_config \<Rightarrow> index \<Rightarrow> disk \<Rightarrow> store \<Rightarrow> bool" where
  "recoverable cfg c dk st \<longleftrightarrow> (\<exists>rs tail. on_disk cfg c dk rs tail st \<and> settled rs st)"

lemma reopen_existing:
  assumes "wd_plan w = []" "disk_of w p = Some (bs @ tail)"
  shows "reopenWAL p (int (length bs)) w = (Inr \<lparr>w_path = p, w_open = True\<rparr>, pass [(disk_of w)(p \<mapsto> bs)] w)"
  using assms by (simp add: reopenWAL_def OpenForAppend_def os_simps)

lemma Create_new:
  assumes "wd_plan w = []" "disk_of w p = None"
  shows "Create p w = (Inr \<lparr>w_path = p, w_open = True\<rparr>,
    pass ((disk_of w)(p \<mapsto> []) # growing ((disk_of w)(p \<mapsto> [])) p [] header_bytes_wal) w)"
  using assms by (simp add: Create_def writeHeader_def os_simps pass_def)

lemma Open_recovers:
  assumes "cfg_ok cfg" "ready w" "c = fresh (wd_avx w) cfg" "on_disk cfg c (disk_of w) rs tail st"
  shows "\<exists>d w'. Open cfg w = Some (Inr d, w') \<and> d_inv cfg c w' d rs st \<and>
    disk_of w' = (disk_of w)(WALPath cfg \<mapsto> log_bytes rs) \<and>
    (disk_of w (WALPath cfg) \<noteq> None \<longrightarrow>
       (\<forall>dk \<in> set (wd_trace w') - set (wd_trace w). on_disk cfg c dk rs [] st))"
proof -
  obtain base where base: "base_store cfg c (disk_of w) base" "spec_all (rec_spec c) rs base = (None, st)"
    using assms(4) by (auto simp: on_disk_def)
  obtain g w1 where 1: "loadOrCreateIndex cfg w = Some (Inr g, w1)" "serves w g c w1 base"
    using load_ok [OF assms(1-3) base(1)] by blast
  note q1 = quiet_fields [OF serves_quiet [OF 1(2)]] and pl = assms(2) [unfolded ready_def]
  have on1: "on_disk cfg c (disk_of w1) rs tail st" "base_store cfg c (disk_of w1) base" using assms(4) base(1) q1 by simp_all
  obtain n lastGood w2 where 2: "Replay (apply_record g) (WALPath cfg) w1 = Some (n, lastGood, None, w2)" "serves w g c w2 st"
    "disk_of w1 (WALPath cfg) \<noteq> None \<longrightarrow> lastGood = length (log_bytes rs)"
    using replay_ok [OF on1 base(2) 1(2)] q1 pl by auto
  note q2 = quiet_fields [OF serves_quiet [OF 2(2)]]
  have p2: "wd_plan w2 = []" using q2 pl by simp
  have avx: "ix_avx c = wd_avx w" using fresh_ok(7) [OF assms(1)] assms(3) by simp
  have od: "(\<forall>r \<in> set rs. rec_fine c r)" using assms(4) by (auto simp: on_disk_def)
  have sn: "SnapshotPath cfg \<noteq> WALPath cfg" using assms(1) by (simp add: cfg_ok_def paths_ok_def)
  have fin: "on_disk cfg c ((disk_of w)(WALPath cfg \<mapsto> log_bytes rs)) rs [] st"
    using base od sn by (auto simp: on_disk_def base_store_def)
  show ?thesis
  proof (cases "disk_of w (WALPath cfg)")
    case None
    then have rs: "rs = []" using assms(4) by (auto simp: on_disk_def)
    have n: "disk_of w2 (WALPath cfg) = None" using None q2 by simp
    let ?w3 = "pass ((disk_of w2)(WALPath cfg \<mapsto> []) # growing ((disk_of w2)(WALPath cfg \<mapsto> [])) (WALPath cfg) [] header_bytes_wal) w2"
    have "reopenWAL (WALPath cfg) (int lastGood) w2 = (Inr \<lparr>w_path = WALPath cfg, w_open = True\<rparr>, ?w3)"
      using Create_new [OF p2 n] n p2 by (simp add: reopenWAL_def os_simps)
    moreover have "disk_of ?w3 = (disk_of w)(WALPath cfg \<mapsto> log_bytes rs)" using q2 rs by (simp add: last_growing')
    ultimately show ?thesis
      using 1(1) 2(1,2) fin p2 q2 avx None by (auto simp: Open_def d_inv_def serves_def)
  next
    case (Some bs)
    then have bs: "bs = log_bytes rs @ tail" using assms(4) by (auto simp: on_disk_def)
    have "reopenWAL (WALPath cfg) (int lastGood) w2 =
        (Inr \<lparr>w_path = WALPath cfg, w_open = True\<rparr>, pass [(disk_of w2)(WALPath cfg \<mapsto> log_bytes rs)] w2)"
      using reopen_existing [OF p2, of "WALPath cfg" "log_bytes rs" tail] 2(3) Some bs q1 q2 by simp
    then show ?thesis
      using 1(1) 2(1,2) fin p2 q2 avx by (auto simp: Open_def d_inv_def serves_def)
  qed
qed

section \<open>Operations\<close>

fun op_rec :: "d_op \<Rightarrow> wal_record" where
  "op_rec (D_Add v key) = \<lparr>r_Op = OpAdd, r_ClientID = clientId key, r_Label = label_no key, r_Vector = v\<rparr>"
| "op_rec (D_Mark key) = \<lparr>r_Op = OpMarkDeleted, r_ClientID = clientId key, r_Label = label_no key, r_Vector = []\<rparr>"
| "op_rec (D_Unmark key) = \<lparr>r_Op = OpUnmarkDeleted, r_ClientID = clientId key, r_Label = label_no key, r_Vector = []\<rparr>"
| "op_rec (D_Snapshot dev) = undefined"

text \<open>
  The specification: result and store. What \<open>Snapshot\<close> returns depends on the file system; the store stays
  as it is.
\<close>

fun d_spec :: "index \<Rightarrow> d_op \<Rightarrow> store \<Rightarrow> go_error option \<times> store" where
  "d_spec c (D_Add v key) st = map_prod (map_option (Wrap ''durable: index add (already logged to WAL): '')) id (add_spec c v key st)"
| "d_spec c (D_Mark key) st = mark_spec True key st"
| "d_spec c (D_Unmark key) st = mark_spec False key st"
| "d_spec c (D_Snapshot dev) st = (None, st)"

definition is_snapshot :: "d_op \<Rightarrow> bool" where
  "is_snapshot opn = (case opn of D_Snapshot dev \<Rightarrow> True | _ \<Rightarrow> False)"

text \<open>What the theorem asks of an operation in a state: no overflow, deletions of what is there, no unflushed snapshot.\<close>

fun op_fine :: "index \<Rightarrow> store \<Rightarrow> d_op \<Rightarrow> bool" where
  "op_fine c st (D_Add v key) \<longleftrightarrow> length v = ix_dim c \<and> (key \<in> dom st \<or> card (dom st) < ix_maxElements c)"
| "op_fine c st (D_Mark key) \<longleftrightarrow> key \<in> dom st"
| "op_fine c st (D_Unmark key) \<longleftrightarrow> key \<in> dom st"
| "op_fine c st (D_Snapshot dev) \<longleftrightarrow> dev_buffered dev = 0"

text \<open>The weaker condition under which an operation is logged and applied without an error at replay.\<close>

fun op_fits :: "index \<Rightarrow> store \<Rightarrow> d_op \<Rightarrow> bool" where
  "op_fits c st (D_Add v key) \<longleftrightarrow> length v = ix_dim c \<and> (key \<in> dom st \<or> card (dom st) < ix_maxElements c)"
| "op_fits c st (D_Snapshot dev) \<longleftrightarrow> False"
| "op_fits c st opn \<longleftrightarrow> True"

lemma op_rec_fine:
  assumes "cfg_ok cfg" "c = fresh avx cfg" "\<not> is_snapshot opn" "\<And>v key. opn = D_Add v key \<Longrightarrow> length v = ix_dim c"
  shows "rec_fine c (op_rec opn)"
proof -
  have "int (ix_dim c) = cf_Dim cfg" using fresh_ok(5) [OF assms(1)] assms(2) by simp
  then have "0 < ix_dim c" "21 + ix_dim c * 4 \<le> maxPayloadLen" using assms(1) by (auto simp: cfg_ok_def)
  then show ?thesis using assms(3,4)
    by (cases opn) (auto simp: rec_fine_def rec_ok_def encodable_def is_snapshot_def maxPayloadLen_def)
qed

lemma op_fits_spec: "op_fits c st opn \<Longrightarrow> rec_spec c (op_rec opn) st = (None, snd (d_spec c opn st))"
  by (cases opn) (auto simp: rec_spec_def r_key_def add_spec_def mark_spec_def ignoring_def split: prod.split)

lemma op_fine_fits: "op_fine c st opn \<Longrightarrow> \<not> is_snapshot opn \<Longrightarrow> op_fits c st opn"
  by (cases opn) (auto simp: is_snapshot_def)

lemma op_settled:
  assumes "op_fine c st opn" "\<not> is_snapshot opn" "rec_fine c (op_rec opn)" "settled rs st"
  shows "settled (rs @ [op_rec opn]) (snd (d_spec c opn st))"
proof (cases "r_key (op_rec opn) \<in> dom st")
  case True
  then show ?thesis using settled_present [OF assms(4,3) True] op_fits_spec [OF op_fine_fits [OF assms(1,2)]] by simp
next
  case False
  then obtain v key where o: "opn = D_Add v key" "st key = None" "card (dom st) < ix_maxElements c"
    using assms(1,2) by (cases opn) (auto simp: r_key_def is_snapshot_def)
  then show ?thesis
    using settled_insert [OF assms(4), of "op_rec opn" "query_vec c v"] False by (simp add: add_spec_def r_key_def)
qed

lemma Append_ok:
  assumes "wd_plan w = []" "disk_of w p = Some old" "encodable r"
  shows "Append \<lparr>w_path = p, w_open = True\<rparr> r w = (None, pass (growing (disk_of w) p old (rec_bytes r)) w)"
  using assms by (simp add: Append_def encode_encodable os_simps)

lemma append_disks:
  assumes od: "on_disk cfg c dk rs [] st" "dk (WALPath cfg) = Some (log_bytes rs)" "SnapshotPath cfg \<noteq> WALPath cfg"
    and r: "rec_fine c r" "rec_spec c r st = (None, st')"
  shows "on_disk cfg c (dk(WALPath cfg \<mapsto> log_bytes rs @ rec_bytes r)) (rs @ [r]) [] st'"
    "x \<in> set (growing dk (WALPath cfg) (log_bytes rs) (rec_bytes r)) \<Longrightarrow>
      (\<exists>tail. on_disk cfg c x rs tail st) \<or> on_disk cfg c x (rs @ [r]) [] st'"
proof -
  have b: "base_store cfg c (dk(WALPath cfg \<mapsto> y)) = base_store cfg c dk" for y
    using od(3) by (simp add: base_store_def fun_eq_iff)
  show full: "on_disk cfg c (dk(WALPath cfg \<mapsto> log_bytes rs @ rec_bytes r)) (rs @ [r]) [] st'"
    using od(1) r by (auto simp: on_disk_def b spec_all_snoc log_snoc)
  assume "x \<in> set (growing dk (WALPath cfg) (log_bytes rs) (rec_bytes r))"
  then obtain k where k: "k \<le> length (rec_bytes r)" "x = dk(WALPath cfg \<mapsto> log_bytes rs @ take k (rec_bytes r))"
    unfolding in_growing by blast
  show "(\<exists>tail. on_disk cfg c x rs tail st) \<or> on_disk cfg c x (rs @ [r]) [] st'"
  proof (cases "k = length (rec_bytes r)")
    case True
    then have "x = dk(WALPath cfg \<mapsto> log_bytes rs @ rec_bytes r)" using k(2) by simp
    then show ?thesis using full by auto
  next
    case False
    then have "readRecord (take k (rec_bytes r)) = None" using k(1) r(1) by (intro readRecord_torn) (auto simp: rec_fine_def)
    then have "on_disk cfg c x rs (take k (rec_bytes r)) st" using od(1) k(2) by (auto simp: on_disk_def b)
    then show ?thesis by auto
  qed
qed

text \<open>An operation that is logged: what it returns and leaves in memory, and the log with its record.\<close>

lemma op_logged_gen:
  assumes d: "d_w d = \<lparr>w_path = p, w_open = True\<rparr>" "wd_plan w = []" "disk_of w p = Some old"
    and ix: "go_live w (d_idx d) ix" "config ix = config c" "abs_ix ix = st" and rf: "rec_fine c (op_rec opn)" "\<not> is_snapshot opn"
  shows "\<exists>w'. d_step d opn w = Some (fst (d_spec c opn st), d, w') \<and>
    serves (pass (growing (disk_of w) p old (rec_bytes (op_rec opn))) w) (d_idx d) c w' (snd (d_spec c opn st))"
proof -
  let ?r = "op_rec opn" and ?w1 = "pass (growing (disk_of w) p old (rec_bytes (op_rec opn))) w"
  have ap: "Append (d_w d) ?r w = (None, ?w1)"
    using Append_ok [OF d(2,3), of ?r] rf d(1) by (simp add: rec_fine_def rec_ok_def)
  have l1: "go_live ?w1 (d_idx d) ix" using ix(1) by simp
  show ?thesis
  proof (cases opn)
    case (D_Add v key)
    then have "length v = ix_dim ix" using rf(1) config_cong(1) [OF ix(2)] by (simp add: rec_fine_def)
    from refines_serves [OF go_Add_refines [OF l1 this, of key] ix(2) go_quiet_refl] show ?thesis
      using ap D_Add by (auto simp: d_step_def d_Add_def ix(3) add_spec_cong [OF ix(2)])
  next
    case (D_Mark key)
    from refines_serves [OF go_mark_refines(1) [OF l1, of key] ix(2) go_quiet_refl] show ?thesis
      using ap D_Mark by (auto simp: d_step_def d_MarkDeleted_def ix(3))
  next
    case (D_Unmark key)
    from refines_serves [OF go_mark_refines(2) [OF l1, of key] ix(2) go_quiet_refl] show ?thesis
      using ap D_Unmark by (auto simp: d_step_def d_UnmarkDeleted_def ix(3))
  qed (use rf(2) in \<open>simp add: is_snapshot_def\<close>)
qed

lemma op_logged:
  assumes i: "d_inv cfg c w d rs st" and rf: "rec_fine c (op_rec opn)" "\<not> is_snapshot opn"
  shows "\<exists>w'. d_step d opn w = Some (fst (d_spec c opn st), d, w') \<and>
    serves (pass (growing (disk_of w) (WALPath cfg) (log_bytes rs) (rec_bytes (op_rec opn))) w) (d_idx d) c w' (snd (d_spec c opn st))"
  using i op_logged_gen [OF _ _ _ _ _ _ rf, of d "WALPath cfg" w "log_bytes rs" _ st] by (auto simp: d_inv_def)

lemma logged_fields:
  assumes "serves (pass (growing (disk_of w) p old buf) w) g c w' st"
  shows "disk_of w' = (disk_of w)(p \<mapsto> old @ buf)" "wd_plan w' = wd_plan w" "wd_avx w' = wd_avx w"
    "wd_trace w' = wd_trace w @ growing (disk_of w) p old buf"
  using quiet_fields [OF serves_quiet [OF assms]] by (auto simp: last_growing')

lemma op_applied:
  assumes i: "d_inv cfg c w d rs st" and cfg: "cfg_ok cfg" "c = fresh (wd_avx w) cfg" and f: "op_fits c st opn" and t: "wd_trace w = []"
  shows "\<exists>w'. d_step d opn w = Some (fst (d_spec c opn st), d, w') \<and> d_inv cfg c w' d (rs @ [op_rec opn]) (snd (d_spec c opn st)) \<and>
    (\<forall>dk \<in> set (wd_trace w'). (\<exists>tail. on_disk cfg c dk rs tail st) \<or> on_disk cfg c dk (rs @ [op_rec opn]) [] (snd (d_spec c opn st)))"
proof -
  let ?r = "op_rec opn" and ?st = "snd (d_spec c opn st)"
  have ns: "\<not> is_snapshot opn" using f by (cases opn) (simp_all add: is_snapshot_def)
  have rf: "rec_fine c ?r" by (rule op_rec_fine [OF cfg ns]) (use f in auto)
  have od: "on_disk cfg c (disk_of w) rs [] st" "disk_of w (WALPath cfg) = Some (log_bytes rs)" using i by (auto simp: d_inv_def)
  have sn: "SnapshotPath cfg \<noteq> WALPath cfg" using cfg(1) by (simp add: cfg_ok_def paths_ok_def)
  note ad = append_disks [OF od sn rf op_fits_spec [OF f]]
  obtain w' where w': "d_step d opn w = Some (fst (d_spec c opn st), d, w')"
    "serves (pass (growing (disk_of w) (WALPath cfg) (log_bytes rs) (rec_bytes ?r)) w) (d_idx d) c w' ?st"
    using op_logged [OF i rf ns] by blast
  note q = logged_fields [OF w'(2)]
  have "d_inv cfg c w' d (rs @ [?r]) ?st"
    using w'(2) q i ad(1) by (auto simp: d_inv_def serves_def log_snoc)
  then show ?thesis using w'(1) ad(2) q(4) t by auto
qed

lemma op_step:
  assumes i: "d_inv cfg c w d rs st" "settled rs st" and cfg: "cfg_ok cfg" "c = fresh (wd_avx w) cfg"
    and f: "op_fine c st opn" "\<not> is_snapshot opn" and t: "wd_trace w = []"
  shows "\<exists>w' rs'. d_step d opn w = Some (fst (d_spec c opn st), d, w') \<and> d_inv cfg c w' d rs' (snd (d_spec c opn st)) \<and>
    settled rs' (snd (d_spec c opn st)) \<and>
    (\<forall>dk \<in> set (wd_trace w'). recoverable cfg c dk st \<or> recoverable cfg c dk (snd (d_spec c opn st)))"
proof -
  have rf: "rec_fine c (op_rec opn)" by (rule op_rec_fine [OF cfg f(2)]) (use f in auto)
  note s = op_settled [OF f rf i(2)]
  from op_applied [OF i(1) cfg op_fine_fits [OF f] t] show ?thesis
    using s i(2) unfolding recoverable_def by blast
qed

section \<open>Snapshots\<close>

lemma suffix_ne [simp]: "p @ a # b \<noteq> p" "p \<noteq> p @ a # b"
  by simp_all

lemma rename_works:
  assumes "wd_plan w = []" "disk_of w p = Some bs"
  shows "renameWithRetry p q w = (None, pass [(disk_of w)(p := None, q \<mapsto> bs)] w)"
  using assms by (simp add: renameWithRetry_def numeral_eq_Suc os_simps)

text \<open>Saving changes no other file, and succeeds only with the complete snapshot in the file.\<close>

lemma go_Save_ok:
  assumes "go_live w g ix" "snapshot_bytes ix = Some bs" "dev_buffered dev = 0" "wd_trace w = []"
  shows "\<exists>e w'. go_Save g path dev w = Some (e, w') \<and> go_live w' g ix \<and> wd_plan w' = wd_plan w \<and> wd_avx w' = wd_avx w \<and>
    (\<forall>p. p \<noteq> path \<longrightarrow> disk_of w' p = disk_of w p) \<and> (\<forall>dk \<in> set (wd_trace w'). \<forall>p. p \<noteq> path \<longrightarrow> dk p = disk_of w p) \<and>
    (e = None \<longrightarrow> disk_of w' path = Some bs)"
  using assms by (auto simp: go_Save_def hnsw_save_def save_def go_live_def cast_def codes in_growing Let_def)

definition rotated :: "string \<Rightarrow> world \<Rightarrow> world" where
  "rotated p w = (let w1 = pass ((disk_of w)(p @ ''.new'' \<mapsto> []) #
       growing ((disk_of w)(p @ ''.new'' \<mapsto> [])) (p @ ''.new'') [] header_bytes_wal) w
     in pass [(disk_of w)(p @ ''.new'' := None, p \<mapsto> header_bytes_wal)] w1)"

lemma rotate_result:
  assumes "wd_plan w = []" "d_cfg d = cfg" "d_w d = \<lparr>w_path = WALPath cfg, w_open = True\<rparr>"
  shows "rotateWAL d w = (if disk_of w (WALPath cfg @ ''.new'') = None then (None, d, rotated (WALPath cfg) w)
    else (Some (Wrap ''durable: creating new WAL: '' (Wrap (''wal: create '' @ (WALPath cfg @ ''.new'') @ '': '') Os_exist)), d, w))"
proof (cases "disk_of w (WALPath cfg @ ''.new'')")
  case (Some x)
  then show ?thesis using assms by (simp add: rotateWAL_def Create_def os_simps Let_def)
next
  case None
  let ?wal = "WALPath cfg" and ?new = "WALPath cfg @ ''.new''"
  let ?d0 = "(disk_of w)(?new \<mapsto> [])"
  let ?w1 = "pass (?d0 # growing ?d0 ?new [] header_bytes_wal) w"
  have d1: "disk_of ?w1 = (disk_of w)(?new \<mapsto> header_bytes_wal)" by (simp add: last_growing')
  then have "renameWithRetry ?new ?wal ?w1 = (None, rotated ?wal w)"
    using rename_works [of ?w1 ?new header_bytes_wal ?wal] assms(1) by (simp add: rotated_def)
  moreover have "OpenForAppend ?wal (- 1) (rotated ?wal w) = (Inr \<lparr>w_path = ?wal, w_open = True\<rparr>, rotated ?wal w)"
    using assms(1) by (simp add: OpenForAppend_def os_simps rotated_def)
  ultimately show ?thesis
    using Create_new [OF assms(1) None] assms None by (simp add: rotateWAL_def Close_wal_def os_simps Let_def)
qed

lemma rotated_simps [simp]:
  "disk_of (rotated p w) = (disk_of w)(p @ ''.new'' := None, p \<mapsto> header_bytes_wal)" "go_live (rotated p w) g ix = go_live w g ix"
  "wd_plan (rotated p w) = wd_plan w" "wd_avx (rotated p w) = wd_avx w"
  by (simp_all add: rotated_def)

lemma rotated_trace:
  "dk \<in> set (wd_trace (rotated p w)) \<Longrightarrow> dk \<in> set (wd_trace w) \<or> dk = disk_of (rotated p w) \<or> (\<exists>x. dk = (disk_of w)(p @ ''.new'' \<mapsto> x))"
  "(disk_of w)(p @ ''.new'' \<mapsto> header_bytes_wal) \<in> set (wd_trace (rotated p w))"
  "set (wd_trace w) \<subseteq> set (wd_trace (rotated p w))"
  using last_in_set [OF growing_ne, of "(disk_of w)(p @ ''.new'' \<mapsto> [])" "p @ ''.new''" "[]" header_bytes_wal]
  by (auto simp: rotated_def in_growing last_growing')

lemma rotate_step:
  assumes i: "d_inv cfg c w d rs st" and p: "paths_ok cfg" and b: "base_store cfg c (disk_of w) st"
    and t: "\<forall>dk \<in> set (wd_trace w). recoverable cfg c dk st" and se: "settled rs st"
  shows "\<exists>e d' w' rs'. rotateWAL d w = (e, d', w') \<and> d_inv cfg c w' d' rs' st \<and> settled rs' st \<and>
    (\<forall>dk \<in> set (wd_trace w'). recoverable cfg c dk st)"
proof -
  let ?new = "WALPath cfg @ ''.new''" and ?w = "rotated (WALPath cfg) w"
  have od: "on_disk cfg c (disk_of w) rs [] st" "wd_plan w = []" "d_cfg d = cfg" "d_w d = \<lparr>w_path = WALPath cfg, w_open = True\<rparr>"
    using i by (auto simp: d_inv_def)
  note r = rotate_result [OF od(2-4)]
  have ne: "?new \<noteq> WALPath cfg" "?new \<noteq> SnapshotPath cfg" "SnapshotPath cfg \<noteq> WALPath cfg" using p by (auto simp: paths_ok_def)
  show ?thesis
  proof (cases "disk_of w ?new")
    case None
    have fin: "on_disk cfg c (disk_of ?w) [] [] st" "settled [] st"
      using b ne by (auto simp: on_disk_def base_store_def settled_def)
    have "d_inv cfg c ?w d [] st" using i fin by (simp add: d_inv_def)
    moreover have "recoverable cfg c dk st" if "dk \<in> set (wd_trace ?w)" for dk
    proof -
      from rotated_trace(1) [OF that] consider (old) "dk \<in> set (wd_trace w)" | (f) "dk = disk_of ?w" | (g) x where "dk = (disk_of w)(?new \<mapsto> x)"
        by blast
      then show ?thesis
      proof cases
        case old then show ?thesis using t by blast
      next
        case f then show ?thesis using fin unfolding recoverable_def by auto
      next
        case g
        have "on_disk cfg c dk = on_disk cfg c (disk_of w)" by (rule on_disk_cong) (use g ne in auto)
        then show ?thesis using od(1) se unfolding recoverable_def by auto
      qed
    qed
    ultimately show ?thesis using r None fin(2) by auto
  qed (use r i t se in auto)
qed

lemma snapshot_step:
  assumes i: "d_inv cfg c w d rs st" and se: "settled rs st" and p: "paths_ok cfg" and dev: "dev_buffered dev = 0" and t: "wd_trace w = []"
  shows "\<exists>e d' w' rs'. d_Snapshot d dev w = Some (e, d', w') \<and> d_inv cfg c w' d' rs' st \<and> settled rs' st \<and>
    (\<forall>dk \<in> set (wd_trace w'). recoverable cfg c dk st)"
proof -
  let ?tmp = "SnapshotPath cfg @ ''.tmp''" and ?snap = "SnapshotPath cfg"
  have ne: "?tmp \<noteq> ?snap" "?tmp \<noteq> WALPath cfg" "?snap \<noteq> WALPath cfg" using p by (auto simp: paths_ok_def)
  have od: "on_disk cfg c (disk_of w) rs [] st" "disk_of w (WALPath cfg) = Some (log_bytes rs)" "wd_plan w = []" "d_cfg d = cfg"
    using i by (auto simp: d_inv_def)
  obtain ix where ix: "go_live w (d_idx d) ix" "config ix = config c" "abs_ix ix = st" using i by (auto simp: d_inv_def)
  have ok: "obj_ok ix" using ix(1) by (simp add: go_live_def obj_ok_def)
  obtain bs where bs: "snapshot_bytes ix = Some bs" using snapshot_bytes_wf ix(1) by (auto simp: go_live_def)
  obtain e w1 where s: "go_Save (d_idx d) ?tmp dev w = Some (e, w1)" "go_live w1 (d_idx d) ix" "wd_plan w1 = []" "wd_avx w1 = wd_avx w"
    "\<forall>q. q \<noteq> ?tmp \<longrightarrow> disk_of w1 q = disk_of w q" "\<forall>dk \<in> set (wd_trace w1). \<forall>q. q \<noteq> ?tmp \<longrightarrow> dk q = disk_of w q"
    "e = None \<longrightarrow> disk_of w1 ?tmp = Some bs"
    using go_Save_ok [OF ix(1) bs dev t, of ?tmp] od(3) by auto
  have o1: "on_disk cfg c (disk_of w1) = on_disk cfg c (disk_of w)" by (rule on_disk_cong) (use s(5) ne in auto)
  have i1: "d_inv cfg c w1 d rs st"
    using i s(2-5) ix(2,3) o1 ne(2) [symmetric] by (auto simp: d_inv_def)
  have t1: "recoverable cfg c dk st" if "dk \<in> set (wd_trace w1)" for dk
  proof -
    have "on_disk cfg c dk = on_disk cfg c (disk_of w)" by (rule on_disk_cong) (use s(6) that ne in auto)
    then show ?thesis using od(1) se unfolding recoverable_def by auto
  qed
  show ?thesis
  proof (cases e)
    case (Some x)
    then show ?thesis using s(1) i1 t1 od(4) se by (auto simp: d_Snapshot_def)
  next
    case None
    let ?d2 = "(disk_of w1)(?tmp := None, ?snap \<mapsto> bs)"
    let ?w2 = "pass [?d2] w1"
    have ren: "renameWithRetry ?tmp ?snap w1 = (None, ?w2)" by (rule rename_works) (use s(3,7) None in auto)
    have b2: "base_store cfg c ?d2 st" using bs ok ix(2,3) by (auto simp: base_store_def)
    have fin: "on_disk cfg c ?d2 rs [] st"
      using b2 od(1,2) s(5) ne settled_replay [OF se] by (auto simp: on_disk_def)
    have i2: "d_inv cfg c ?w2 d rs st" using i1 fin ne by (auto simp: d_inv_def)
    have t2: "\<forall>dk \<in> set (wd_trace ?w2). recoverable cfg c dk st" using t1 fin se by (auto simp: recoverable_def)
    have "base_store cfg c (disk_of ?w2) st" using b2 by simp
    from rotate_step [OF i2 p this t2 se] show ?thesis using s(1) None ren od(4) by (auto simp: d_Snapshot_def)
  qed
qed

section \<open>Searching\<close>

text \<open>Sound answers: distinct labels of live vectors with their distances.\<close>

definition hits_ok :: "index \<Rightarrow> store \<Rightarrow> f32 list \<Rightarrow> nat \<Rightarrow> (label \<times> f32) list \<Rightarrow> bool" where
  "hits_ok c st q k hits \<longleftrightarrow> length hits \<le> k \<and> distinct (map fst hits) \<and>
     (\<forall>h \<in> set hits. \<exists>v. st (fst h) = Some (v, False) \<and> snd h = rawDistance c (query_vec c q) v)"

lemma d_Search_ok:
  assumes i: "d_inv cfg c w d rs st" and q: "length q = ix_dim c" and k: "0 < k" "k < 2 ^ 31" "0 \<le> ef" "ef < 2 ^ 63"
  shows "\<exists>hits w'. d_Search d q k ef w = Some (Inr hits, w') \<and> d_inv cfg c w' d rs st \<and> hits_ok c st q (nat k) hits"
proof -
  obtain ix where ix: "go_live w (d_idx d) ix" "config ix = config c" "abs_ix ix = st" using i by (auto simp: d_inv_def)
  have "length q = ix_dim ix" using q config_cong(1) [OF ix(2)] by simp
  from go_Search_ok [OF ix(1) this k] obtain res p w' where
    s: "answers_ok ix (query_vec ix q) (nat k) res" "go_Search (d_idx d) q k ef w = Some (Inr (map (\<lambda>r. (sr_label r, sr_distance r)) res), w')"
      "go_live w' (d_idx d) (ix\<lparr>ix_visitedPool := p\<rparr>)" "go_quiet w w'" by blast
  have "hits_ok c st q (nat k) (map (\<lambda>r. (sr_label r, sr_distance r)) res)"
    using s(1) unfolding hits_ok_def answers_ok_def config_cong(3) [OF ix(2)] query_vec_cong [OF ix(2)] ix(3)
    by (auto simp: o_def)
  moreover have "d_inv cfg c w' d rs st"
    using i s(3) ix(2,3) quiet_fields [OF s(4)] unfolding d_inv_def by (auto simp: config_pool)
  ultimately show ?thesis using s(2) by (auto simp: d_Search_def)
qed

section \<open>A service with crashes\<close>

definition levels_ok :: "(nat \<Rightarrow> int) \<Rightarrow> bool" where
  "levels_ok levels \<longleftrightarrow> (\<forall>n. 0 \<le> levels n \<and> levels n \<le> 2 ^ 24)"

text \<open>
  The states of a service that starts on a disk without its files, with the store it has promised. In a
  \<open>crash\<close> the process is killed in an operation, at any state of the disk, and a new process opens that disk.
\<close>

inductive service :: "d_config \<Rightarrow> bool \<Rightarrow> world \<Rightarrow> durable \<Rightarrow> store \<Rightarrow> bool" for cfg avx where
  service_start: "dk (SnapshotPath cfg) = None \<Longrightarrow> dk (WALPath cfg) = None \<Longrightarrow> levels_ok levels \<Longrightarrow>
    Open cfg (boot dk levels avx junk) = Some (Inr d, w) \<Longrightarrow> service cfg avx w d Map.empty"
| service_op: "service cfg avx w d st \<Longrightarrow> op_fine (fresh avx cfg) st opn \<Longrightarrow>
    d_step d opn (w\<lparr>wd_trace := []\<rparr>) = Some (e, d', w') \<Longrightarrow> service cfg avx w' d' (snd (d_spec (fresh avx cfg) opn st))"
| service_crash: "service cfg avx w d st \<Longrightarrow> op_fine (fresh avx cfg) st opn \<Longrightarrow>
    d_step d opn (w\<lparr>wd_trace := []\<rparr>) = Some (e, d', w') \<Longrightarrow> dk \<in> insert (disk_of w) (set (wd_trace w')) \<Longrightarrow> levels_ok levels \<Longrightarrow>
    Open cfg (boot dk levels avx junk) = Some (Inr d2, w2) \<Longrightarrow> service cfg avx w2 d2 (d_store w2 d2)"
| service_search: "service cfg avx w d st \<Longrightarrow> int (length q) = cf_Dim cfg \<Longrightarrow> 0 < k \<Longrightarrow> k < 2 ^ 31 \<Longrightarrow> 0 \<le> ef \<Longrightarrow> ef < 2 ^ 63 \<Longrightarrow>
    d_Search d q k ef (w\<lparr>wd_trace := []\<rparr>) = Some (r, w') \<Longrightarrow> service cfg avx w' d st"

lemma ready_boot: "levels_ok levels \<Longrightarrow> ready (boot dk levels avx junk)"
  by (simp add: ready_def boot_def levels_ok_def c_init_def)

lemma boot_simps [simp]: "disk_of (boot dk levels avx junk) = dk" "wd_avx (boot dk levels avx junk) = avx"
  "wd_trace (boot dk levels avx junk) = []" "wd_plan (boot dk levels avx junk) = []"
  by (simp_all add: boot_def)

lemma Open_boot:
  assumes "cfg_ok cfg" "levels_ok levels" "on_disk cfg (fresh avx cfg) dk rs tail st"
  shows "\<exists>d w. Open cfg (boot dk levels avx junk) = Some (Inr d, w) \<and> d_inv cfg (fresh avx cfg) w d rs st \<and> d_store w d = st \<and>
    disk_of w = dk(WALPath cfg \<mapsto> log_bytes rs)"
proof -
  have "on_disk cfg (fresh avx cfg) (disk_of (boot dk levels avx junk)) rs tail st" using assms(3) by simp
  then obtain d w where "Open cfg (boot dk levels avx junk) = Some (Inr d, w)" "d_inv cfg (fresh avx cfg) w d rs st"
    "disk_of w = dk(WALPath cfg \<mapsto> log_bytes rs)"
    using Open_recovers [OF assms(1) ready_boot [OF assms(2), of dk avx junk], of "fresh avx cfg" rs tail st] by auto
  then show ?thesis using d_inv_store by blast
qed

lemma d_inv_avx: "cfg_ok cfg \<Longrightarrow> d_inv cfg (fresh avx cfg) w d rs st \<Longrightarrow> wd_avx w = avx"
  using fresh_ok(7) by (simp add: d_inv_def)

text \<open>One operation, snapshots included.\<close>

lemma service_step:
  assumes cfg: "cfg_ok cfg" and i: "d_inv cfg (fresh avx cfg) w d rs st" "settled rs st" and f: "op_fine (fresh avx cfg) st opn"
  shows "\<exists>e d' w' rs'. d_step d opn (w\<lparr>wd_trace := []\<rparr>) = Some (e, d', w') \<and> (is_snapshot opn \<or> e = fst (d_spec (fresh avx cfg) opn st)) \<and>
    d_inv cfg (fresh avx cfg) w' d' rs' (snd (d_spec (fresh avx cfg) opn st)) \<and> settled rs' (snd (d_spec (fresh avx cfg) opn st)) \<and>
    (\<forall>dk \<in> insert (disk_of w) (set (wd_trace w')).
      recoverable cfg (fresh avx cfg) dk st \<or> recoverable cfg (fresh avx cfg) dk (snd (d_spec (fresh avx cfg) opn st)))"
proof -
  let ?c = "fresh avx cfg" and ?w = "w\<lparr>wd_trace := []\<rparr>"
  have i0: "d_inv cfg ?c ?w d rs st" "?c = fresh (wd_avx ?w) cfg" "paths_ok cfg"
    using i d_inv_avx [OF cfg i(1)] cfg by (simp_all add: cfg_ok_def)
  have here: "recoverable cfg ?c (disk_of w) st" using i by (auto simp: d_inv_def recoverable_def)
  show ?thesis
  proof (cases opn)
    case (D_Snapshot dev)
    then show ?thesis using snapshot_step [OF i0(1) i(2) i0(3), of dev] f here by (auto simp: d_step_def is_snapshot_def)
  qed (use op_step [OF i0(1) i(2) cfg i0(2) f] here in \<open>auto simp: is_snapshot_def\<close>)
qed

lemma service_inv:
  assumes "service cfg avx w d st" "cfg_ok cfg" shows "\<exists>rs. d_inv cfg (fresh avx cfg) w d rs st \<and> settled rs st"
  using assms
proof (induction rule: service.induct)
  case (service_start dk levels junk d w)
  then have "on_disk cfg (fresh avx cfg) dk [] [] Map.empty" by (intro on_disk_empty)
  from Open_boot [OF service_start(5,3) this, of junk] service_start(4) show ?case by (auto simp: settled_def)
next
  case (service_op w d st opn e d' w')
  then obtain rs where "d_inv cfg (fresh avx cfg) w d rs st" "settled rs st" by auto
  from service_step [OF service_op.prems this service_op.hyps(2)] service_op.hyps(3) show ?case by auto
next
  case (service_crash w d st opn e d' w' dk levels junk d2 w2)
  then obtain rs where "d_inv cfg (fresh avx cfg) w d rs st" "settled rs st" by auto
  from service_step [OF service_crash.prems this service_crash.hyps(2)] service_crash.hyps(3,4)
  obtain st2 where "recoverable cfg (fresh avx cfg) dk st2" by auto
  then obtain rs2 tail where "on_disk cfg (fresh avx cfg) dk rs2 tail st2" "settled rs2 st2" by (auto simp: recoverable_def)
  then show ?case using Open_boot [OF service_crash.prems service_crash.hyps(5), of avx dk rs2 tail st2 junk] service_crash.hyps(6) by auto
next
  case (service_search w d st q k ef r w')
  then obtain rs where rs: "d_inv cfg (fresh avx cfg) (w\<lparr>wd_trace := []\<rparr>) d rs st" "settled rs st" by auto
  have "length q = ix_dim (fresh avx cfg)" using service_search fresh_ok(5) [of cfg avx] by simp
  from d_Search_ok [OF rs(1) this service_search.hyps(3-6)] show ?case using service_search.hyps(7) rs(2) by auto
qed

lemma service_starts:
  assumes "cfg_ok cfg" "levels_ok levels" "dk (SnapshotPath cfg) = None" "dk (WALPath cfg) = None"
  shows "\<exists>d w. Open cfg (boot dk levels avx junk) = Some (Inr d, w) \<and> service cfg avx w d Map.empty \<and>
    disk_of w = dk(WALPath cfg \<mapsto> header_bytes_wal)"
  using Open_boot [OF assms(1,2) on_disk_empty [OF assms(3,4)], of avx junk] service_start [OF assms(3,4,2)]
  unfolding records_Nil by blast

text \<open>
  C4: Crash safety of the durable index, for a service that keeps to the conditions of \<open>op_fine\<close>: it inserts no
  new key when the index is full, deletes and undeletes only keys that are there, and takes its snapshots on a device
  that holds back no bytes. No system call fails, a crash kills the process (what was written stays), and the levels are
  between 0 and \<open>2 ^ 24\<close>, as those drawn for \<open>M \<ge> 2\<close> are. Then in every state of the service, whatever
  crashes it has been through, the store in memory is the one it promised. A further operation returns what the store specification says,
  and wherever it is interrupted, in a torn write of the log or between the two renames of a snapshot, opening the
  disk succeeds and gives the store before the operation or the one after it. Once it has returned, its effect
  survives every crash. The properties C35 to C39 show what happens without the conditions.
\<close>

theorem service_crash_safe:
  assumes "cfg_ok cfg" "service cfg avx w d st" "op_fine (fresh avx cfg) st opn"
  shows "d_store w d = st \<and>
    (\<exists>e d' w' st'. d_step d opn (w\<lparr>wd_trace := []\<rparr>) = Some (e, d', w') \<and> st' = snd (d_spec (fresh avx cfg) opn st) \<and>
      (is_snapshot opn \<or> e = fst (d_spec (fresh avx cfg) opn st)) \<and> d_store w' d' = st' \<and>
      (\<forall>levels junk. levels_ok levels \<longrightarrow>
        (\<forall>dk \<in> insert (disk_of w) (set (wd_trace w')). \<exists>d2 w2. Open cfg (boot dk levels avx junk) = Some (Inr d2, w2) \<and>
          d_store w2 d2 \<in> {st, st'}) \<and>
        (\<exists>d2 w2. Open cfg (boot (disk_of w') levels avx junk) = Some (Inr d2, w2) \<and> d_store w2 d2 = st')))"
proof -
  let ?c = "fresh avx cfg"
  obtain rs where i: "d_inv cfg ?c w d rs st" "settled rs st" using service_inv [OF assms(2,1)] by blast
  obtain e d' w' rs' where s: "d_step d opn (w\<lparr>wd_trace := []\<rparr>) = Some (e, d', w')" "is_snapshot opn \<or> e = fst (d_spec ?c opn st)"
    "d_inv cfg ?c w' d' rs' (snd (d_spec ?c opn st))"
    "\<forall>dk \<in> insert (disk_of w) (set (wd_trace w')). recoverable cfg ?c dk st \<or> recoverable cfg ?c dk (snd (d_spec ?c opn st))"
    using service_step [OF assms(1) i assms(3)] by blast
  have re: "\<exists>d2 w2. Open cfg (boot dk levels avx junk) = Some (Inr d2, w2) \<and> d_store w2 d2 = st2"
    if "levels_ok levels" "recoverable cfg ?c dk st2" for levels junk dk st2
    using Open_boot [OF assms(1) that(1)] that(2) unfolding recoverable_def by blast
  have fin: "on_disk cfg ?c (disk_of w') rs' [] (snd (d_spec ?c opn st))" using s(3) by (simp add: d_inv_def)
  have a: "\<exists>d2 w2. Open cfg (boot dk levels avx junk) = Some (Inr d2, w2) \<and> d_store w2 d2 \<in> {st, snd (d_spec ?c opn st)}"
    if "levels_ok levels" "dk \<in> insert (disk_of w) (set (wd_trace w'))" for levels junk dk
    using s(4) that re [OF that(1), of dk _ junk] by blast
  have b: "\<exists>d2 w2. Open cfg (boot (disk_of w') levels avx junk) = Some (Inr d2, w2) \<and> d_store w2 d2 = snd (d_spec ?c opn st)"
    if "levels_ok levels" for levels junk
    using Open_boot [OF assms(1) that fin] by blast
  show ?thesis
    using s(1,2) a b d_inv_store [OF i(1)] d_inv_store [OF s(3)] by (intro conjI exI [of _ e] exI [of _ d'] exI [of _ w']) auto
qed

text \<open>A small configuration.\<close>

definition ex_cfg :: d_config where
  "ex_cfg = \<lparr>SnapshotPath = ''snap'', WALPath = ''wal'', cf_Space = 1, cf_Dim = 1, cf_MaxElements = 1, cf_M = 2, cf_EfConstruction = 2\<rparr>"

lemma ex_cfg_ok: "cfg_ok ex_cfg" "ix_dim (fresh avx ex_cfg) = 1" "ix_maxElements (fresh avx ex_cfg) = 1"
proof -
  show c: "cfg_ok ex_cfg" by (simp add: cfg_ok_def paths_ok_def ex_cfg_def maxPayloadLen_def)
  show "ix_dim (fresh avx ex_cfg) = 1" "ix_maxElements (fresh avx ex_cfg) = 1"
    using fresh_ok(5,6) [OF c, of avx] by (simp_all add: ex_cfg_def)
qed

lemma ex_levels: "levels_ok (\<lambda>_. 0)"
  by (simp add: levels_ok_def)

lemma ex_service: obtains d w where "service ex_cfg avx w d Map.empty" "disk_of w = [WALPath ex_cfg \<mapsto> header_bytes_wal]"
  using service_starts [OF ex_cfg_ok(1) ex_levels, of Map.empty avx id] by auto

theorem service_crash_safe_witness:
  "\<exists>w d e d' w' d2 w2. service ex_cfg True w d Map.empty \<and> d_step d (D_Add [1] (Label 1 7)) (w\<lparr>wd_trace := []\<rparr>) = Some (e, d', w') \<and>
     e = None \<and> Open ex_cfg (boot (disk_of w') (\<lambda>_. 0) True id) = Some (Inr d2, w2) \<and> d_store w2 d2 (Label 1 7) \<noteq> None"
proof -
  obtain d w where s: "service ex_cfg True w d Map.empty" by (rule ex_service)
  have "op_fine (fresh True ex_cfg) Map.empty (D_Add [1] (Label 1 7))" by (simp add: ex_cfg_ok)
  from service_crash_safe [OF ex_cfg_ok(1) s this] obtain e d' w' where
    1: "d_step d (D_Add [1] (Label 1 7)) (w\<lparr>wd_trace := []\<rparr>) = Some (e, d', w')"
      "e = fst (d_spec (fresh True ex_cfg) (D_Add [1] (Label 1 7)) Map.empty)"
      "\<forall>levels junk. levels_ok levels \<longrightarrow> (\<exists>d2 w2. Open ex_cfg (boot (disk_of w') levels True junk) = Some (Inr d2, w2) \<and>
        d_store w2 d2 = snd (d_spec (fresh True ex_cfg) (D_Add [1] (Label 1 7)) Map.empty))"
    by (auto simp: is_snapshot_def)
  then obtain d2 w2 where "Open ex_cfg (boot (disk_of w') (\<lambda>_. 0) True id) = Some (Inr d2, w2)"
    "d_store w2 d2 = snd (d_spec (fresh True ex_cfg) (D_Add [1] (Label 1 7)) Map.empty)" using ex_levels by blast
  moreover from this have "d_store w2 d2 (Label 1 7) \<noteq> None" "e = None" using 1(2) by (simp_all add: add_spec_def ex_cfg_ok)
  ultimately show ?thesis using s 1(1) by blast
qed

end
