(* ===== verification/Durable_Faults.thy ===== *)
theory Durable_Faults
  imports Durable_Recovery
begin

text \<open>
  What the durable index does not recover from. Each theorem drops one of the conditions of
  crash safety: an insertion into a full index, a deletion of a key that is added later, a
  failed write of the log, a snapshot that the disk did not hold, and a crash that leaves the new log behind.
\<close>

section \<open>A full index\<close>

text \<open>
  C35: An insertion into a full index is logged before it fails. The service answers with \<open>ErrFull\<close> and keeps
  its store, but from then on, until a snapshot succeeds, the log cannot be replayed: \<open>Open\<close> fails.
\<close>

theorem full_add_poisons_log:
  assumes "cfg_ok cfg" "service cfg avx w d st" "int (length v) = cf_Dim cfg" "key \<notin> dom st" "int (card (dom st)) = cf_MaxElements cfg"
  shows "\<exists>e w'. d_Add d v key w = Some (Some e, w') \<and> errors_Is e ErrFull \<and> d_store w' d = st \<and>
    (\<forall>levels junk. levels_ok levels \<longrightarrow>
      (\<exists>e' w2. Open cfg (boot (disk_of w') levels avx junk) = Some (Inl e', w2) \<and> errors_Is e' ErrFull))"
proof -
  let ?c = "fresh avx cfg" and ?opn = "D_Add v key"
  obtain rs where i: "d_inv cfg ?c w d rs st" using service_inv [OF assms(2,1)] by blast
  note fr = fresh_ok [OF assms(1), of avx]
  have sp: "add_spec ?c v key st = (Some ErrFull, st)" using assms(4,5) fr(6) by (auto simp: add_spec_def)
  have rf: "rec_fine c' (op_rec ?opn)" if "c' = ?c" for c'
    by (rule op_rec_fine [OF assms(1) that]) (use assms(3) fr(5) that in \<open>simp_all add: is_snapshot_def\<close>)
  have rs: "rec_spec ?c (op_rec ?opn) st = (Some ErrFull, st)" using sp by (simp add: rec_spec_def r_key_def ignoring_def)
  obtain w' where w': "d_step d ?opn w = Some (fst (d_spec ?c ?opn st), d, w')"
    "serves (pass (growing (disk_of w) (WALPath cfg) (log_bytes rs) (rec_bytes (op_rec ?opn))) w) (d_idx d) ?c w' st"
    using op_logged [OF i rf [OF refl]] sp by (auto simp: is_snapshot_def)
  note q = logged_fields [OF w'(2)]
  have a: "d_Add d v key w = Some (Some (Wrap ''durable: index add (already logged to WAL): '' ErrFull), w')"
    using w'(1) sp by (auto simp: d_step_def)
  have "d_store w' d = st" using w'(2) by (auto simp: serves_def d_store_def go_live_def cs_store_def)
  moreover have "\<exists>e' w2. Open cfg (boot (disk_of w') levels avx junk) = Some (Inl e', w2) \<and> errors_Is e' ErrFull"
    if lv: "levels_ok levels" for levels junk
  proof -
    let ?b = "boot (disk_of w') levels avx junk"
    have od: "on_disk cfg ?c (disk_of w) rs [] st" "SnapshotPath cfg \<noteq> WALPath cfg"
      using i assms(1) by (auto simp: d_inv_def cfg_ok_def paths_ok_def)
    then obtain base where base: "base_store cfg ?c (disk_of w) base" "spec_all (rec_spec ?c) rs base = (None, st)"
      "\<forall>r \<in> set rs. rec_fine ?c r" by (auto simp: on_disk_def)
    have "base_store cfg ?c (disk_of w') base" using base(1) od(2) by (simp add: base_store_def q(1))
    then obtain g w1 where 1: "loadOrCreateIndex cfg ?b = Some (Inr g, w1)" "serves ?b g ?c w1 base"
      using load_ok [OF assms(1) ready_boot [OF lv, of "disk_of w'" avx junk], of ?c base] by auto
    note q1 = quiet_fields [OF serves_quiet [OF 1(2)]]
    have "spec_all (rec_spec ?c) (rs @ [op_rec ?opn]) base = (Some ErrFull, st)" using base(2) rs by (simp add: spec_all_snoc)
    moreover have "\<forall>r \<in> set (rs @ [op_rec ?opn]). rec_fine ?c r \<and> rec_ok r" using base(3) rf [OF refl] by (auto simp: rec_fine_def)
    ultimately obtain n off msg w2 where
      "replay_bytes (apply_record g) (WALPath cfg) (log_bytes (rs @ [op_rec ?opn]) @ []) w1 = Some (n, off, Some (Wrap msg ErrFull), w2)"
      using rep.replay [OF 1(2), of "rs @ [op_rec ?opn]" "Some ErrFull" st "[]" "WALPath cfg"] by auto
    then have "Replay (apply_record g) (WALPath cfg) w1 = Some (n, off, Some (Wrap msg ErrFull), w2)"
      using q1 by (simp add: Replay_def os_simps q(1) log_snoc)
    then show ?thesis using 1(1) by (auto simp: Open_def)
  qed
  ultimately show ?thesis using a by (intro exI [of _ "Wrap _ ErrFull"] exI [of _ w']) auto
qed

text \<open>A service whose only place is taken.\<close>

lemma ex_full: obtains d w where "service ex_cfg avx w d [Label 1 7 \<mapsto> (query_vec (fresh avx ex_cfg) [1], False)]"
  "disk_of w (WALPath ex_cfg @ ''.new'') = None"
proof -
  let ?c = "fresh avx ex_cfg" and ?opn = "D_Add [1] (Label 1 7)"
  obtain d w where s: "service ex_cfg avx w d Map.empty" "disk_of w = [WALPath ex_cfg \<mapsto> header_bytes_wal]" by (rule ex_service)
  have f: "op_fine ?c Map.empty ?opn" by (simp add: ex_cfg_ok)
  obtain rs where i: "d_inv ex_cfg ?c w d rs Map.empty" using service_inv [OF s(1) ex_cfg_ok(1)] by blast
  have i0: "d_inv ex_cfg ?c (w\<lparr>wd_trace := []\<rparr>) d rs Map.empty" using i by simp
  have rf: "rec_fine ?c (op_rec ?opn)" by (rule op_rec_fine [OF ex_cfg_ok(1) refl]) (simp_all add: is_snapshot_def ex_cfg_ok)
  obtain w' where w': "d_step d ?opn (w\<lparr>wd_trace := []\<rparr>) = Some (fst (d_spec ?c ?opn Map.empty), d, w')"
    "disk_of w' = (disk_of w)(WALPath ex_cfg \<mapsto> log_bytes rs @ rec_bytes (op_rec ?opn))"
    using op_logged [OF i0 rf] logged_fields(1) by (fastforce simp: is_snapshot_def)
  have "service ex_cfg avx w' d [Label 1 7 \<mapsto> (query_vec ?c [1], False)]"
    using service_op [OF s(1) f w'(1)] by (simp add: add_spec_def ex_cfg_ok)
  moreover have "disk_of w' (WALPath ex_cfg @ ''.new'') = None" using w'(2) s(2) by (simp add: ex_cfg_def)
  ultimately show ?thesis by (rule that)
qed

theorem full_add_poisons_log_witness:
  "\<exists>w d e w' e' w2. d_Add d [1] (Label 1 8) w = Some (Some e, w') \<and> Open ex_cfg (boot (disk_of w') (\<lambda>_. 0) True id) = Some (Inl e', w2) \<and>
     errors_Is e ErrFull \<and> errors_Is e' ErrFull"
proof -
  obtain d w where s: "service ex_cfg True w d [Label 1 7 \<mapsto> (query_vec (fresh True ex_cfg) [1], False)]" by (rule ex_full)
  have "int (length [1 :: f32]) = cf_Dim ex_cfg" "Label 1 8 \<notin> dom [Label 1 7 \<mapsto> (query_vec (fresh True ex_cfg) [1], False)]"
    "int (card (dom [Label 1 7 \<mapsto> (query_vec (fresh True ex_cfg) [1], False)])) = cf_MaxElements ex_cfg"
    by (simp_all add: ex_cfg_def Label_def)
  from full_add_poisons_log [OF ex_cfg_ok(1) s this] show ?thesis using ex_levels by blast
qed

section \<open>A failed write\<close>

text \<open>A record behind the first byte of another one: the four bytes of the length are shifted.\<close>

lemma take_le: "j \<le> k \<Longrightarrow> take j (le k n) = le j n"
proof (induction k arbitrary: j n)
  case (Suc k)
  then show ?case by (cases j) simp_all
qed simp

lemma readRecord_shifted:
  assumes "rec_ok r" shows "readRecord (take 1 (rec_bytes r') @ rec_bytes r) = None"
proof -
  let ?n = "21 + length (r_Vector r) * 4"
  have n: "?n \<noteq> 2 ^ 24" by (simp, presburger)
  then have n: "?n < 2 ^ 24" using assms by (simp add: rec_ok_def maxPayloadLen_def)
  obtain b bs where b: "rec_bytes r' = b # bs" by (cases "rec_bytes r'") (auto dest: arg_cong [of _ _ length])
  have le: "take 3 (le 4 ?n) = le 3 ?n" by (rule take_le) simp
  have "un_le (take 4 (b # rec_bytes r)) = unat b + 256 * ?n"
    using n le by (simp add: rec_bytes_def un_le_le)
  then show ?thesis using b by (auto simp: readRecord_def readFull_def Let_def)
qed

text \<open>
  C36: A write that fails half-way is not undone. After an insertion that failed because one byte of its
  record was written, the client repeats it and is told that it succeeded. The index has the vector then,
  but after a crash replay stops at the torn byte: the insertion is lost, and so would be what follows.
\<close>

theorem failed_write_loses_retry:
  assumes "cfg_ok cfg" "service cfg avx w d st" "int (length v) = cf_Dim cfg" "st key = None" "int (card (dom st)) < cf_MaxElements cfg"
  shows "\<exists>e w1 w2. d_Add d v key (w\<lparr>wd_plan := [Some 1]\<rparr>) = Some (Some e, w1) \<and> d_Add d v key w1 = Some (None, w2) \<and>
    d_store w2 d key \<noteq> None \<and>
    (\<forall>levels junk. levels_ok levels \<longrightarrow> (\<exists>d3 w3. Open cfg (boot (disk_of w2) levels avx junk) = Some (Inr d3, w3) \<and> d_store w3 d3 = st))"
proof -
  let ?c = "fresh avx cfg" and ?opn = "D_Add v key" and ?wal = "WALPath cfg"
  let ?r = "op_rec ?opn" and ?w = "w\<lparr>wd_plan := [Some 1]\<rparr>"
  obtain rs where i: "d_inv cfg ?c w d rs st" using service_inv [OF assms(2,1)] by blast
  note fr = fresh_ok [OF assms(1), of avx]
  have rf: "rec_fine ?c ?r"
    by (rule op_rec_fine [OF assms(1) refl]) (use assms(3) fr(5) in \<open>simp_all add: is_snapshot_def\<close>)
  have od: "disk_of w ?wal = Some (log_bytes rs)" "d_w d = \<lparr>w_path = ?wal, w_open = True\<rparr>" "on_disk cfg ?c (disk_of w) rs [] st"
    using i by (auto simp: d_inv_def)
  obtain ix where ix: "go_live w (d_idx d) ix" "config ix = config ?c" "abs_ix ix = st" using i by (auto simp: d_inv_def)
  let ?b = "take 1 (rec_bytes ?r)"
  let ?w1 = "pass (growing (disk_of w) ?wal (log_bytes rs) ?b) (w\<lparr>wd_plan := []\<rparr>)"
  have enc: "encode ?r = Inr (rec_bytes ?r)" using rf by (intro encode_encodable) (simp add: rec_fine_def rec_ok_def)
  have 1: "d_Add d v key ?w = Some (Some (Wrap ''durable: wal append: '' (Wrap ''wal: write: '' Os_failed)), ?w1)"
    using enc od(1,2) by (simp add: d_Add_def Append_def os_write_def sys_call_def Let_def)
  have l1: "go_live ?w1 (d_idx d) ix" using ix(1) by (simp add: go_live_def)
  have dk1: "disk_of ?w1 = (disk_of w)(?wal \<mapsto> log_bytes rs @ ?b)" by (simp add: last_growing')
  obtain w2 where w2: "d_step d ?opn ?w1 = Some (fst (d_spec ?c ?opn st), d, w2)"
    "serves (pass (growing (disk_of ?w1) ?wal (log_bytes rs @ ?b) (rec_bytes ?r)) ?w1) (d_idx d) ?c w2 (snd (d_spec ?c ?opn st))"
    using op_logged_gen [OF od(2) _ _ l1 ix(2,3) rf, of "log_bytes rs @ ?b"] dk1 by (auto simp: is_snapshot_def)
  have sp: "add_spec ?c v key st = (None, st(key \<mapsto> (query_vec ?c v, False)))" using assms(4,5) fr(6) by (simp add: add_spec_def)
  have 2: "d_Add d v key ?w1 = Some (None, w2)" using w2(1) sp by (auto simp: d_step_def)
  have "d_store w2 d = st(key \<mapsto> (query_vec ?c v, False))" using w2(2) sp by (auto simp: serves_def d_store_def go_live_def cs_store_def)
  moreover have dk2: "disk_of w2 = (disk_of w)(?wal \<mapsto> log_bytes rs @ ?b @ rec_bytes ?r)"
    using logged_fields(1) [OF w2(2)] dk1 by simp
  moreover have "readRecord (?b @ rec_bytes ?r) = None" using rf by (intro readRecord_shifted) (simp add: rec_fine_def)
  then have "on_disk cfg ?c (disk_of w2) rs (?b @ rec_bytes ?r) st"
    using od(3) assms(1) dk2 by (auto simp: on_disk_def base_store_def cfg_ok_def paths_ok_def)
  then have "\<exists>d3 w3. Open cfg (boot (disk_of w2) levels avx junk) = Some (Inr d3, w3) \<and> d_store w3 d3 = st"
    if "levels_ok levels" for levels junk using Open_boot [OF assms(1) that] by blast
  ultimately show ?thesis using 1 2 by auto
qed

theorem failed_write_loses_retry_witness:
  "\<exists>w d e w1 w2 d3 w3. d_Add d [1] (Label 1 7) (w\<lparr>wd_plan := [Some 1]\<rparr>) = Some (Some e, w1) \<and> d_Add d [1] (Label 1 7) w1 = Some (None, w2) \<and>
     Open ex_cfg (boot (disk_of w2) (\<lambda>_. 0) True id) = Some (Inr d3, w3) \<and> d_store w3 d3 (Label 1 7) = None"
proof -
  obtain d w where s: "service ex_cfg True w d Map.empty" by (rule ex_service)
  have "int (length [1 :: f32]) = cf_Dim ex_cfg" "Map.empty (Label 1 7) = None" "int (card (dom (Map.empty :: store))) < cf_MaxElements ex_cfg"
    by (simp_all add: ex_cfg_def)
  from failed_write_loses_retry [OF ex_cfg_ok(1) s this] obtain e w1 w2 where
    1: "d_Add d [1] (Label 1 7) (w\<lparr>wd_plan := [Some 1]\<rparr>) = Some (Some e, w1)" "d_Add d [1] (Label 1 7) w1 = Some (None, w2)"
    and r: "\<forall>levels junk. levels_ok levels \<longrightarrow> (\<exists>d3 w3. Open ex_cfg (boot (disk_of w2) levels True junk) = Some (Inr d3, w3) \<and>
      d_store w3 d3 = Map.empty)" by blast
  obtain d3 w3 where "Open ex_cfg (boot (disk_of w2) (\<lambda>_. 0) True id) = Some (Inr d3, w3)" "d_store w3 d3 = Map.empty"
    using r ex_levels by blast
  then show ?thesis using 1 by (intro exI conjI) (assumption | simp)+
qed

section \<open>Snapshots that go wrong\<close>

lemma flag_after_two: "flag_after (rs @ [r1, r2]) l d = mark_flag r2 l (mark_flag r1 l (flag_after rs l d))"
  by (simp add: flag_after_def)

lemma go_Save_Ok:
  assumes "go_live w g ix" "snapshot_bytes ix = Some bs" "dev_opens dev" "length bs \<le> dev_room dev + dev_buffered dev"
  shows "go_Save g path dev w = Some (None, pass (growing (disk_of w) path [] (take (dev_room dev) bs)) w)"
  using assms by (auto simp: go_Save_def hnsw_save_def save_def go_live_def cast_def codes Let_def pass_def last_growing')

lemma snapshot_result:
  assumes "go_live w (d_idx d) ix" "snapshot_bytes ix = Some bs" "dev_opens dev" "length bs \<le> dev_room dev + dev_buffered dev"
    and "wd_plan w = []" "d_cfg d = cfg"
  obtains w1 where "d_Snapshot d dev w = Some (rotateWAL d w1)" "wd_plan w1 = []" "wd_avx w1 = wd_avx w" "go_live w1 (d_idx d) ix"
    "disk_of w1 = (disk_of w)(SnapshotPath cfg @ ''.tmp'' := None, SnapshotPath cfg \<mapsto> take (dev_room dev) bs)"
    "disk_of w1 \<in> set (wd_trace w1)"
proof -
  let ?tmp = "SnapshotPath cfg @ ''.tmp''" and ?b = "take (dev_room dev) bs"
  let ?w0 = "pass (growing (disk_of w) ?tmp [] ?b) w"
  let ?w1 = "pass [(disk_of ?w0)(?tmp := None, SnapshotPath cfg \<mapsto> ?b)] ?w0"
  have d0: "disk_of ?w0 = (disk_of w)(?tmp \<mapsto> ?b)" by (simp add: last_growing')
  then have "renameWithRetry ?tmp (SnapshotPath cfg) ?w0 = (None, ?w1)" using rename_works [of ?w0 ?tmp ?b] assms(5) by simp
  then have "d_Snapshot d dev w = Some (rotateWAL d ?w1)"
    using go_Save_Ok [OF assms(1-4), of ?tmp] assms(6) by (simp add: d_Snapshot_def Let_def)
  then show thesis by (rule that) (use d0 assms(1,5) in auto)
qed

text \<open>
  C37: Deleting a key that is not there is logged, too. If the key is added afterwards and a snapshot is
  interrupted between its two renames, the new snapshot is loaded and the old log is replayed over it: the deletion comes
  first and now finds the key, the insertion is a duplicate. The vector the service acknowledged comes back deleted.
\<close>

theorem delete_before_add_is_replayed:
  assumes "cfg_ok cfg" "service cfg avx w d st" "int (length v) = cf_Dim cfg" "st key = None" "int (card (dom st)) < cf_MaxElements cfg"
  shows "\<exists>w1 w2 dev res w3 dk. d_MarkDeleted d key (w\<lparr>wd_trace := []\<rparr>) = Some (Some ErrNotFound, w1) \<and>
    d_Add d v key (w1\<lparr>wd_trace := []\<rparr>) = Some (None, w2) \<and> d_store w2 d = st(key \<mapsto> (query_vec (fresh avx cfg) v, False)) \<and>
    d_Snapshot d dev (w2\<lparr>wd_trace := []\<rparr>) = Some (res, w3) \<and> dk \<in> set (wd_trace (snd w3)) \<and>
    (\<forall>levels junk. levels_ok levels \<longrightarrow> (\<exists>d4 w4. Open cfg (boot dk levels avx junk) = Some (Inr d4, w4) \<and>
      d_store w4 d4 = st(key \<mapsto> (query_vec (fresh avx cfg) v, True))))"
proof -
  let ?c = "fresh avx cfg" and ?m = "op_rec (D_Mark key)" and ?a = "op_rec (D_Add v key)"
  let ?st = "st(key \<mapsto> (query_vec ?c v, False))"
  obtain rs where i: "d_inv cfg ?c w d rs st" "settled rs st" using service_inv [OF assms(2,1)] by blast
  note fr = fresh_ok [OF assms(1), of avx]
  have i0: "d_inv cfg ?c (w\<lparr>wd_trace := []\<rparr>) d rs st" using i(1) by simp
  have c0: "?c = fresh (wd_avx (w\<lparr>wd_trace := []\<rparr>)) cfg" using d_inv_avx [OF assms(1) i(1)] by simp
  have "op_fits ?c st (D_Mark key)" by simp
  from op_applied [OF i0 assms(1) c0 this] obtain w1 where
    1: "d_step d (D_Mark key) (w\<lparr>wd_trace := []\<rparr>) = Some (Some ErrNotFound, d, w1)" "d_inv cfg ?c w1 d (rs @ [?m]) st"
    using assms(4) by (auto simp: mark_spec_def spec_mark_def)
  have i1: "d_inv cfg ?c (w1\<lparr>wd_trace := []\<rparr>) d (rs @ [?m]) st" using 1(2) by simp
  have c1: "?c = fresh (wd_avx (w1\<lparr>wd_trace := []\<rparr>)) cfg" using d_inv_avx [OF assms(1) 1(2)] by simp
  have "op_fits ?c st (D_Add v key)" using assms(3,5) fr(5,6) by simp
  from op_applied [OF i1 assms(1) c1 this] obtain w2 where
    2: "d_step d (D_Add v key) (w1\<lparr>wd_trace := []\<rparr>) = Some (None, d, w2)" "d_inv cfg ?c w2 d ((rs @ [?m]) @ [?a]) ?st"
    using assms(4,5) fr(6) by (auto simp: add_spec_def)
  let ?w2 = "w2\<lparr>wd_trace := []\<rparr>" and ?rs = "(rs @ [?m]) @ [?a]"
  obtain ix where ix: "go_live ?w2 (d_idx d) ix" "config ix = config ?c" "abs_ix ix = ?st" using 2(2) by (auto simp: d_inv_def)
  obtain bs where bs: "snapshot_bytes ix = Some bs" using snapshot_bytes_wf ix(1) by (auto simp: go_live_def)
  let ?dev = "\<lparr>dev_opens = True, dev_room = length bs, dev_buffered = 0\<rparr>"
  have pl: "wd_plan ?w2 = []" "d_cfg d = cfg" "d_w d = \<lparr>w_path = WALPath cfg, w_open = True\<rparr>" "disk_of w2 (WALPath cfg) = Some (log_bytes ?rs)"
    "\<forall>r \<in> set ?rs. rec_fine ?c r" using 2(2) by (auto simp: d_inv_def on_disk_def)
  obtain w3 where w3: "d_Snapshot d ?dev ?w2 = Some (rotateWAL d w3)" "wd_plan w3 = []"
    "disk_of w3 = (disk_of ?w2)(SnapshotPath cfg @ ''.tmp'' := None, SnapshotPath cfg \<mapsto> take (dev_room ?dev) bs)"
    "disk_of w3 \<in> set (wd_trace w3)"
    by (rule snapshot_result [OF ix(1) bs _ _ pl(1,2), of ?dev]) auto
  let ?dk = "disk_of w3"
  have p: "SnapshotPath cfg \<noteq> WALPath cfg" "SnapshotPath cfg @ ''.tmp'' \<noteq> WALPath cfg" using assms(1) by (auto simp: cfg_ok_def paths_ok_def)
  have "obj_ok ix" using ix(1) by (simp add: go_live_def obj_ok_def)
  then have base: "base_store cfg ?c ?dk ?st" using w3(3) bs ix(2,3) by (auto simp: base_store_def)
  have k: "r_key ` set rs \<subseteq> dom st" "marked rs st = st" using i(2) by (auto simp: settled_def)
  have "r_key ` set ?rs \<subseteq> dom ?st" using k(1) by (auto simp: r_key_def)
  then have sp: "spec_all (rec_spec ?c) ?rs ?st = (None, marked ?rs ?st)" by (rule spec_all_present [OF pl(5)])
  have "marked ?rs ?st l = (st(key \<mapsto> (query_vec ?c v, True))) l" for l
  proof (cases "l = key")
    case False
    then have "marked ?rs ?st l = marked rs st l" by (auto simp: marked_def flag_after_two mark_flag_def r_key_def split: option.split)
    then show ?thesis using k(2) False by simp
  qed (simp add: marked_def flag_after_two mark_flag_def r_key_def)
  then have "marked ?rs ?st = st(key \<mapsto> (query_vec ?c v, True))" ..
  then have od: "on_disk cfg ?c ?dk ?rs [] (st(key \<mapsto> (query_vec ?c v, True)))"
    using base sp pl(4,5) p w3(3) by (auto simp: on_disk_def)
  obtain e d' w4 where r: "rotateWAL d w3 = (e, d', w4)" by (cases "rotateWAL d w3") auto
  have "?dk \<in> set (wd_trace w4)"
    using r w3(4) rotate_result [OF w3(2) pl(2,3)] rotated_trace(3) [of w3 "WALPath cfg"] by (auto split: if_splits)
  moreover have "\<exists>d4 w4. Open cfg (boot ?dk levels avx junk) = Some (Inr d4, w4) \<and> d_store w4 d4 = st(key \<mapsto> (query_vec ?c v, True))"
    if "levels_ok levels" for levels junk using Open_boot [OF assms(1) that od] by blast
  moreover have "d_MarkDeleted d key (w\<lparr>wd_trace := []\<rparr>) = Some (Some ErrNotFound, w1)" "d_Add d v key (w1\<lparr>wd_trace := []\<rparr>) = Some (None, w2)"
    using 1(1) 2(1) by (auto simp: d_step_def)
  ultimately show ?thesis
    using w3(1) r d_inv_store [OF 2(2)]
    by (intro exI [of _ w1] exI [of _ w2] exI [of _ ?dev] exI [of _ e] exI [of _ "(d', w4)"] exI [of _ ?dk]) simp
qed

theorem delete_before_add_is_replayed_witness:
  "\<exists>w d dk d4 w4. service ex_cfg True w d Map.empty \<and> Open ex_cfg (boot dk (\<lambda>_. 0) True id) = Some (Inr d4, w4) \<and>
     (\<exists>x. d_store w4 d4 (Label 1 7) = Some (x, True))"
proof -
  obtain d w where s: "service ex_cfg True w d Map.empty" by (rule ex_service)
  have "int (length [1 :: f32]) = cf_Dim ex_cfg" "Map.empty (Label 1 7) = None" "int (card (dom (Map.empty :: store))) < cf_MaxElements ex_cfg"
    by (simp_all add: ex_cfg_def)
  from delete_before_add_is_replayed [OF ex_cfg_ok(1) s this] obtain dk where
    r: "\<forall>levels junk. levels_ok levels \<longrightarrow> (\<exists>d4 w4. Open ex_cfg (boot dk levels True junk) = Some (Inr d4, w4) \<and>
      d_store w4 d4 = Map.empty(Label 1 7 \<mapsto> (query_vec (fresh True ex_cfg) [1], True)))" by blast
  obtain d4 w4 where "Open ex_cfg (boot dk (\<lambda>_. 0) True id) = Some (Inr d4, w4)"
      "d_store w4 d4 = Map.empty(Label 1 7 \<mapsto> (query_vec (fresh True ex_cfg) [1], True))"
    using r ex_levels by blast
  then show ?thesis using s by (intro exI conjI) (assumption | simp)+
qed

lemma leftover_blocks_snapshots:
  assumes "wd_plan w = []" "d_cfg d = cfg" "d_w d = \<lparr>w_path = WALPath cfg, w_open = True\<rparr>"
    and "disk_of w (WALPath cfg @ ''.new'') = Some x" "go_live w (d_idx d) ix"
    and p: "SnapshotPath cfg @ ''.tmp'' \<noteq> WALPath cfg @ ''.new''" "SnapshotPath cfg \<noteq> WALPath cfg @ ''.new''"
  shows "\<exists>e d' w'. d_Snapshot d dev w = Some (Some e, d', w') \<and> disk_of w' (WALPath cfg @ ''.new'') = Some x"
proof -
  let ?tmp = "SnapshotPath cfg @ ''.tmp''" and ?new = "WALPath cfg @ ''.new''"
  obtain bs where bs: "snapshot_bytes ix = Some bs" using snapshot_bytes_wf assms(5) by (auto simp: go_live_def)
  have "go_live w (d_idx d) ix \<Longrightarrow> \<exists>e w1. go_Save (d_idx d) ?tmp dev w = Some (e, w1) \<and> wd_plan w1 = [] \<and>
      disk_of w1 ?new = Some x \<and> (e = None \<longrightarrow> disk_of w1 ?tmp \<noteq> None)"
    using assms(1,4) p(1) bs by (auto simp: go_Save_def hnsw_save_def save_def go_live_def cast_def codes Let_def)
  then obtain e w1 where s: "go_Save (d_idx d) ?tmp dev w = Some (e, w1)" "wd_plan w1 = []" "disk_of w1 ?new = Some x"
    "e = None \<longrightarrow> disk_of w1 ?tmp \<noteq> None" using assms(5) by blast
  show ?thesis
  proof (cases e)
    case (Some y)
    then show ?thesis using s assms(2) by (simp add: d_Snapshot_def Let_def)
  next
    case None
    then obtain y where y: "disk_of w1 ?tmp = Some y" using s(4) by auto
    let ?w2 = "pass [(disk_of w1)(?tmp := None, SnapshotPath cfg \<mapsto> y)] w1"
    have "disk_of ?w2 ?new = Some x" using s(3) p by auto
    then show ?thesis
      using rename_works [OF s(2) y, of "SnapshotPath cfg"] rotate_result [of ?w2 d cfg] assms(2,3) s(1,2) None
      by (simp add: d_Snapshot_def Let_def)
  qed
qed

text \<open>
  C38: A crash between the creation and the renaming of the new log leaves that file behind. The
  store is recovered, but no process that opens this disk can take a snapshot any more, on any device:
  \<open>Create\<close> refuses the file that is there, \<open>Open\<close> does not remove it, and the log grows for ever.
\<close>

theorem interrupted_rotation_blocks_snapshots:
  assumes "cfg_ok cfg" "service cfg avx w d st" "disk_of w (WALPath cfg @ ''.new'') = None"
  shows "\<exists>dev res w3 dk. d_Snapshot d dev (w\<lparr>wd_trace := []\<rparr>) = Some (res, w3) \<and> dk \<in> set (wd_trace (snd w3)) \<and>
    (\<forall>levels junk. levels_ok levels \<longrightarrow> (\<exists>d4 w4. Open cfg (boot dk levels avx junk) = Some (Inr d4, w4) \<and> d_store w4 d4 = st \<and>
      (\<forall>dev'. \<exists>e d5 w5. d_Snapshot d4 dev' w4 = Some (Some e, d5, w5) \<and> disk_of w5 (WALPath cfg @ ''.new'') \<noteq> None)))"
proof -
  let ?c = "fresh avx cfg" and ?w = "w\<lparr>wd_trace := []\<rparr>" and ?new = "WALPath cfg @ ''.new''" and ?snap = "SnapshotPath cfg"
  obtain rs where i: "d_inv cfg ?c w d rs st" "settled rs st" using service_inv [OF assms(2,1)] by blast
  obtain ix where ix: "go_live ?w (d_idx d) ix" "config ix = config ?c" "abs_ix ix = st" using i(1) by (auto simp: d_inv_def)
  obtain bs where bs: "snapshot_bytes ix = Some bs" using snapshot_bytes_wf ix(1) by (auto simp: go_live_def)
  let ?dev = "\<lparr>dev_opens = True, dev_room = length bs, dev_buffered = 0\<rparr>"
  have pl: "wd_plan ?w = []" "d_cfg d = cfg" "d_w d = \<lparr>w_path = WALPath cfg, w_open = True\<rparr>" "disk_of w (WALPath cfg) = Some (log_bytes rs)"
    "\<forall>r \<in> set rs. rec_fine ?c r" using i(1) by (auto simp: d_inv_def on_disk_def)
  have p: "?snap \<noteq> WALPath cfg" "?snap @ ''.tmp'' \<noteq> WALPath cfg" "?snap \<noteq> ?new" "?snap @ ''.tmp'' \<noteq> ?new" "?new \<noteq> WALPath cfg"
    using assms(1) by (auto simp: cfg_ok_def paths_ok_def dest: arg_cong [of _ _ last])
  obtain w3 where w3: "d_Snapshot d ?dev ?w = Some (rotateWAL d w3)" "wd_plan w3 = []"
    "disk_of w3 = (disk_of ?w)(?snap @ ''.tmp'' := None, ?snap \<mapsto> take (dev_room ?dev) bs)"
    by (rule snapshot_result [OF ix(1) bs _ _ pl(1,2), of ?dev]) auto
  have n3: "disk_of w3 ?new = None" using assms(3) w3(3) p by auto
  let ?dk = "(disk_of w3)(?new \<mapsto> header_bytes_wal)"
  have "rotateWAL d w3 = (None, d, rotated (WALPath cfg) w3)" using rotate_result [OF w3(2) pl(2,3)] n3 by simp
  then have "d_Snapshot d ?dev ?w = Some (None, d, rotated (WALPath cfg) w3)" "?dk \<in> set (wd_trace (rotated (WALPath cfg) w3))"
    using w3(1) rotated_trace(2) by simp_all
  moreover
  have "obj_ok ix" using ix(1) by (simp add: go_live_def obj_ok_def)
  then have "base_store cfg ?c ?dk st" using w3(3) bs ix(2,3) p by (auto simp: base_store_def)
  then have od: "on_disk cfg ?c ?dk rs [] st"
    using settled_replay [OF i(2) pl(5)] pl(4,5) p w3(3) by (auto simp: on_disk_def)
  have "\<exists>d4 w4. Open cfg (boot ?dk levels avx junk) = Some (Inr d4, w4) \<and> d_store w4 d4 = st \<and>
      (\<forall>dev'. \<exists>e d5 w5. d_Snapshot d4 dev' w4 = Some (Some e, d5, w5) \<and> disk_of w5 ?new \<noteq> None)"
    if lv: "levels_ok levels" for levels junk
  proof -
    obtain d4 w4 where o: "Open cfg (boot ?dk levels avx junk) = Some (Inr d4, w4)" "d_inv cfg ?c w4 d4 rs st" "d_store w4 d4 = st"
      "disk_of w4 = ?dk(WALPath cfg \<mapsto> log_bytes rs)"
      using Open_boot [OF assms(1) lv od] by blast
    then have x: "disk_of w4 ?new = Some header_bytes_wal" using p(5) by simp
    obtain ix4 where "go_live w4 (d_idx d4) ix4" using o(2) by (auto simp: d_inv_def)
    then show ?thesis
      using o leftover_blocks_snapshots [of w4 d4 cfg header_bytes_wal ix4] x p by (fastforce simp: d_inv_def)
  qed
  ultimately show ?thesis by (metis snd_conv)
qed

theorem interrupted_rotation_blocks_snapshots_witness:
  "\<exists>dk d4 w4. Open ex_cfg (boot dk (\<lambda>_. 0) True id) = Some (Inr d4, w4) \<and>
     (\<forall>dev'. \<exists>e d5 w5. d_Snapshot d4 dev' w4 = Some (Some e, d5, w5))"
proof -
  obtain d w where s: "service ex_cfg True w d Map.empty" "disk_of w = [WALPath ex_cfg \<mapsto> header_bytes_wal]" by (rule ex_service)
  have "disk_of w (WALPath ex_cfg @ ''.new'') = None" using s(2) by (simp add: ex_cfg_def)
  from interrupted_rotation_blocks_snapshots [OF ex_cfg_ok(1) s(1) this] obtain dk where
    "\<forall>levels junk. levels_ok levels \<longrightarrow> (\<exists>d4 w4. Open ex_cfg (boot dk levels True junk) = Some (Inr d4, w4) \<and>
      d_store w4 d4 = Map.empty \<and> (\<forall>dev'. \<exists>e d5 w5. d_Snapshot d4 dev' w4 = Some (Some e, d5, w5) \<and>
        disk_of w5 (WALPath ex_cfg @ ''.new'') \<noteq> None))" by blast
  from this [rule_format, OF ex_levels, of id] show ?thesis by blast
qed

text \<open>
  C39: \<open>Snapshot\<close> trusts the result of \<open>Index::save\<close>, which does not see a failure to write the bytes
  still in the buffer of the stream. If the disk is full by one byte, it reports success, the log is discarded, and the
  snapshot cannot be loaded: every vector is lost when the process ends.
\<close>

lemma snapshot_length:
  assumes "wf_ix ix" "snapshot_bytes ix = Some bs" "abs_ix ix \<noteq> Map.empty" shows "68 < length bs"
proof -
  have sh: "shape ix" using assms(1) by (simp add: wf_ix_def)
  obtain lab where "abs_ix ix lab \<noteq> None" using assms(3) by fastforce
  then obtain i where "ix_labelToId ix lab = Some i" by (auto simp: abs_ix_def split: option.splits)
  then have "ix_count ix \<noteq> 0" using labels_lookup [OF assms(1)] by fastforce
  moreover have "length (concat (map enc_label (take (ix_count ix) (ix_labels ix)))) = ix_count ix * 16"
    using shapeD(3,7) [OF sh] by (simp add: c_label.length_concat_enc)
  ultimately show ?thesis using snapshot_bytes_Some [OF sh] assms(2) by auto
qed

theorem unflushed_snapshot_loses_everything:
  assumes "cfg_ok cfg" "service cfg avx w d st" "st \<noteq> Map.empty" "disk_of w (WALPath cfg @ ''.new'') = None"
  shows "\<exists>dev w'. d_Snapshot d dev (w\<lparr>wd_trace := []\<rparr>) = Some (None, d, w') \<and> d_store w' d = st \<and>
    (\<forall>levels junk. \<exists>e w2. Open cfg (boot (disk_of w') levels avx junk) = Some (Inl e, w2))"
proof -
  let ?c = "fresh avx cfg" and ?w = "w\<lparr>wd_trace := []\<rparr>" and ?new = "WALPath cfg @ ''.new''" and ?snap = "SnapshotPath cfg"
  obtain rs where i: "d_inv cfg ?c w d rs st" using service_inv [OF assms(2,1)] by blast
  obtain ix where ix: "go_live ?w (d_idx d) ix" "config ix = config ?c" "abs_ix ix = st" using i by (auto simp: d_inv_def)
  have ok: "wf_ix ix" "typed ix" using ix(1) by (auto simp: go_live_def)
  obtain bs where bs: "snapshot_bytes ix = Some bs" using snapshot_bytes_wf [OF ok(1)] by auto
  have len: "68 < length bs" by (rule snapshot_length [OF ok(1) bs]) (use ix(3) assms(3) in simp)
  let ?dev = "\<lparr>dev_opens = True, dev_room = length bs - 1, dev_buffered = 1\<rparr>"
  have pl: "wd_plan ?w = []" "d_cfg d = cfg" "d_w d = \<lparr>w_path = WALPath cfg, w_open = True\<rparr>" using i by (auto simp: d_inv_def)
  have p: "?snap \<noteq> WALPath cfg" "?snap \<noteq> ?new" using assms(1) by (auto simp: cfg_ok_def paths_ok_def)
  obtain w3 where w3: "d_Snapshot d ?dev ?w = Some (rotateWAL d w3)" "wd_plan w3 = []" "go_live w3 (d_idx d) ix"
    "disk_of w3 = (disk_of ?w)(?snap @ ''.tmp'' := None, ?snap \<mapsto> take (dev_room ?dev) bs)"
    by (rule snapshot_result [OF ix(1) bs _ _ pl(1,2), of ?dev]) auto
  have n3: "disk_of w3 ?new = None" using assms(4) w3(4) p by auto
  let ?w' = "rotated (WALPath cfg) w3"
  have "d_Snapshot d ?dev ?w = Some (None, d, ?w')" using rotate_result [OF w3(2) pl(2,3)] n3 w3(1) by simp
  moreover have "d_store ?w' d = st" using w3(3) ix(3) rotated_simps(2) [of "WALPath cfg" w3 "d_idx d" ix]
    by (auto simp: d_store_def go_live_def cs_store_def)
  moreover have "\<exists>e w2. Open cfg (boot (disk_of ?w') levels avx junk) = Some (Inl e, w2)" for levels junk
  proof -
    have f: "disk_of ?w' ?snap = Some (take (length bs - 1) bs)" using w3(4) p by simp
    obtain e where "load avx junk ?snap (Some (take (length bs - 1) bs)) = Some (Inl e)"
      by (rule load_truncated [OF ok bs, of "length bs - 1" avx junk ?snap]) (use len in auto)
    then show ?thesis using f
      by (simp add: Open_def loadOrCreateIndex_def os_simps go_Load_def hnsw_load_def boot_def)
  qed
  ultimately show ?thesis by blast
qed

theorem unflushed_snapshot_loses_everything_witness:
  "\<exists>w d dev d' w' e w2. d_Snapshot d dev w = Some (None, d', w') \<and> d_store w' d (Label 1 7) \<noteq> None \<and>
     Open ex_cfg (boot (disk_of w') (\<lambda>_. 0) True id) = Some (Inl e, w2)"
proof -
  obtain d w where s: "service ex_cfg True w d [Label 1 7 \<mapsto> (query_vec (fresh True ex_cfg) [1], False)]"
    "disk_of w (WALPath ex_cfg @ ''.new'') = None" by (rule ex_full)
  from unflushed_snapshot_loses_everything [OF ex_cfg_ok(1) s(1) _ s(2)] obtain dev w' where
    "d_Snapshot d dev (w\<lparr>wd_trace := []\<rparr>) = Some (None, d, w')"
    "d_store w' d = [Label 1 7 \<mapsto> (query_vec (fresh True ex_cfg) [1], False)]"
    "\<forall>levels junk. \<exists>e w2. Open ex_cfg (boot (disk_of w') levels True junk) = Some (Inl e, w2)" by auto
  moreover from this(2) have "d_store w' d (Label 1 7) \<noteq> None" by simp
  ultimately show ?thesis by blast
qed

end
