(* ===== verification/Durable_Writers.thy ===== *)
theory Durable_Writers
  imports Durable_Recovery
begin

text \<open>
  Concurrent writers of the durable index. \<open>Add\<close>, \<open>MarkDeleted\<close> and \<open>UnmarkDeleted\<close> hold a read lock, so any number of them run
  at once: each first appends its record, under the mutex of the log, and later calls the index. Both
  steps are atomic here; between them other writers may do theirs. \<open>Snapshot\<close> has the lock for itself.

  As long as two calls that overlap are about different keys, memory and log agree on every key without a
  call under way, and a crash at any moment leaves the store the log stands for. For overlapping calls on one key
  the order in the log and the order in memory can differ, and the store then changes in a restart.
\<close>

section \<open>The two steps of a write\<close>

definition log_part :: "durable \<Rightarrow> d_op \<Rightarrow> world \<Rightarrow> go_error option \<times> world" where
  "log_part d opn w = (case Append (d_w d) (op_rec opn) w of (e, w1) \<Rightarrow> (map_option (Wrap ''durable: wal append: '') e, w1))"

definition apply_part :: "durable \<Rightarrow> d_op \<Rightarrow> world \<Rightarrow> (go_error option \<times> world) option" where
  "apply_part d opn w =
     (case opn of
        D_Add v key \<Rightarrow>
          map_option (map_prod (map_option (Wrap ''durable: index add (already logged to WAL): '')) id) (go_Add (d_idx d) v key w)
      | D_Mark key \<Rightarrow> go_MarkDeleted (d_idx d) key w
      | D_Unmark key \<Rightarrow> go_UnmarkDeleted (d_idx d) key w
      | D_Snapshot dev \<Rightarrow> Some (None, w))"

text \<open>One after the other they are the methods.\<close>

lemma d_step_parts:
  assumes "\<not> is_snapshot opn"
  shows "d_step d opn w =
    (case log_part d opn w of (Some e, w1) \<Rightarrow> Some (Some e, d, w1)
     | (None, w1) \<Rightarrow> map_option (\<lambda>(e, w'). (e, d, w')) (apply_part d opn w1))"
  using assms
  by (cases opn)
    (auto simp: is_snapshot_def d_step_def d_Add_def d_MarkDeleted_def d_UnmarkDeleted_def log_part_def apply_part_def
      split: prod.split option.split)

fun op_key :: "d_op \<Rightarrow> label" where
  "op_key (D_Add v key) = key"
| "op_key (D_Mark key) = key"
| "op_key (D_Unmark key) = key"
| "op_key (D_Snapshot dev) = Label 0 0"

text \<open>The specification of a write, on the entry of its key.\<close>

definition key_spec :: "index \<Rightarrow> d_op \<Rightarrow> (f32 list \<times> bool) option \<Rightarrow> go_error option \<times> (f32 list \<times> bool) option" where
  "key_spec c opn x =
     (case opn of
        D_Add v key \<Rightarrow>
          if x = None then (None, Some (query_vec c v, False))
          else (Some (Wrap ''durable: index add (already logged to WAL): '' ErrDuplicateLabel), x)
      | D_Mark key \<Rightarrow> (case x of Some (v, False) \<Rightarrow> (None, Some (v, True)) | _ \<Rightarrow> (Some ErrNotFound, x))
      | D_Unmark key \<Rightarrow> (case x of Some (v, True) \<Rightarrow> (None, Some (v, False)) | _ \<Rightarrow> (Some ErrNotFound, x))
      | D_Snapshot dev \<Rightarrow> (None, x))"

lemma d_spec_key:
  assumes "\<forall>v key. opn = D_Add v key \<longrightarrow> key \<in> dom st \<or> card (dom st) \<noteq> ix_maxElements c"
  shows "d_spec c opn st = (fst (key_spec c opn (st (op_key opn))), st(op_key opn := snd (key_spec c opn (st (op_key opn)))))"
proof (cases opn)
  case (D_Add v key)
  then show ?thesis using assms by (cases "st key") (auto simp: key_spec_def add_spec_def fun_upd_idem)
next
  case (D_Mark key)
  then show ?thesis
    by (cases "st key") (auto simp: key_spec_def mark_spec_def spec_mark_def fun_upd_idem split: bool.split)
next
  case (D_Unmark key)
  then show ?thesis
    by (cases "st key") (auto simp: key_spec_def mark_spec_def spec_mark_def fun_upd_idem split: bool.split)
qed (simp add: key_spec_def)

lemma fine_key: "op_fine c st opn \<Longrightarrow> \<forall>v key. opn = D_Add v key \<longrightarrow> key \<in> dom st \<or> card (dom st) \<noteq> ix_maxElements c"
  by (metis op_fine.simps(1) less_irrefl)

lemma logged_key: "op_fine c l opn \<Longrightarrow> \<not> is_snapshot opn \<Longrightarrow> snd (key_spec c opn (l (op_key opn))) \<noteq> None"
  by (cases opn) (auto simp: is_snapshot_def key_spec_def split: option.splits bool.splits)

section \<open>Each step\<close>

lemma log_step:
  assumes "wd_plan w = []" "d_w d = \<lparr>w_path = WALPath cfg, w_open = True\<rparr>" "disk_of w (WALPath cfg) = Some (log_bytes rs)"
    and "on_disk cfg c (disk_of w) rs [] l" "settled rs l" and cfg: "cfg_ok cfg" "c = fresh avx cfg"
    and f: "op_fine c l opn" "\<not> is_snapshot opn"
  defines "w' \<equiv> pass (growing (disk_of w) (WALPath cfg) (log_bytes rs) (rec_bytes (op_rec opn))) w"
  shows "log_part d opn w = (None, w')" "disk_of w' (WALPath cfg) = Some (log_bytes (rs @ [op_rec opn]))"
    "on_disk cfg c (disk_of w') (rs @ [op_rec opn]) [] (snd (d_spec c opn l))" "settled (rs @ [op_rec opn]) (snd (d_spec c opn l))"
    "wd_trace w' = wd_trace w @ growing (disk_of w) (WALPath cfg) (log_bytes rs) (rec_bytes (op_rec opn))"
    "dk \<in> set (growing (disk_of w) (WALPath cfg) (log_bytes rs) (rec_bytes (op_rec opn))) \<Longrightarrow>
      recoverable cfg c dk l \<or> recoverable cfg c dk (snd (d_spec c opn l))"
proof -
  have rf: "rec_fine c (op_rec opn)" by (rule op_rec_fine [OF cfg f(2)]) (use f in auto)
  have sn: "SnapshotPath cfg \<noteq> WALPath cfg" using cfg(1) by (simp add: cfg_ok_def paths_ok_def)
  note ad = append_disks [OF assms(4,3) sn rf op_fits_spec [OF op_fine_fits [OF f]]]
  show "log_part d opn w = (None, w')"
    using Append_ok [OF assms(1,3), of "op_rec opn"] assms(2) rf by (simp add: log_part_def w'_def rec_fine_def rec_ok_def)
  show "disk_of w' (WALPath cfg) = Some (log_bytes (rs @ [op_rec opn]))" by (simp add: w'_def last_growing' log_snoc)
  show "on_disk cfg c (disk_of w') (rs @ [op_rec opn]) [] (snd (d_spec c opn l))" using ad(1) by (simp add: w'_def last_growing')
  show s: "settled (rs @ [op_rec opn]) (snd (d_spec c opn l))" by (rule op_settled [OF f rf assms(5)])
  show "wd_trace w' = wd_trace w @ growing (disk_of w) (WALPath cfg) (log_bytes rs) (rec_bytes (op_rec opn))" by (simp add: w'_def)
  show "recoverable cfg c dk l \<or> recoverable cfg c dk (snd (d_spec c opn l))"
    if "dk \<in> set (growing (disk_of w) (WALPath cfg) (log_bytes rs) (rec_bytes (op_rec opn)))"
    using ad(2) [OF that] assms(5) s unfolding recoverable_def by blast
qed

lemma apply_step:
  assumes "go_live w (d_idx d) ix" "config ix = config c" "abs_ix ix = m" "\<not> is_snapshot opn"
    and "\<forall>v key. opn = D_Add v key \<longrightarrow> length v = ix_dim c"
  shows "\<exists>w'. apply_part d opn w = Some (fst (d_spec c opn m), w') \<and> serves w (d_idx d) c w' (snd (d_spec c opn m))"
proof (cases opn)
  case (D_Add v key)
  then have "length v = ix_dim ix" using assms(5) config_cong(1) [OF assms(2)] by simp
  from refines_serves [OF go_Add_refines [OF assms(1) this, of key] assms(2) go_quiet_refl] show ?thesis
    using D_Add by (auto simp: apply_part_def assms(3) add_spec_cong [OF assms(2)])
next
  case (D_Mark key)
  from refines_serves [OF go_mark_refines(1) [OF assms(1), of key] assms(2) go_quiet_refl] show ?thesis
    using D_Mark by (auto simp: apply_part_def assms(3))
next
  case (D_Unmark key)
  from refines_serves [OF go_mark_refines(2) [OF assms(1), of key] assms(2) go_quiet_refl] show ?thesis
    using D_Unmark by (auto simp: apply_part_def assms(3))
qed (use assms(4) in \<open>simp add: is_snapshot_def\<close>)

section \<open>All interleavings\<close>

text \<open>
  The calls \<open>ps\<close> have logged their record and not yet reached the index; \<open>m\<close> is the store in memory and
  \<open>l\<close> the one the log stands for. A crash may come between two steps, within the writing of a record, or in a snapshot.
\<close>

definition may_log :: "index \<Rightarrow> d_op list \<Rightarrow> store \<Rightarrow> d_op \<Rightarrow> bool" where
  "may_log c ps l opn \<longleftrightarrow> \<not> is_snapshot opn \<and> op_key opn \<notin> op_key ` set ps \<and> op_fine c l opn"

inductive writers :: "d_config \<Rightarrow> bool \<Rightarrow> world \<Rightarrow> durable \<Rightarrow> d_op list \<Rightarrow> store \<Rightarrow> store \<Rightarrow> bool" for cfg avx where
  w_start: "service cfg avx w d st \<Longrightarrow> writers cfg avx w d [] st st"
| w_log: "writers cfg avx w d ps m l \<Longrightarrow> may_log (fresh avx cfg) ps l opn \<Longrightarrow> log_part d opn w = (None, w') \<Longrightarrow>
    writers cfg avx w' d (opn # ps) m (snd (d_spec (fresh avx cfg) opn l))"
| w_apply: "writers cfg avx w d ps m l \<Longrightarrow> opn \<in> set ps \<Longrightarrow> apply_part d opn w = Some (e, w') \<Longrightarrow>
    writers cfg avx w' d (remove1 opn ps) (snd (d_spec (fresh avx cfg) opn m)) l"
| w_snapshot: "writers cfg avx w d [] m l \<Longrightarrow> dev_buffered dev = 0 \<Longrightarrow> d_Snapshot d dev (w\<lparr>wd_trace := []\<rparr>) = Some (e, d', w') \<Longrightarrow>
    writers cfg avx w' d' [] m l"
| w_crash: "writers cfg avx w d ps m l \<Longrightarrow> levels_ok levels \<Longrightarrow> Open cfg (boot (disk_of w) levels avx junk) = Some (Inr d2, w2) \<Longrightarrow>
    writers cfg avx w2 d2 [] (d_store w2 d2) (d_store w2 d2)"
| w_crash_log: "writers cfg avx w d ps m l \<Longrightarrow> may_log (fresh avx cfg) ps l opn \<Longrightarrow> log_part d opn (w\<lparr>wd_trace := []\<rparr>) = (e, w') \<Longrightarrow>
    dk \<in> set (wd_trace w') \<Longrightarrow> levels_ok levels \<Longrightarrow> Open cfg (boot dk levels avx junk) = Some (Inr d2, w2) \<Longrightarrow>
    writers cfg avx w2 d2 [] (d_store w2 d2) (d_store w2 d2)"
| w_crash_snapshot: "writers cfg avx w d [] m l \<Longrightarrow> dev_buffered dev = 0 \<Longrightarrow> d_Snapshot d dev (w\<lparr>wd_trace := []\<rparr>) = Some (e, d', w') \<Longrightarrow>
    dk \<in> set (wd_trace w') \<Longrightarrow> levels_ok levels \<Longrightarrow> Open cfg (boot dk levels avx junk) = Some (Inr d2, w2) \<Longrightarrow>
    writers cfg avx w2 d2 [] (d_store w2 d2) (d_store w2 d2)"

definition on_keys :: "index \<Rightarrow> d_op list \<Rightarrow> store \<Rightarrow> store \<Rightarrow> bool" where
  "on_keys c ps m l \<longleftrightarrow> distinct (map op_key ps) \<and> (\<forall>key. key \<notin> op_key ` set ps \<longrightarrow> m key = l key) \<and>
     (\<forall>opn \<in> set ps. \<not> is_snapshot opn \<and> (\<forall>v key. opn = D_Add v key \<longrightarrow> length v = ix_dim c) \<and>
        l (op_key opn) = snd (key_spec c opn (m (op_key opn))) \<and> op_key opn \<in> dom l) \<and>
     dom m \<subseteq> dom l \<and> finite (dom l) \<and> card (dom l) \<le> ix_maxElements c"

definition w_inv :: "d_config \<Rightarrow> index \<Rightarrow> world \<Rightarrow> durable \<Rightarrow> d_op list \<Rightarrow> store \<Rightarrow> wal_record list \<Rightarrow> store \<Rightarrow> bool" where
  "w_inv cfg c w d ps m rs l \<longleftrightarrow> d_cfg d = cfg \<and> d_w d = \<lparr>w_path = WALPath cfg, w_open = True\<rparr> \<and>
     (\<exists>ix. go_live w (d_idx d) ix \<and> config ix = config c \<and> abs_ix ix = m) \<and> wd_plan w = [] \<and> wd_avx w = ix_avx c \<and>
     disk_of w (WALPath cfg) = Some (log_bytes rs) \<and> on_disk cfg c (disk_of w) rs [] l \<and> settled rs l \<and> on_keys c ps m l"

lemma w_inv_quiet: "w_inv cfg c w d [] m rs l \<longleftrightarrow> d_inv cfg c w d rs l \<and> settled rs l \<and> m = l \<and> on_keys c [] l l"
  by (auto simp: w_inv_def d_inv_def on_keys_def fun_eq_iff)

lemma w_inv_trace [simp]: "w_inv cfg c (w\<lparr>wd_trace := t\<rparr>) d ps m rs l = w_inv cfg c w d ps m rs l"
  by (simp add: w_inv_def)

lemma w_inv_store: "w_inv cfg c w d ps m rs l \<Longrightarrow> d_store w d = m"
  by (auto simp: w_inv_def d_store_def go_live_def cs_store_def)

lemma d_inv_on_keys:
  assumes "d_inv cfg c w d rs st" shows "on_keys c [] st st"
proof -
  obtain ix where ix: "go_live w (d_idx d) ix" "config ix = config c" "abs_ix ix = st" using assms by (auto simp: d_inv_def)
  then have w: "wf_ix ix" by (simp add: go_live_def)
  have "card (dom st) \<le> ix_maxElements c"
    using card_dom_abs [OF w] count_capacity [OF w] config_cong(2) [OF ix(2)] ix(3) by simp
  moreover have "finite (dom st)"
  proof -
    have "dom st \<subseteq> (\<lambda>i. ix_labels ix ! i) ` {..<ix_count ix}"
      using w unfolding ix(3) [symmetric] by (force simp: abs_ix_def wf_ix_def labels_ok_def split: option.splits)
    then show ?thesis using finite_surj by blast
  qed
  ultimately show ?thesis by (simp add: on_keys_def)
qed

lemma on_keys_log:
  assumes k: "on_keys c ps m l" and f: "may_log c ps l opn"
  shows "on_keys c (opn # ps) m (snd (d_spec c opn l))"
proof -
  let ?k = "op_key opn" and ?x = "snd (key_spec c opn (l (op_key opn)))"
  have f': "\<not> is_snapshot opn" "?k \<notin> op_key ` set ps" "op_fine c l opn" using f by (auto simp: may_log_def)
  have l': "snd (d_spec c opn l) = l(?k := ?x)" using d_spec_key [OF fine_key [OF f'(3)]] by simp
  have x: "?x \<noteq> None" by (rule logged_key [OF f'(3,1)])
  have same: "m ?k = l ?k" using k f'(2) by (auto simp: on_keys_def)
  have d: "dom (l(?k := ?x)) = insert ?k (dom l)" using x by auto
  have "card (insert ?k (dom l)) \<le> ix_maxElements c"
  proof (cases "?k \<in> dom l")
    case True
    then show ?thesis using k by (simp add: on_keys_def insert_absorb)
  next
    case False
    then have "card (dom l) < ix_maxElements c" using f'(1,3) by (cases opn) (auto simp: is_snapshot_def)
    then show ?thesis using False k by (simp add: on_keys_def)
  qed
  moreover have "\<forall>v key. opn = D_Add v key \<longrightarrow> length v = ix_dim c" using f'(3) by auto
  ultimately show ?thesis
    using k f'(1,2) x same unfolding l' on_keys_def d by (auto simp: image_iff)
qed

lemma on_keys_apply:
  assumes k: "on_keys c ps m l" and o: "opn \<in> set ps"
  shows "d_spec c opn m = (fst (key_spec c opn (m (op_key opn))), m(op_key opn := l (op_key opn)))"
    "on_keys c (remove1 opn ps) (m(op_key opn := l (op_key opn))) l"
proof -
  let ?k = "op_key opn"
  have e: "l ?k = snd (key_spec c opn (m ?k))" "?k \<in> dom l" using k o by (auto simp: on_keys_def)
  have "key \<in> dom m \<or> card (dom m) \<noteq> ix_maxElements c" if "opn = D_Add v key" for v key
  proof (rule disjCI)
    assume "\<not> card (dom m) \<noteq> ix_maxElements c"
    then have "dom m = dom l" using k by (intro card_seteq) (auto simp: on_keys_def)
    then show "key \<in> dom m" using e(2) that by simp
  qed
  then show "d_spec c opn m = (fst (key_spec c opn (m ?k)), m(?k := l ?k))" using d_spec_key [of opn m c] e(1) by simp
  have d: "distinct (map op_key ps)" using k by (simp add: on_keys_def)
  then have "distinct ps" by (simp add: distinct_map)
  then have s: "set (remove1 opn ps) = set ps - {opn}" by simp
  have "distinct (map op_key (remove1 opn ps))" using d by (simp add: distinct_map inj_on_diff)
  moreover have ne: "op_key x \<noteq> ?k" if "x \<in> set ps - {opn}" for x
    using d o that by (auto simp: distinct_map dest: inj_onD)
  then have "op_key ` set (remove1 opn ps) = op_key ` set ps - {?k}" unfolding s by auto
  moreover have "dom (m(?k := l ?k)) \<subseteq> dom l"
  proof
    fix x assume "x \<in> dom (m(?k := l ?k))"
    then have "x = ?k \<or> x \<in> dom m" by (auto split: if_splits)
    moreover have "dom m \<subseteq> dom l" using k by (simp add: on_keys_def)
    ultimately show "x \<in> dom l" using e(2) by blast
  qed
  moreover have "\<forall>x \<in> set ps - {opn}. \<not> is_snapshot x \<and> (\<forall>v key. x = D_Add v key \<longrightarrow> length v = ix_dim c) \<and>
      l (op_key x) = snd (key_spec c x ((m(?k := l ?k)) (op_key x))) \<and> op_key x \<in> dom l"
    using k ne unfolding on_keys_def by (metis DiffD1 fun_upd_other)
  ultimately show "on_keys c (remove1 opn ps) (m(?k := l ?k)) l"
    using k unfolding on_keys_def s by auto
qed

text \<open>The invariant, step by step.\<close>

lemma w_inv_log:
  assumes i: "w_inv cfg c w d ps m rs l" and cfg: "cfg_ok cfg" "c = fresh avx cfg" and f: "may_log c ps l opn"
  shows "\<exists>w'. log_part d opn w = (None, w') \<and> w_inv cfg c w' d (opn # ps) m (rs @ [op_rec opn]) (snd (d_spec c opn l)) \<and>
    (\<forall>dk \<in> set (drop (length (wd_trace w)) (wd_trace w')). recoverable cfg c dk l \<or> recoverable cfg c dk (snd (d_spec c opn l)))"
proof -
  have a: "wd_plan w = []" "d_w d = \<lparr>w_path = WALPath cfg, w_open = True\<rparr>" "disk_of w (WALPath cfg) = Some (log_bytes rs)"
    "on_disk cfg c (disk_of w) rs [] l" "settled rs l" "on_keys c ps m l"
    using i by (auto simp: w_inv_def)
  have o: "op_fine c l opn" "\<not> is_snapshot opn" using f by (auto simp: may_log_def)
  note st = log_step [OF a(1-5) cfg o]
  have "w_inv cfg c (pass (growing (disk_of w) (WALPath cfg) (log_bytes rs) (rec_bytes (op_rec opn))) w) d (opn # ps) m
      (rs @ [op_rec opn]) (snd (d_spec c opn l))"
    using i st(2-4) on_keys_log [OF a(6) f] unfolding w_inv_def by simp
  then show ?thesis using st(1,6) by (intro exI [of _ "pass (growing (disk_of w) (WALPath cfg) (log_bytes rs) (rec_bytes (op_rec opn))) w"]) (simp add: st(5))
qed

lemma w_inv_apply:
  assumes i: "w_inv cfg c w d ps m rs l" and o: "opn \<in> set ps"
  shows "\<exists>w'. apply_part d opn w = Some (fst (key_spec c opn (m (op_key opn))), w') \<and>
    w_inv cfg c w' d (remove1 opn ps) (m(op_key opn := l (op_key opn))) rs l \<and> snd (d_spec c opn m) = m(op_key opn := l (op_key opn))"
proof -
  obtain ix where ix: "go_live w (d_idx d) ix" "config ix = config c" "abs_ix ix = m" using i by (auto simp: w_inv_def)
  have k: "on_keys c ps m l" using i by (simp add: w_inv_def)
  then have "\<not> is_snapshot opn" "\<forall>v key. opn = D_Add v key \<longrightarrow> length v = ix_dim c" using o by (auto simp: on_keys_def)
  then obtain w' where w': "apply_part d opn w = Some (fst (d_spec c opn m), w')" "serves w (d_idx d) c w' (snd (d_spec c opn m))"
    using apply_step [OF ix] by blast
  note sp = on_keys_apply [OF k o] and q = quiet_fields [OF serves_quiet [OF w'(2)]]
  have "w_inv cfg c w' d (remove1 opn ps) (m(op_key opn := l (op_key opn))) rs l"
    using i w'(2) sp q unfolding w_inv_def by (auto simp: serves_def)
  then show ?thesis using w'(1) sp(1) by simp
qed

lemma w_inv_reopen:
  assumes "cfg_ok cfg" "levels_ok levels" "recoverable cfg (fresh avx cfg) dk st" "Open cfg (boot dk levels avx junk) = Some (Inr d, w)"
  shows "\<exists>rs. w_inv cfg (fresh avx cfg) w d [] (d_store w d) rs (d_store w d)" "d_store w d = st"
proof -
  obtain rs tail where r: "on_disk cfg (fresh avx cfg) dk rs tail st" "settled rs st" using assms(3) by (auto simp: recoverable_def)
  then have "d_inv cfg (fresh avx cfg) w d rs st \<and> d_store w d = st"
    using Open_boot [OF assms(1,2) r(1), of junk] assms(4) by auto
  then show "\<exists>rs. w_inv cfg (fresh avx cfg) w d [] (d_store w d) rs (d_store w d)" "d_store w d = st"
    using r(2) d_inv_on_keys by (auto simp: w_inv_quiet)
qed

lemma w_inv_snapshot:
  assumes i: "w_inv cfg c w d [] m rs l" and cfg: "cfg_ok cfg" and dev: "dev_buffered dev = 0"
  shows "\<exists>e d' w' rs'. d_Snapshot d dev (w\<lparr>wd_trace := []\<rparr>) = Some (e, d', w') \<and> w_inv cfg c w' d' [] m rs' l \<and>
    (\<forall>dk \<in> set (wd_trace w'). recoverable cfg c dk l)"
proof -
  have "d_inv cfg c (w\<lparr>wd_trace := []\<rparr>) d rs l" "settled rs l" "m = l" "on_keys c [] l l" "paths_ok cfg"
    using i cfg by (auto simp: w_inv_quiet cfg_ok_def)
  from snapshot_step [OF this(1,2,5) dev] this(3,4) show ?thesis by (auto simp: w_inv_quiet)
qed

lemma w_inv_recoverable: "w_inv cfg c w d ps m rs l \<Longrightarrow> recoverable cfg c (disk_of w) l"
  by (auto simp: w_inv_def recoverable_def)

lemma writers_inv:
  assumes "writers cfg avx w d ps m l" "cfg_ok cfg" shows "\<exists>rs. w_inv cfg (fresh avx cfg) w d ps m rs l"
  using assms
proof (induction rule: writers.induct)
  case (w_start w d st)
  then show ?case using service_inv [of cfg avx w d st] d_inv_on_keys by (auto simp: w_inv_quiet)
next
  case (w_log w d ps m l opn w')
  then obtain rs where "w_inv cfg (fresh avx cfg) w d ps m rs l" by blast
  from w_inv_log [OF this w_log.prems refl w_log.hyps(2)] w_log.hyps(3) show ?case by auto
next
  case (w_apply w d ps m l opn e w')
  then obtain rs where "w_inv cfg (fresh avx cfg) w d ps m rs l" by blast
  from w_inv_apply [OF this w_apply.hyps(2)] w_apply.hyps(3) show ?case by (auto simp del: fun_upd_apply)
next
  case (w_snapshot w d m l dev e d' w')
  then obtain rs where "w_inv cfg (fresh avx cfg) w d [] m rs l" by blast
  from w_inv_snapshot [OF this w_snapshot.prems w_snapshot.hyps(2)] w_snapshot.hyps(3) show ?case by auto
next
  case (w_crash w d ps m l levels junk d2 w2)
  then obtain rs where "w_inv cfg (fresh avx cfg) w d ps m rs l" by blast
  from w_inv_reopen(1) [OF w_crash.prems w_crash.hyps(2) w_inv_recoverable [OF this] w_crash.hyps(3)] show ?case .
next
  case (w_crash_log w d ps m l opn e w' dk levels junk d2 w2)
  then obtain rs where i: "w_inv cfg (fresh avx cfg) (w\<lparr>wd_trace := []\<rparr>) d ps m rs l" by auto
  from w_inv_log [OF i w_crash_log.prems refl w_crash_log.hyps(2)] w_crash_log.hyps(3,4)
  obtain st where "recoverable cfg (fresh avx cfg) dk st" by auto
  from w_inv_reopen(1) [OF w_crash_log.prems w_crash_log.hyps(5) this w_crash_log.hyps(6)] show ?case .
next
  case (w_crash_snapshot w d m l dev e d' w' dk levels junk d2 w2)
  then obtain rs where i: "w_inv cfg (fresh avx cfg) w d [] m rs l" by auto
  from w_inv_snapshot [OF i w_crash_snapshot.prems w_crash_snapshot.hyps(2)] w_crash_snapshot.hyps(3,4)
  have "recoverable cfg (fresh avx cfg) dk l" by auto
  from w_inv_reopen(1) [OF w_crash_snapshot.prems w_crash_snapshot.hyps(5) this w_crash_snapshot.hyps(6)] show ?case .
qed

section \<open>Properties\<close>

text \<open>
  C8: Concurrent writers on different keys, under the conditions of \<open>may_log\<close>: a call inserts a new key only while the
  store of the log has room, deletes and undeletes only keys that are in it, and has a key that no call under way has. Snapshots are
  taken on a device that holds back no bytes, no system call fails, a crash kills the process, and the levels are
  between 0 and \<open>2 ^ 24\<close>. Then in every interleaving, through snapshots and crashes, the index in memory
  holds the store \<open>m\<close>, a crash now would recover \<open>l\<close>, and the two agree on every key without a call under
  way; for such a call \<open>l\<close> already has its effect. The call can always go on, and returns what the specification
  says of the entry of its key, which no other call touches. A further call on another key can always be logged, and a crash
  while it is loses nothing but that call.
\<close>

theorem concurrent_writers_safe:
  assumes "cfg_ok cfg" "writers cfg avx w d ps m l" "levels_ok levels"
  shows "d_store w d = m \<and> (\<forall>key. key \<notin> op_key ` set ps \<longrightarrow> m key = l key) \<and>
    (\<exists>d2 w2. Open cfg (boot (disk_of w) levels avx junk) = Some (Inr d2, w2) \<and> d_store w2 d2 = l) \<and>
    (\<forall>opn \<in> set ps. l (op_key opn) = snd (key_spec (fresh avx cfg) opn (m (op_key opn))) \<and>
      (\<exists>w'. apply_part d opn w = Some (fst (key_spec (fresh avx cfg) opn (m (op_key opn))), w') \<and>
        d_store w' d = m(op_key opn := l (op_key opn)))) \<and>
    (\<forall>opn. may_log (fresh avx cfg) ps l opn \<longrightarrow>
      (\<exists>w'. log_part d opn w = (None, w') \<and>
        (\<forall>dk \<in> set (drop (length (wd_trace w)) (wd_trace w')). \<exists>d2 w2. Open cfg (boot dk levels avx junk) = Some (Inr d2, w2) \<and>
          d_store w2 d2 \<in> {l, snd (d_spec (fresh avx cfg) opn l)})))"
proof -
  let ?c = "fresh avx cfg"
  obtain rs where i: "w_inv cfg ?c w d ps m rs l" using writers_inv [OF assms(2,1)] by blast
  then have k: "on_keys ?c ps m l" by (simp add: w_inv_def)
  have re: "\<exists>d2 w2. Open cfg (boot dk levels avx junk) = Some (Inr d2, w2) \<and> d_store w2 d2 = st" if "recoverable cfg ?c dk st" for dk st
    using Open_boot [OF assms(1,3)] that unfolding recoverable_def by blast
  have ap: "\<exists>w'. apply_part d opn w = Some (fst (key_spec ?c opn (m (op_key opn))), w') \<and> d_store w' d = m(op_key opn := l (op_key opn))"
    if "opn \<in> set ps" for opn using w_inv_apply [OF i that] w_inv_store by blast
  have lg: "\<exists>w'. log_part d opn w = (None, w') \<and>
      (\<forall>dk \<in> set (drop (length (wd_trace w)) (wd_trace w')). \<exists>d2 w2. Open cfg (boot dk levels avx junk) = Some (Inr d2, w2) \<and>
        d_store w2 d2 \<in> {l, snd (d_spec ?c opn l)})" if o: "may_log ?c ps l opn" for opn
  proof -
    obtain w' where "log_part d opn w = (None, w')"
      "\<forall>dk \<in> set (drop (length (wd_trace w)) (wd_trace w')). recoverable cfg ?c dk l \<or> recoverable cfg ?c dk (snd (d_spec ?c opn l))"
      using w_inv_log [OF i assms(1) refl o] by blast
    then show ?thesis using re by (intro exI [of _ w']) blast
  qed
  have "\<forall>key. key \<notin> op_key ` set ps \<longrightarrow> m key = l key" "\<forall>opn \<in> set ps. l (op_key opn) = snd (key_spec ?c opn (m (op_key opn)))"
    using k by (auto simp: on_keys_def)
  with ap lg re [OF w_inv_recoverable [OF i]] w_inv_store [OF i] show ?thesis by blast
qed

text \<open>
  C40: Concurrent writers on one key. Two insertions of a key can be logged in one order and reach the index in the
  other. The second in the log is acknowledged and its vector can be searched, the first is refused as a duplicate;
  after a restart the index has the refused vector in place of the acknowledged one.
\<close>

theorem racing_inserts_swap:
  assumes "cfg_ok cfg" "service cfg avx w d st" "st key = None" "int (card (dom st)) < cf_MaxElements cfg"
    and "int (length v1) = cf_Dim cfg" "int (length v2) = cf_Dim cfg"
  shows "\<exists>w1 w2 w3 w4 e. log_part d (D_Add v1 key) w = (None, w1) \<and> log_part d (D_Add v2 key) w1 = (None, w2) \<and>
    apply_part d (D_Add v2 key) w2 = Some (None, w3) \<and> apply_part d (D_Add v1 key) w3 = Some (Some e, w4) \<and> errors_Is e ErrDuplicateLabel \<and>
    d_store w4 d = st(key \<mapsto> (query_vec (fresh avx cfg) v2, False)) \<and>
    (\<forall>levels junk. levels_ok levels \<longrightarrow> (\<exists>d5 w5. Open cfg (boot (disk_of w4) levels avx junk) = Some (Inr d5, w5) \<and>
      d_store w5 d5 = st(key \<mapsto> (query_vec (fresh avx cfg) v1, False))))"
proof -
  let ?c = "fresh avx cfg" and ?o1 = "D_Add v1 key" and ?o2 = "D_Add v2 key"
  let ?s1 = "st(key \<mapsto> (query_vec ?c v1, False))" and ?s2 = "st(key \<mapsto> (query_vec ?c v2, False))"
  note fr = fresh_ok [OF assms(1), of avx]
  have room: "card (dom st) < ix_maxElements ?c" "length v1 = ix_dim ?c" "length v2 = ix_dim ?c" using assms(4-6) fr(5,6) by linarith+
  have f: "op_fine ?c st ?o1" "op_fine ?c ?s1 ?o2" "\<not> is_snapshot ?o1" "\<not> is_snapshot ?o2" using room by (simp_all add: is_snapshot_def)
  have sp: "d_spec ?c ?o1 st = (None, ?s1)" "d_spec ?c ?o2 ?s1 = (Some (Wrap ''durable: index add (already logged to WAL): '' ErrDuplicateLabel), ?s1)"
    "d_spec ?c ?o2 st = (None, ?s2)" "d_spec ?c ?o1 ?s2 = (Some (Wrap ''durable: index add (already logged to WAL): '' ErrDuplicateLabel), ?s2)"
    using room(1) assms(3) by (simp_all add: add_spec_def)
  obtain rs where i: "d_inv cfg ?c w d rs st" "settled rs st" using service_inv [OF assms(2,1)] by blast
  have a: "wd_plan w = []" "d_w d = \<lparr>w_path = WALPath cfg, w_open = True\<rparr>" "disk_of w (WALPath cfg) = Some (log_bytes rs)"
    "on_disk cfg ?c (disk_of w) rs [] st" using i by (auto simp: d_inv_def)
  define w1 where "w1 = pass (growing (disk_of w) (WALPath cfg) (log_bytes rs) (rec_bytes (op_rec ?o1))) w"
  let ?rs1 = "rs @ [op_rec ?o1]"
  note 1 = log_step [OF a i(2) assms(1) refl f(1,3), folded w1_def, unfolded sp(1) snd_conv]
  have p1: "wd_plan w1 = []" using a(1) by (simp add: w1_def)
  define w2 where "w2 = pass (growing (disk_of w1) (WALPath cfg) (log_bytes ?rs1) (rec_bytes (op_rec ?o2))) w1"
  note 2 = log_step [OF p1 a(2) 1(2,3,4) assms(1) refl f(2,4), folded w2_def, unfolded sp(2) snd_conv]
  obtain ix where ix: "go_live w (d_idx d) ix" "config ix = config ?c" "abs_ix ix = st" using i by (auto simp: d_inv_def)
  have "go_live w2 (d_idx d) ix" using ix(1) by (simp add: w2_def w1_def)
  then obtain w3 where 3: "apply_part d ?o2 w2 = Some (None, w3)" "serves w2 (d_idx d) ?c w3 ?s2"
    using apply_step [OF _ ix(2,3) f(4), of w2 d] room(3) unfolding sp(3) by auto
  then obtain ix3 where "go_live w3 (d_idx d) ix3" "config ix3 = config ?c" "abs_ix ix3 = ?s2" by (auto simp: serves_def)
  from apply_step [OF this f(3)] room(2) obtain w4 where
    4: "apply_part d ?o1 w3 = Some (Some (Wrap ''durable: index add (already logged to WAL): '' ErrDuplicateLabel), w4)"
      "serves w3 (d_idx d) ?c w4 ?s2" unfolding sp(4) by auto
  have dk: "disk_of w4 = disk_of w2" using quiet_fields [OF serves_quiet [OF 3(2)]] quiet_fields [OF serves_quiet [OF 4(2)]] by simp
  have "d_store w4 d = ?s2" using 4(2) by (auto simp: serves_def d_store_def go_live_def cs_store_def)
  moreover have "\<exists>d5 w5. Open cfg (boot (disk_of w4) levels avx junk) = Some (Inr d5, w5) \<and> d_store w5 d5 = ?s1" if "levels_ok levels" for levels junk
    using Open_boot [OF assms(1) that 2(3)] unfolding dk by blast
  moreover have "errors_Is (Wrap ''durable: index add (already logged to WAL): '' ErrDuplicateLabel) ErrDuplicateLabel" by simp
  ultimately show ?thesis using 1(1) 2(1) 3(1) 4(1) by blast
qed

theorem concurrent_writers_safe_witness:
  "\<exists>w d ps m l. writers ex_cfg True w d ps m l \<and> ps \<noteq> [] \<and> d_store w d = Map.empty \<and>
     (\<exists>w'. apply_part d (hd ps) w = Some (None, w') \<and> d_store w' d (Label 1 7) \<noteq> None)"
proof -
  let ?c = "fresh True ex_cfg" and ?o = "D_Add [1] (Label 1 7)"
  obtain d w where s: "service ex_cfg True w d Map.empty" by (rule ex_service)
  have f: "may_log ?c [] Map.empty ?o" by (simp add: may_log_def is_snapshot_def ex_cfg_ok)
  obtain w1 where w1: "log_part d ?o w = (None, w1)"
    using w_inv_log writers_inv [OF w_start [OF s] ex_cfg_ok(1)] ex_cfg_ok(1) f by blast
  have w: "writers ex_cfg True w1 d [?o] Map.empty (snd (d_spec ?c ?o Map.empty))" by (rule w_log [OF w_start [OF s] f w1])
  have "d_store w1 d = Map.empty \<and> (\<exists>w'. apply_part d ?o w1 = Some (None, w') \<and> d_store w' d (Label 1 7) \<noteq> None)"
    using concurrent_writers_safe [OF ex_cfg_ok(1) w ex_levels, of id] by (auto simp: key_spec_def)
  moreover have "hd [?o] = ?o" "[?o] \<noteq> []" by simp_all
  ultimately show ?thesis using w by metis
qed

lemma Index_space: "Index avx sp d n m e = Inr ix \<Longrightarrow> ix_space ix = sp"
  by (auto simp: Index_def Let_def split: if_splits)

lemma ex_query: "query_vec (fresh avx ex_cfg) [x] = [x]"
proof -
  have "Index avx L2 1 1 2 2 = Inr (fresh avx ex_cfg)"
    using fresh_ok(1) [OF ex_cfg_ok(1), of avx] by (simp add: ex_cfg_def size_t_def c_int_def to_i32_def HNSW_SPACE_L2_def)
  then have "ix_space (fresh avx ex_cfg) = L2" by (rule Index_space)
  then show ?thesis using ex_cfg_ok(2) [of avx] by (simp add: query_vec_def)
qed

theorem racing_inserts_swap_witness:
  "\<exists>w d w1 w2 w3 w4 e d5 w5. log_part d (D_Add [1] (Label 1 7)) w = (None, w1) \<and> log_part d (D_Add [0] (Label 1 7)) w1 = (None, w2) \<and>
     apply_part d (D_Add [0] (Label 1 7)) w2 = Some (None, w3) \<and> apply_part d (D_Add [1] (Label 1 7)) w3 = Some (Some e, w4) \<and>
     d_store w4 d (Label 1 7) = Some ([0], False) \<and>
     Open ex_cfg (boot (disk_of w4) (\<lambda>_. 0) True id) = Some (Inr d5, w5) \<and> d_store w5 d5 (Label 1 7) = Some ([1], False)"
proof -
  obtain d w where s: "service ex_cfg True w d Map.empty" by (rule ex_service)
  have "Map.empty (Label 1 7) = None" "int (card (dom (Map.empty :: store))) < cf_MaxElements ex_cfg"
    "int (length [1 :: f32]) = cf_Dim ex_cfg" "int (length [0 :: f32]) = cf_Dim ex_cfg" by (simp_all add: ex_cfg_def)
  from racing_inserts_swap [OF ex_cfg_ok(1) s this, unfolded ex_query] obtain w1 w2 w3 w4 e where
    r: "log_part d (D_Add [1] (Label 1 7)) w = (None, w1)" "log_part d (D_Add [0] (Label 1 7)) w1 = (None, w2)"
      "apply_part d (D_Add [0] (Label 1 7)) w2 = Some (None, w3)" "apply_part d (D_Add [1] (Label 1 7)) w3 = Some (Some e, w4)"
      "d_store w4 d = [Label 1 7 \<mapsto> ([0], False)]"
    and o: "\<forall>levels junk. levels_ok levels \<longrightarrow> (\<exists>d5 w5. Open ex_cfg (boot (disk_of w4) levels True junk) = Some (Inr d5, w5) \<and>
      d_store w5 d5 = [Label 1 7 \<mapsto> ([1], False)])" by blast
  obtain d5 w5 where "Open ex_cfg (boot (disk_of w4) (\<lambda>_. 0) True id) = Some (Inr d5, w5)" "d_store w5 d5 = [Label 1 7 \<mapsto> ([1], False)]"
    using o ex_levels by blast
  then show ?thesis using r by (intro exI conjI) (assumption | simp)+
qed

end
