(* ===== verification/Shard_Server.thy ===== *)
theory Shard_Server
  imports Durable_Recovery
begin

text \<open>
  The RPC handlers of a shard, \<open>src/go/shard/server.go\<close>: they check the request, call the durable index
  and translate its error into a gRPC code. Only the code of a status is kept, not its text; logging and
  metrics are left out. A key that is missing from the request is \<open>None\<close>.

  The main result: whatever a shard has been through, the code of a write tells what happened to the store in
  memory, and a request ends with \<open>Internal\<close> exactly if it was accepted and the system calls that log
  it fail. What the log then holds is the subject of \<open>Durable_Recovery\<close> and \<open>Durable_Faults\<close>.
\<close>

section \<open>The handlers\<close>

datatype grpc_code = Canceled | DeadlineExceeded | InvalidArgument | NotFound | AlreadyExists | ResourceExhausted |
  Unavailable | Internal | Unknown

definition toStatus :: "go_error \<Rightarrow> grpc_code" where
  "toStatus e =
     (if errors_Is e ErrDuplicateLabel then AlreadyExists
      else if errors_Is e ErrNotFound then NotFound
      else if errors_Is e ErrFull then ResourceExhausted
      else Internal)"

record shard =
  sh_idx :: durable
  sh_DefaultEf :: int

text \<open>The process of a shard: the server and its world.\<close>

type_synonym shard_proc = "shard \<times> world"

definition sh_New :: "d_config \<Rightarrow> int \<Rightarrow> world \<Rightarrow> ((go_error + shard) \<times> world) option" where
  "sh_New cfg defaultEf w =
     (let ef = (if defaultEf \<le> 0 then 100 else defaultEf) in
      case Open cfg w of None \<Rightarrow> None
      | Some (Inl e, w') \<Rightarrow> Some (Inl (Wrap ''shard: opening index: '' e), w')
      | Some (Inr d, w') \<Rightarrow> Some (Inr \<lparr>sh_idx = d, sh_DefaultEf = ef\<rparr>, w'))"

definition sh_Insert :: "label option \<Rightarrow> f32 list \<Rightarrow> shard_proc \<Rightarrow> (grpc_code option \<times> shard_proc) option" where
  "sh_Insert key v p =
     (case p of (s, w) \<Rightarrow>
      case key of None \<Rightarrow> Some (Some InvalidArgument, p)
      | Some k \<Rightarrow>
          if length v = 0 then Some (Some InvalidArgument, p)
          else if int (length v) \<noteq> gi_dim (d_idx (sh_idx s)) then Some (Some InvalidArgument, p)
          else map_option (\<lambda>(e, w'). (map_option toStatus e, s, w')) (d_Add (sh_idx s) v k w))"

definition sh_Delete :: "label option \<Rightarrow> shard_proc \<Rightarrow> (grpc_code option \<times> shard_proc) option" where
  "sh_Delete key p =
     (case p of (s, w) \<Rightarrow>
      case key of None \<Rightarrow> Some (Some InvalidArgument, p)
      | Some k \<Rightarrow> map_option (\<lambda>(e, w'). (map_option toStatus e, s, w')) (d_MarkDeleted (sh_idx s) k w))"

definition sh_Undelete :: "label option \<Rightarrow> shard_proc \<Rightarrow> (grpc_code option \<times> shard_proc) option" where
  "sh_Undelete key p =
     (case p of (s, w) \<Rightarrow>
      case key of None \<Rightarrow> Some (Some InvalidArgument, p)
      | Some k \<Rightarrow> map_option (\<lambda>(e, w'). (map_option toStatus e, s, w')) (d_UnmarkDeleted (sh_idx s) k w))"

text \<open>\<open>k\<close> and \<open>ef\<close> are the 32-bit fields of the request; \<open>ctx\<close> is what \<open>ctx.Err()\<close> says.\<close>

definition sh_Search :: "f32 list \<Rightarrow> nat \<Rightarrow> nat \<Rightarrow> grpc_code option \<Rightarrow> shard_proc \<Rightarrow>
    ((grpc_code + (label \<times> f32) list) \<times> shard_proc) option" where
  "sh_Search q k ef ctx p =
     (case p of (s, w) \<Rightarrow>
      if length q = 0 then Some (Inl InvalidArgument, p)
      else if int (length q) \<noteq> gi_dim (d_idx (sh_idx s)) then Some (Inl InvalidArgument, p)
      else if k = 0 then Some (Inl InvalidArgument, p)
      else let ef' = (if ef = 0 then sh_DefaultEf s else int ef) in
        case ctx of Some c \<Rightarrow> Some (Inl c, p)
        | None \<Rightarrow> map_option (\<lambda>(r, w'). (map_sum toStatus id r, s, w')) (d_Search (sh_idx s) q (int k) ef' w))"

definition sh_Snapshot :: "device \<Rightarrow> shard_proc \<Rightarrow> (grpc_code option \<times> shard_proc) option" where
  "sh_Snapshot dev p =
     (case p of (s, w) \<Rightarrow>
      map_option (\<lambda>(e, d, w'). (map_option toStatus e, s\<lparr>sh_idx := d\<rparr>, w')) (d_Snapshot (sh_idx s) dev w))"

record stats =
  TotalVectors :: nat
  ActiveVectors :: nat
  st_Dim :: nat
  st_Capacity :: nat

definition sh_Stats :: "shard_proc \<Rightarrow> stats option" where
  "sh_Stats p =
     (case p of (s, w) \<Rightarrow> let g = d_idx (sh_idx s) in
      case (go_Len g w, go_ActiveLen g w, go_Capacity g w) of
        (Some n, Some a, Some c) \<Rightarrow>
          Some \<lparr>TotalVectors = n, ActiveVectors = a, st_Dim = nat (gi_dim g mod 2 ^ 32), st_Capacity = c\<rparr>
      | _ \<Rightarrow> None)"

text \<open>\<open>Close\<close>: a last snapshot if the periodic ones are on, whose error is only logged, and then the log.\<close>

definition sh_Close :: "bool \<Rightarrow> device \<Rightarrow> shard_proc \<Rightarrow> (go_error option \<times> shard_proc) option" where
  "sh_Close periodic dev p =
     (case (if periodic then sh_Snapshot dev p else Some (None, p)) of None \<Rightarrow> None
      | Some (_, s, w) \<Rightarrow> (case d_Close (sh_idx s) w of (e, d, w') \<Rightarrow> Some (e, s\<lparr>sh_idx := d\<rparr>, w')))"

section \<open>A shard in memory\<close>

text \<open>
  A shard that stands for the store \<open>st\<close>: its index is alive and holds that store, and it has its log open. Nothing
  is said of the disk, of how the shard got here, or of the system calls to come. Every state of a
  \<open>service\<close> is one, and no write request leads out of them.
\<close>

definition shard_ok :: "d_config \<Rightarrow> bool \<Rightarrow> shard_proc \<Rightarrow> store \<Rightarrow> bool" where
  "shard_ok cfg avx p st \<longleftrightarrow> cfg_ok cfg \<and> d_w (sh_idx (fst p)) = \<lparr>w_path = WALPath cfg, w_open = True\<rparr> \<and>
     (\<exists>ix. go_live (snd p) (d_idx (sh_idx (fst p))) ix \<and> config ix = config (fresh avx cfg) \<and> abs_ix ix = st) \<and>
     0 < sh_DefaultEf (fst p) \<and> sh_DefaultEf (fst p) < 2 ^ 63"

lemma service_shard_ok:
  assumes "cfg_ok cfg" "service cfg avx w d st" "0 < def" "def < 2 ^ 63"
  shows "shard_ok cfg avx (\<lparr>sh_idx = d, sh_DefaultEf = def\<rparr>, w) st"
proof -
  obtain rs where "d_inv cfg (fresh avx cfg) w d rs st" using service_inv [OF assms(2,1)] by blast
  then show ?thesis unfolding shard_ok_def d_inv_def using assms(1,3,4) by simp
qed

lemma shard_dim:
  assumes "shard_ok cfg avx p st" shows "gi_dim (d_idx (sh_idx (fst p))) = cf_Dim cfg"
proof -
  have c: "cfg_ok cfg" using assms by (simp add: shard_ok_def)
  obtain ix where "go_live (snd p) (d_idx (sh_idx (fst p))) ix" "config ix = config (fresh avx cfg)"
    using assms by (auto simp: shard_ok_def)
  then show ?thesis using config_cong(1) [of ix "fresh avx cfg"] fresh_ok(5) [OF c, of avx] by (simp add: go_live_def)
qed

lemma shard_store: "shard_ok cfg avx p st \<Longrightarrow> d_store (snd p) (sh_idx (fst p)) = st"
  by (auto simp: shard_ok_def d_store_def go_live_def cs_store_def)

lemma toStatus_simps [simp]: "toStatus ErrDuplicateLabel = AlreadyExists" "toStatus ErrNotFound = NotFound" "toStatus ErrFull = ResourceExhausted"
  "toStatus (Wrap m ErrDuplicateLabel) = AlreadyExists" "toStatus (Wrap m ErrFull) = ResourceExhausted"
  "toStatus (Wrap m (Wrap m' Os_failed)) = Internal"
  by (simp_all add: toStatus_def)

section \<open>Logging a request\<close>

text \<open>The two system calls of \<open>Append\<close>, the write and the \<open>fsync\<close>, work.\<close>

definition log_works :: "world \<Rightarrow> bool" where
  "log_works w \<longleftrightarrow> (\<forall>fate \<in> set (take 2 (wd_plan w)). fate = None)"

text \<open>A call that does not touch the process.\<close>

definition same_process :: "world \<Rightarrow> world \<Rightarrow> bool" where
  "same_process w w' \<longleftrightarrow> cs_objs (wd_c w') = cs_objs (wd_c w) \<and> cs_next (wd_c w') = cs_next (wd_c w) \<and> wd_levels w' = wd_levels w"

lemma same_process_live: "same_process w w' \<Longrightarrow> go_live w' g ix = go_live w g ix"
  by (simp add: same_process_def go_live_def)

lemma sys_call_same: "sys_call w = (fate, w') \<Longrightarrow> same_process w w'"
  by (auto simp: sys_call_def same_process_def split: list.splits)

lemma os_write_same: "same_process w (snd (os_write path buf w))"
proof -
  obtain fate w1 where f: "sys_call w = (fate, w1)" by fastforce
  show ?thesis using sys_call_same [OF f] by (auto simp: os_write_def f Let_def same_process_def split: option.split)
qed

lemma os_nop_same: "same_process w (snd (os_nop w))"
proof -
  obtain fate w1 where f: "sys_call w = (fate, w1)" by fastforce
  show ?thesis using sys_call_same [OF f] by (auto simp: os_nop_def sys_def f split: option.split)
qed

lemma sys_call_fate: "sys_call w = (case wd_plan w of [] \<Rightarrow> (None, w) | f # fs \<Rightarrow> (f, w\<lparr>wd_plan := fs\<rparr>))"
  by (simp add: sys_call_def)

lemma os_write_fate:
  "os_write path buf w = (e, w') \<Longrightarrow>
    (e = None \<longleftrightarrow> take 1 (wd_plan w) \<in> {[], [None]}) \<and> e \<in> {None, Some Os_failed} \<and> wd_plan w' = tl (wd_plan w)"
  by (cases "wd_plan w") (auto simp: os_write_def sys_call_fate Let_def split: option.splits)

lemma os_nop_fate: "os_nop w = (e, w') \<Longrightarrow> (e = None \<longleftrightarrow> take 1 (wd_plan w) \<in> {[], [None]}) \<and> e \<in> {None, Some Os_failed}"
  by (cases "wd_plan w") (auto simp: os_nop_def sys_def sys_call_fate split: option.splits)

lemma log_works_split: "log_works w \<longleftrightarrow> take 1 (wd_plan w) \<in> {[], [None]} \<and> take 1 (tl (wd_plan w)) \<in> {[], [None]}"
proof (cases "wd_plan w")
  case (Cons f fs)
  then show ?thesis by (cases fs) (auto simp: log_works_def)
qed (simp add: log_works_def)

lemma Append_any:
  assumes "encodable r"
  shows "\<exists>e w'. Append \<lparr>w_path = p, w_open = True\<rparr> r w = (e, w') \<and> same_process w w' \<and> (e = None \<longleftrightarrow> log_works w) \<and>
    (\<forall>x. e = Some x \<longrightarrow> (\<exists>m. x = Wrap m Os_failed))"
proof -
  obtain e w1 where 1: "os_write p (rec_bytes r) w = (e, w1)" by fastforce
  obtain e2 w2 where 2: "os_nop w1 = (e2, w2)" by fastforce
  have s: "same_process w w1" "same_process w1 w2" using os_write_same [of w p "rec_bytes r"] os_nop_same [of w1] 1 2 by simp_all
  then have s2: "same_process w w2" by (simp add: same_process_def)
  note f = os_write_fate [OF 1] os_nop_fate [OF 2]
  have lw: "log_works w \<longleftrightarrow> e = None \<and> e2 = None" using f by (simp add: log_works_split)
  have a: "Append \<lparr>w_path = p, w_open = True\<rparr> r w =
      (case e of Some x \<Rightarrow> (Some (Wrap ''wal: write: '' x), w1) | None \<Rightarrow> (map_option (Wrap ''wal: fsync: '') e2, w2))"
    using assms 1 2 by (simp add: Append_def encode_encodable split: option.split)
  show ?thesis
  proof (cases e)
    case None
    then show ?thesis using a lw s2 f(2) by auto
  next
    case (Some x)
    then show ?thesis using a lw s(1) f(1) by auto
  qed
qed

section \<open>What the codes say\<close>

text \<open>The specification of the writes, with the codes.\<close>

definition insert_codes :: "index \<Rightarrow> label \<Rightarrow> f32 list \<Rightarrow> store \<Rightarrow> grpc_code option \<times> store" where
  "insert_codes c key v st =
     (if st key \<noteq> None then (Some AlreadyExists, st)
      else if card (dom st) = ix_maxElements c then (Some ResourceExhausted, st)
      else (None, st(key \<mapsto> (query_vec c v, False))))"

definition delete_codes :: "bool \<Rightarrow> label \<Rightarrow> store \<Rightarrow> grpc_code option \<times> store" where
  "delete_codes d key st =
     (case st key of None \<Rightarrow> (Some NotFound, st)
      | Some (v, d') \<Rightarrow> if d' = d then (Some NotFound, st) else (None, st(key \<mapsto> (v, d))))"

lemma insert_answer:
  "(map_option toStatus (fst (d_spec c (D_Add v key) st)), snd (d_spec c (D_Add v key) st)) = insert_codes c key v st"
  by (simp add: insert_codes_def add_spec_def)

lemma mark_answer:
  "(map_option toStatus (fst (d_spec c (D_Mark key) st)), snd (d_spec c (D_Mark key) st)) = delete_codes True key st"
  "(map_option toStatus (fst (d_spec c (D_Unmark key) st)), snd (d_spec c (D_Unmark key) st)) = delete_codes False key st"
  by (auto simp: mark_spec_def spec_mark_def delete_codes_def split: option.split)

text \<open>An operation on the durable index in any state of the disk, and whatever its system calls do.\<close>

lemma step_any:
  assumes s: "shard_ok cfg avx p st" and o: "\<not> is_snapshot opn" "\<forall>v key. opn = D_Add v key \<longrightarrow> length v = ix_dim (fresh avx cfg)"
  shows "\<exists>e w'. d_step (sh_idx (fst p)) opn (snd p) = Some (e, sh_idx (fst p), w') \<and>
    (if log_works (snd p) then e = fst (d_spec (fresh avx cfg) opn st) \<and> shard_ok cfg avx (fst p, w') (snd (d_spec (fresh avx cfg) opn st))
     else map_option toStatus e = Some Internal \<and> shard_ok cfg avx (fst p, w') st)"
proof -
  let ?c = "fresh avx cfg" and ?d = "sh_idx (fst p)" and ?w = "snd p" and ?r = "op_rec opn"
  have c: "cfg_ok cfg" "d_w ?d = \<lparr>w_path = WALPath cfg, w_open = True\<rparr>" using s by (simp_all add: shard_ok_def)
  obtain ix where ix: "go_live ?w (d_idx ?d) ix" "config ix = config ?c" "abs_ix ix = st" using s by (auto simp: shard_ok_def)
  have rf: "rec_fine ?c ?r" by (rule op_rec_fine [OF c(1) refl o(1)]) (use o(2) in simp)
  have "encodable ?r" using rf by (simp add: rec_fine_def rec_ok_def)
  then obtain e w1 where a: "Append (d_w ?d) ?r ?w = (e, w1)" "e = None \<longleftrightarrow> log_works ?w" "\<forall>x. e = Some x \<longrightarrow> (\<exists>m. x = Wrap m Os_failed)"
    and w1: "same_process ?w w1"
    using Append_any [of ?r "WALPath cfg" ?w] c(2) by auto
  have l: "go_live w1 (d_idx ?d) ix" using same_process_live [OF w1] ix(1) by simp
  have ok: "shard_ok cfg avx (fst p, w') st'" if "serves w1 (d_idx ?d) ?c w' st'" for w' st'
    using s that by (auto simp: shard_ok_def serves_def)
  show ?thesis
  proof (cases "log_works ?w")
    case False
    then obtain m where "e = Some (Wrap m Os_failed)" using a(2,3) by auto
    then have "\<exists>e. d_step ?d opn ?w = Some (e, ?d, w1) \<and> map_option toStatus e = Some Internal"
      using a o(1) by (cases opn) (auto simp: d_step_def d_Add_def d_MarkDeleted_def d_UnmarkDeleted_def is_snapshot_def)
    then show ?thesis using False ok [of w1 st] l ix by (auto simp: serves_def)
  next
    case True
    then have a: "Append (d_w ?d) ?r ?w = (None, w1)" using a by simp
    have "\<exists>w'. d_step ?d opn ?w = Some (fst (d_spec ?c opn st), ?d, w') \<and> serves w1 (d_idx ?d) ?c w' (snd (d_spec ?c opn st))"
    proof (cases opn)
      case (D_Add v key)
      then have "length v = ix_dim ix" using o(2) config_cong(1) [OF ix(2)] by simp
      from refines_serves [OF go_Add_refines [OF l this, of key] ix(2) go_quiet_refl] show ?thesis
        using a D_Add by (auto simp: d_step_def d_Add_def ix(3) add_spec_cong [OF ix(2)])
    next
      case (D_Mark key)
      from refines_serves [OF go_mark_refines(1) [OF l, of key] ix(2) go_quiet_refl] show ?thesis
        using a D_Mark by (auto simp: d_step_def d_MarkDeleted_def ix(3))
    next
      case (D_Unmark key)
      from refines_serves [OF go_mark_refines(2) [OF l, of key] ix(2) go_quiet_refl] show ?thesis
        using a D_Unmark by (auto simp: d_step_def d_UnmarkDeleted_def ix(3))
    qed (use o(1) in \<open>simp add: is_snapshot_def\<close>)
    then show ?thesis using True ok by auto
  qed
qed

lemma sh_Search_ok:
  assumes s: "shard_ok cfg avx p st" and q: "int (length q) = cf_Dim cfg" and k: "0 < k" "k < 2 ^ 31" "ef < 2 ^ 32"
  shows "\<exists>hits p'. sh_Search q k ef None p = Some (Inr hits, p') \<and> shard_ok cfg avx p' st \<and> hits_ok (fresh avx cfg) st q k hits"
proof -
  let ?c = "fresh avx cfg" and ?d = "sh_idx (fst p)" and ?w = "snd p"
  have c: "cfg_ok cfg" using s by (simp add: shard_ok_def)
  obtain ix where ix: "go_live ?w (d_idx ?d) ix" "config ix = config ?c" "abs_ix ix = st" using s by (auto simp: shard_ok_def)
  let ?ef = "if ef = 0 then sh_DefaultEf (fst p) else int ef"
  have q': "length q = ix_dim ix" "q \<noteq> []" using q fresh_ok(5) [OF c, of avx] config_cong(1) [OF ix(2)] c by (auto simp: cfg_ok_def)
  have b: "0 < int k" "int k < 2 ^ 31" "0 \<le> ?ef" "?ef < 2 ^ 63" using k s by (auto simp: shard_ok_def)
  from go_Search_ok [OF ix(1) q'(1) b] obtain res pool w' where
    r: "answers_ok ix (query_vec ix q) k res" "go_Search (d_idx ?d) q (int k) ?ef ?w = Some (Inr (map (\<lambda>r. (sr_label r, sr_distance r)) res), w')"
      "go_live w' (d_idx ?d) (ix\<lparr>ix_visitedPool := pool\<rparr>)" by auto
  have "hits_ok ?c st q k (map (\<lambda>r. (sr_label r, sr_distance r)) res)"
    using r(1) unfolding hits_ok_def answers_ok_def config_cong(3) [OF ix(2)] query_vec_cong [OF ix(2)] ix(3) by (auto simp: o_def)
  moreover have "shard_ok cfg avx (fst p, w') st" using s r(3) ix(2,3) by (auto simp: shard_ok_def config_pool)
  moreover have "sh_Search q k ef None p = Some (Inr (map (\<lambda>r. (sr_label r, sr_distance r)) res), fst p, w')"
    using r(2) q q'(2) k(1) shard_dim [OF s] by (cases p) (simp add: sh_Search_def d_Search_def Let_def split: if_splits)
  ultimately show ?thesis by blast
qed

lemma sh_Search_rejects:
  assumes "shard_ok cfg avx p st" "int (length q) \<noteq> cf_Dim cfg"
  shows "sh_Search q k ef ctx p = Some (Inl InvalidArgument, p)"
  using assms(2) shard_dim [OF assms(1)] by (cases p) (simp add: sh_Search_def)

section \<open>Every write request\<close>

text \<open>The write requests, well-formed or not, and their answers: no condition on room, or on the key being there.\<close>

datatype sh_write = Sh_Insert "label option" "f32 list" | Sh_Delete "label option" | Sh_Undelete "label option"

definition sh_step :: "sh_write \<Rightarrow> shard_proc \<Rightarrow> (grpc_code option \<times> shard_proc) option" where
  "sh_step req p =
     (case req of Sh_Insert key v \<Rightarrow> sh_Insert key v p | Sh_Delete key \<Rightarrow> sh_Delete key p | Sh_Undelete key \<Rightarrow> sh_Undelete key p)"

definition accepted :: "index \<Rightarrow> sh_write \<Rightarrow> bool" where
  "accepted c req \<longleftrightarrow>
     (case req of Sh_Insert key v \<Rightarrow> key \<noteq> None \<and> length v = ix_dim c | Sh_Delete key \<Rightarrow> key \<noteq> None | Sh_Undelete key \<Rightarrow> key \<noteq> None)"

text \<open>The answer to a request, and the store after it; \<open>works\<close> says whether it can be logged.\<close>

definition sh_answer :: "index \<Rightarrow> bool \<Rightarrow> sh_write \<Rightarrow> store \<Rightarrow> grpc_code option \<times> store" where
  "sh_answer c works req st =
     (if \<not> accepted c req then (Some InvalidArgument, st)
      else if \<not> works then (Some Internal, st)
      else case req of
          Sh_Insert key v \<Rightarrow> insert_codes c (the key) v st
        | Sh_Delete key \<Rightarrow> delete_codes True (the key) st
        | Sh_Undelete key \<Rightarrow> delete_codes False (the key) st)"

lemma answer_codes:
  "fst (sh_answer c works req st) \<in>
     {None, Some InvalidArgument, Some NotFound, Some AlreadyExists, Some ResourceExhausted} \<union> (if accepted c req \<and> \<not> works then {Some Internal} else {})"
  "fst (sh_answer c works req st) = Some Internal \<longleftrightarrow> accepted c req \<and> \<not> works"
  "fst (sh_answer c works req st) \<noteq> None \<Longrightarrow> snd (sh_answer c works req st) = st"
  by (auto simp: sh_answer_def insert_codes_def delete_codes_def split: sh_write.splits option.splits if_splits)

lemma sh_step_ok:
  assumes s: "shard_ok cfg avx p st"
  shows "\<exists>p'. sh_step req p = Some (fst (sh_answer (fresh avx cfg) (log_works (snd p)) req st), p') \<and>
    shard_ok cfg avx p' (snd (sh_answer (fresh avx cfg) (log_works (snd p)) req st))"
proof (cases "accepted (fresh avx cfg) req")
  case False
  then have "sh_step req p = Some (Some InvalidArgument, p)"
    using shard_dim [OF s] fresh_ok(5) [of cfg avx] s
    by (cases p; cases req) (auto simp: accepted_def sh_step_def sh_Insert_def sh_Delete_def sh_Undelete_def shard_ok_def split: option.split)
  then show ?thesis using s False by (simp add: sh_answer_def)
next
  case True
  let ?c = "fresh avx cfg"
  have c: "cfg_ok cfg" using s by (simp add: shard_ok_def)
  have d: "gi_dim (d_idx (sh_idx (fst p))) = int (ix_dim ?c)" "0 < ix_dim ?c"
    using shard_dim [OF s] fresh_ok(5) [OF c, of avx] c by (auto simp: cfg_ok_def)
  obtain opn where o: "\<not> is_snapshot opn" "\<forall>v key. opn = D_Add v key \<longrightarrow> length v = ix_dim ?c"
    "\<And>e w'. d_step (sh_idx (fst p)) opn (snd p) = Some (e, sh_idx (fst p), w') \<Longrightarrow> sh_step req p = Some (map_option toStatus e, fst p, w')"
    "log_works (snd p) \<Longrightarrow> sh_answer ?c True req st = (map_option toStatus (fst (d_spec ?c opn st)), snd (d_spec ?c opn st))"
  proof (cases req)
    case (Sh_Insert key v)
    then obtain k where k: "key = Some k" "length v = ix_dim ?c" using True by (auto simp: accepted_def)
    show ?thesis
      by (rule that [of "D_Add v k"])
         (use k d True Sh_Insert insert_answer [of ?c v k st] in
          \<open>cases p; auto simp: is_snapshot_def sh_step_def sh_Insert_def sh_answer_def d_step_def simp del: d_spec.simps\<close>)+
  next
    case (Sh_Delete key)
    then obtain k where k: "key = Some k" using True by (auto simp: accepted_def)
    show ?thesis
      by (rule that [of "D_Mark k"])
         (use k True Sh_Delete mark_answer(1) [of ?c k st] in
          \<open>cases p; auto simp: is_snapshot_def sh_step_def sh_Delete_def sh_answer_def d_step_def simp del: d_spec.simps\<close>)+
  next
    case (Sh_Undelete key)
    then obtain k where k: "key = Some k" using True by (auto simp: accepted_def)
    show ?thesis
      by (rule that [of "D_Unmark k"])
         (use k True Sh_Undelete mark_answer(2) [of ?c k st] in
          \<open>cases p; auto simp: is_snapshot_def sh_step_def sh_Undelete_def sh_answer_def d_step_def simp del: d_spec.simps\<close>)+
  qed
  obtain e w' where e: "d_step (sh_idx (fst p)) opn (snd p) = Some (e, sh_idx (fst p), w')"
    "if log_works (snd p) then e = fst (d_spec ?c opn st) \<and> shard_ok cfg avx (fst p, w') (snd (d_spec ?c opn st))
     else map_option toStatus e = Some Internal \<and> shard_ok cfg avx (fst p, w') st"
    using step_any [OF s o(1,2)] by blast
  show ?thesis using o(3) [OF e(1)] e(2) o(4) True by (cases "log_works (snd p)") (auto simp: sh_answer_def)
qed

text \<open>
  C18: A shard answers every write request, in every state of the store and the disk, and whatever its system
  calls do: a request without a key or with a vector of another length is rejected as an invalid argument; if
  writing or flushing the log fails, the answer is \<open>Internal\<close>; otherwise a duplicate, a full index and a key
  that is not there (or already in the wanted state) have their codes. The store in memory changes exactly as the
  code says, not at all if it is not OK; \<open>Internal\<close> has no other cause; and the shard it leaves is one to which the
  same applies, so this covers every sequence of requests, full insertions and deletions of missing keys included.
\<close>

theorem shard_answers:
  assumes "shard_ok cfg avx p st"
  shows "\<exists>p'. let ans = sh_answer (fresh avx cfg) (log_works (snd p)) req st in
    sh_step req p = Some (fst ans, p') \<and> shard_ok cfg avx p' (snd ans) \<and> d_store (snd p') (sh_idx (fst p')) = snd ans \<and>
    (fst ans \<noteq> None \<longrightarrow> snd ans = st) \<and>
    (fst ans = Some Internal \<longleftrightarrow> accepted (fresh avx cfg) req \<and> \<not> log_works (snd p))"
  using sh_step_ok [OF assms, of req] answer_codes(2,3) [of "fresh avx cfg" "log_works (snd p)" req st] shard_store
  unfolding Let_def by blast

theorem shard_answers_witness:
  "\<exists>p p' p''. shard_ok ex_cfg True p Map.empty \<and> sh_step (Sh_Delete (Some (Label 1 7))) p = Some (Some NotFound, p') \<and>
     sh_step (Sh_Insert (Some (Label 1 7)) [1]) ((fst p'), (snd p')\<lparr>wd_plan := [Some 3]\<rparr>) = Some (Some Internal, p'') \<and>
     shard_ok ex_cfg True p'' Map.empty"
proof -
  obtain d w where s: "service ex_cfg True w d Map.empty" by (rule ex_service)
  let ?p = "(\<lparr>sh_idx = d, sh_DefaultEf = 100\<rparr>, w\<lparr>wd_plan := []\<rparr>)"
  have live: "go_live (v\<lparr>wd_plan := l\<rparr>) g ix = go_live v g ix" for v l g ix by (simp add: go_live_def)
  have p: "shard_ok ex_cfg True ?p Map.empty"
    using service_shard_ok [OF ex_cfg_ok(1) s, of 100] by (simp add: shard_ok_def live)
  obtain p' where p': "sh_step (Sh_Delete (Some (Label 1 7))) ?p = Some (Some NotFound, p')" "shard_ok ex_cfg True p' Map.empty"
    using shard_answers [OF p, of "Sh_Delete (Some (Label 1 7))"]
    by (auto simp: Let_def sh_answer_def delete_codes_def accepted_def log_works_def)
  let ?q = "(fst p', (snd p')\<lparr>wd_plan := [Some 3]\<rparr>)"
  have q: "shard_ok ex_cfg True ?q Map.empty" using p'(2) by (simp add: shard_ok_def live)
  obtain p'' where "sh_step (Sh_Insert (Some (Label 1 7)) [1]) ?q = Some (Some Internal, p'')" "shard_ok ex_cfg True p'' Map.empty"
    using shard_answers [OF q, of "Sh_Insert (Some (Label 1 7)) [1]"]
    by (auto simp: Let_def sh_answer_def accepted_def log_works_def ex_cfg_ok)
  then show ?thesis using p p'(1) by blast
qed

end
