(* ===== verification/Coordinator.thy ===== *)
theory Coordinator
  imports Shard_Server Shard_Sim
begin

text \<open>
  The coordinator, \<open>src/go/coordinator\<close>: the router (\<open>router.go\<close>), the handlers (\<open>server.go\<close>)
  and scatter-gather (\<open>gather.go\<close>), over a list of shard processes. The network is a parameter: for each
  shard it says what becomes of a call (\<open>fate\<close>). gRPC runs a handler at most once; that it failed, with whatever
  code, does not say whether it ran. The shards answer a search in any order (\<open>order\<close>), and
  \<open>sort.Slice\<close> is any algorithm that meets the interface \<open>sorter\<close>.

  The results: the router is the one the cluster simulation uses; writes through the
  coordinator act on the shards as on a single store, for every fate of the call; a search returns the best of
  what the shards it reached have found, and says how many failed.
\<close>

section \<open>Routing\<close>

text \<open>\<open>fnv.New64a\<close> of the Go library is the hash \<open>fnv1a64\<close>.\<close>

definition HashKey :: "label \<Rightarrow> 64 word" where
  "HashKey key = fnv1a64 (le 8 (unat (clientId key)) @ le 8 (unat (label_no key)))"

definition ShardFor :: "nat \<Rightarrow> label \<Rightarrow> nat" where
  "ShardFor numShards key = unat (HashKey key) mod numShards"

section \<open>Calling shards\<close>

type_synonym cluster = "shard_proc list"

text \<open>\<open>Pool.Shard\<close>: the client of shard \<open>i\<close>; an index outside the pool panics.\<close>

definition Pool_Shard :: "cluster \<Rightarrow> nat \<Rightarrow> shard_proc option" where
  "Pool_Shard cl i = rd cl i"

text \<open>
  What the network makes of a call: it is answered; or it fails with a code before the handler has run, or after it
  (a deadline that passes, a connection that breaks).
\<close>

datatype fate = Delivered | Request_lost grpc_code | Answer_lost grpc_code

definition rpc :: "(nat \<Rightarrow> fate) \<Rightarrow> nat \<Rightarrow> (grpc_code \<Rightarrow> 'r) \<Rightarrow> (shard_proc \<Rightarrow> ('r \<times> shard_proc) option) \<Rightarrow> cluster \<Rightarrow> ('r \<times> cluster) option" where
  "rpc net i failed f cl =
     (case Pool_Shard cl i of None \<Rightarrow> None
      | Some p \<Rightarrow>
          (case net i of
             Request_lost code \<Rightarrow> Some (failed code, cl)
           | Delivered \<Rightarrow> map_option (\<lambda>(r, p'). (r, cl[i := p'])) (f p)
           | Answer_lost code \<Rightarrow> map_option (\<lambda>(_, p'). (failed code, cl[i := p'])) (f p)))"

text \<open>The handlers; \<open>numShards\<close> is the field of the router. The code of the call is passed through unchanged.\<close>

definition co_Insert :: "(nat \<Rightarrow> fate) \<Rightarrow> nat \<Rightarrow> label option \<Rightarrow> f32 list \<Rightarrow> cluster \<Rightarrow> (grpc_code option \<times> cluster) option" where
  "co_Insert net numShards key v cl =
     (case key of None \<Rightarrow> Some (Some InvalidArgument, cl)
      | Some k \<Rightarrow>
          if length v = 0 then Some (Some InvalidArgument, cl)
          else rpc net (ShardFor numShards k) Some (sh_Insert (Some k) v) cl)"

definition co_Delete :: "(nat \<Rightarrow> fate) \<Rightarrow> nat \<Rightarrow> label option \<Rightarrow> cluster \<Rightarrow> (grpc_code option \<times> cluster) option" where
  "co_Delete net numShards key cl =
     (case key of None \<Rightarrow> Some (Some InvalidArgument, cl)
      | Some k \<Rightarrow> rpc net (ShardFor numShards k) Some (sh_Delete (Some k)) cl)"

section \<open>Scatter and gather\<close>

definition candidate :: "label \<times> f32 \<Rightarrow> scored" where
  "candidate h = \<lparr>sc_distance = snd h, sc_clientId = clientId (fst h), sc_label = label_no (fst h)\<rparr>"

text \<open>The shards of a list in their order: all candidates, and the number of failed shards, or the first error.\<close>

fun ask_shards :: "(nat \<Rightarrow> fate) \<Rightarrow> bool \<Rightarrow> f32 list \<Rightarrow> nat \<Rightarrow> nat \<Rightarrow> nat list \<Rightarrow> cluster \<Rightarrow>
    ((grpc_code + scored list \<times> nat) \<times> cluster) option" where
  "ask_shards net allowPartial q k ef [] cl = Some (Inr ([], 0), cl)"
| "ask_shards net allowPartial q k ef (s # order) cl =
     (case rpc net s Inl (sh_Search q k ef None) cl of None \<Rightarrow> None
      | Some (Inl code, cl1) \<Rightarrow>
          if allowPartial
          then map_option (map_prod (map_sum id (map_prod id Suc)) id) (ask_shards net allowPartial q k ef order cl1)
          else Some (Inl code, cl1)
      | Some (Inr hits, cl1) \<Rightarrow>
          map_option (map_prod (map_sum id (map_prod ((@) (map candidate hits)) id)) id) (ask_shards net allowPartial q k ef order cl1))"

text \<open>The code of the failed shard is kept, unless there is none.\<close>

definition toGatherError :: "grpc_code \<Rightarrow> grpc_code" where
  "toGatherError code = (if code = Unknown then Internal else code)"

record search_response =
  rs_results :: "scored list"
  shards_queried :: nat
  shards_failed :: nat

definition Search_gather :: "(scored list \<Rightarrow> scored list) \<Rightarrow> nat list \<Rightarrow> (nat \<Rightarrow> fate) \<Rightarrow> f32 list \<Rightarrow> nat \<Rightarrow> nat \<Rightarrow> bool \<Rightarrow> cluster \<Rightarrow>
    ((grpc_code + search_response) \<times> cluster) option" where
  "Search_gather srt order net q k ef allowPartial cl =
     map_option (map_prod (map_sum toGatherError (\<lambda>(pool, failed).
         \<lparr>rs_results = gather srt k pool, shards_queried = length cl, shards_failed = failed\<rparr>)) id)
       (ask_shards net allowPartial q k ef order cl)"

definition co_Search :: "(scored list \<Rightarrow> scored list) \<Rightarrow> nat list \<Rightarrow> (nat \<Rightarrow> fate) \<Rightarrow> nat \<Rightarrow> f32 list \<Rightarrow> nat \<Rightarrow> nat \<Rightarrow> bool \<Rightarrow> cluster \<Rightarrow>
    ((grpc_code + search_response) \<times> cluster) option" where
  "co_Search srt order net defaultEf q k ef allowPartial cl =
     (if length q = 0 then Some (Inl InvalidArgument, cl)
      else if k = 0 then Some (Inl InvalidArgument, cl)
      else Search_gather srt order net q k (if ef = 0 then defaultEf mod 2 ^ 32 else ef) allowPartial cl)"

section \<open>The router and the simulation\<close>

lemma le_nth: "i < k \<Longrightarrow> le k n ! i = of_nat (n div 256 ^ i mod 256)"
proof (induction k arbitrary: n i)
  case (Suc k)
  then show ?case by (cases i) (simp_all add: div_mult2_eq)
qed simp

lemma le_bytes: "le 8 (unat x) = bytes_le x"
proof (rule nth_equalityI)
  fix i assume "i < length (le 8 (unat x))"
  then have i: "i < 8" by simp
  have m: "(of_nat (n mod 256) :: byte) = of_nat n" for n by (simp add: word_unat_eq_iff unsigned_of_nat take_bit_eq_mod)
  have "unat x div 256 ^ i = drop_bit (8 * i) (unat x)" by (simp add: drop_bit_eq_div power_mult)
  also have "\<dots> = unat (drop_bit (8 * i) x)" by (rule unat_drop_bit_eq [symmetric])
  finally have d: "unat x div 256 ^ i = unat (drop_bit (8 * i) x)" .
  have "bytes_le x ! i = ucast (drop_bit (8 * i) x)" using i by (simp add: bytes_le_def)
  moreover have "(of_nat (unat (drop_bit (8 * i) x)) :: byte) = ucast (drop_bit (8 * i) x)" by (rule of_nat_unat)
  ultimately show "le 8 (unat x) ! i = bytes_le x ! i" by (simp only: le_nth [OF i] d m)
qed (simp add: bytes_le_def)

text \<open>
  C34: The router of the coordinator is the one of the cluster simulation, key by key and shard by
  shard, as the comment in \<open>router.go\<close> demands, so that what the simulation validated holds for it; every
  shard number is in range.
\<close>

theorem router_matches_simulation:
  assumes "0 < n"
  shows "HashKey key = hashKey (clientId key) (label_no key) \<and>
    shardFor (clientId key) (label_no key) n = Some (ShardFor n key) \<and> ShardFor n key < n"
  using assms by (simp add: HashKey_def hashKey_def le_bytes ShardFor_def shardFor_def)

theorem router_matches_simulation_witness: "ShardFor 3 (Label 1 7) < 3"
  using router_matches_simulation [of 3 "Label 1 7"] by simp

section \<open>The cluster as one store\<close>

text \<open>
  The configurations of the shards, all for vectors of \<open>D\<close> numbers, and the store each of them stands for: every key is in the shard the router names.
  The store of the cluster looks a key up there.
\<close>

definition cl_store :: "store list \<Rightarrow> store" where
  "cl_store sts key = (sts ! ShardFor (length sts) key) key"

definition cluster_ok :: "int \<Rightarrow> d_config list \<Rightarrow> bool \<Rightarrow> cluster \<Rightarrow> store list \<Rightarrow> bool" where
  "cluster_ok D cfgs avx cl sts \<longleftrightarrow> cl \<noteq> [] \<and> length cfgs = length cl \<and> length sts = length cl \<and>
     (\<forall>i < length cl. shard_ok (cfgs ! i) avx (cl ! i) (sts ! i) \<and> cf_Dim (cfgs ! i) = D \<and>
        (\<forall>key \<in> dom (sts ! i). ShardFor (length cl) key = i))"

datatype co_write = Co_Insert "label option" "f32 list" | Co_Delete "label option"

definition co_step :: "(nat \<Rightarrow> fate) \<Rightarrow> nat \<Rightarrow> co_write \<Rightarrow> cluster \<Rightarrow> (grpc_code option \<times> cluster) option" where
  "co_step net numShards req cl =
     (case req of Co_Insert key v \<Rightarrow> co_Insert net numShards key v cl | Co_Delete key \<Rightarrow> co_Delete net numShards key cl)"

text \<open>The requests the coordinator forwards, and the key that says where.\<close>

fun forwards :: "co_write \<Rightarrow> label option" where
  "forwards (Co_Insert key v) = (if v = [] then None else key)"
| "forwards (Co_Delete key) = key"

text \<open>
  The specification: one map from keys to vectors. \<open>c\<close> is the configuration of the owner of the key, for the dimension, the preparation
  of the vector and the capacity; \<open>works\<close> says whether the owner can log; \<open>used\<close> is the number of keys that have the same owner.
\<close>

definition co_spec :: "index \<Rightarrow> bool \<Rightarrow> nat \<Rightarrow> co_write \<Rightarrow> store \<Rightarrow> grpc_code option \<times> store" where
  "co_spec c works used req st =
     (case req of
        Co_Insert key v \<Rightarrow>
          if length v \<noteq> ix_dim c then (Some InvalidArgument, st)
          else if \<not> works then (Some Internal, st)
          else if st (the key) \<noteq> None then (Some AlreadyExists, st)
          else if used = ix_maxElements c then (Some ResourceExhausted, st)
          else (None, st(the key \<mapsto> (query_vec c v, False)))
      | Co_Delete key \<Rightarrow>
          if \<not> works then (Some Internal, st)
          else (case st (the key) of None \<Rightarrow> (Some NotFound, st)
           | Some (v, d) \<Rightarrow> if d then (Some NotFound, st) else (None, st(the key \<mapsto> (v, True)))))"

definition owned :: "nat \<Rightarrow> nat \<Rightarrow> store \<Rightarrow> label set" where
  "owned n s st = {key \<in> dom st. ShardFor n key = s}"

lemma ShardFor_less: "0 < n \<Longrightarrow> ShardFor n key < n"
  by (simp add: ShardFor_def)

lemma cl_store_upd:
  assumes "i < length sts" "ShardFor (length sts) key = i"
  shows "cl_store (sts[i := (sts ! i)(key \<mapsto> x)]) = (cl_store sts)(key \<mapsto> x)" "cl_store (sts[i := sts ! i]) = cl_store sts"
  using assms by (auto simp: cl_store_def fun_eq_iff nth_list_update)

lemma cluster_okD:
  assumes "cluster_ok D cfgs avx cl sts" "i < length cl"
  shows "shard_ok (cfgs ! i) avx (cl ! i) (sts ! i)" "cf_Dim (cfgs ! i) = D" "\<forall>key \<in> dom (sts ! i). ShardFor (length cl) key = i"
    "length sts = length cl"
  using assms by (auto simp: cluster_ok_def)

lemma cluster_ok_upd:
  assumes "cluster_ok D cfgs avx cl sts" "i < length cl" "shard_ok (cfgs ! i) avx p st" "\<forall>key \<in> dom st. ShardFor (length cl) key = i"
  shows "cluster_ok D cfgs avx (cl[i := p]) (sts[i := st])"
  using assms by (auto simp: cluster_ok_def nth_list_update)

lemma owned_dom:
  assumes "cluster_ok D cfgs avx cl sts" "s < length cl"
  shows "owned (length cl) s (cl_store sts) = dom (sts ! s)"
proof -
  note sh = cluster_okD(3,4) [OF assms]
  have "key \<in> dom (sts ! s) \<Longrightarrow> (sts ! ShardFor (length cl) key) key = (sts ! s) key" for key using sh(1) by simp
  then show ?thesis using sh by (auto simp: owned_def cl_store_def domIff)
qed

text \<open>The shard's answer is the specification's, and its store changes as that of the cluster.\<close>

fun sh_req :: "co_write \<Rightarrow> sh_write" where
  "sh_req (Co_Insert key v) = Sh_Insert key v"
| "sh_req (Co_Delete key) = Sh_Delete key"

lemma owner_answer:
  assumes "cluster_ok D cfgs avx cl sts" "forwards req = Some key"
  defines "s \<equiv> ShardFor (length cl) key" and "c \<equiv> fresh avx (cfgs ! ShardFor (length cl) key)"
  shows "fst (sh_answer c works (sh_req req) (sts ! s)) = fst (co_spec c works (card (owned (length cl) s (cl_store sts))) req (cl_store sts))"
    "snd (co_spec c works (card (owned (length cl) s (cl_store sts))) req (cl_store sts)) =
       cl_store (sts[s := snd (sh_answer c works (sh_req req) (sts ! s))])"
    "\<forall>k \<in> dom (snd (sh_answer c works (sh_req req) (sts ! s))). ShardFor (length cl) k = s"
proof -
  have n: "s < length cl" using ShardFor_less assms(1) by (auto simp: s_def cluster_ok_def)
  note sh = cluster_okD [OF assms(1) n]
  have look: "cl_store sts key = (sts ! s) key" by (simp add: cl_store_def s_def sh(4))
  have upd: "cl_store (sts[s := (sts ! s)(key \<mapsto> x)]) = (cl_store sts)(key \<mapsto> x)" "cl_store (sts[s := sts ! s]) = cl_store sts" for x
    using cl_store_upd [of s sts key] n by (simp_all add: s_def sh(4))
  have own: "owned (length cl) s (cl_store sts) = dom (sts ! s)" by (rule owned_dom [OF assms(1) n])
  note defs = sh_answer_def accepted_def co_spec_def insert_codes_def delete_codes_def own look upd
  have k: "req = Co_Insert key' v \<Longrightarrow> key' = Some key" "req = Co_Delete key' \<Longrightarrow> key' = Some key" for key' v
    using assms(2) by (auto split: if_splits)
  show "fst (sh_answer c works (sh_req req) (sts ! s)) = fst (co_spec c works (card (owned (length cl) s (cl_store sts))) req (cl_store sts))"
    using k by (cases req) (auto simp: defs split: option.split)
  show "snd (co_spec c works (card (owned (length cl) s (cl_store sts))) req (cl_store sts)) =
       cl_store (sts[s := snd (sh_answer c works (sh_req req) (sts ! s))])"
    using k by (cases req) (auto simp: defs split: option.split)
  have "dom (snd (sh_answer c works (sh_req req) (sts ! s))) \<subseteq> insert key (dom (sts ! s))"
    using k by (cases req) (auto simp: defs split: option.splits if_splits)
  then show "\<forall>k \<in> dom (snd (sh_answer c works (sh_req req) (sts ! s))). ShardFor (length cl) k = s"
    using sh(3) by (auto simp: s_def)
qed

text \<open>
  C7: Writes through the coordinator, whose router counts as many shards as its pool has. A request without a key or
  a vector is rejected and changes nothing. Any other one goes to the owner of its key. If the network delivers it, it
  acts on the shards as on a single store and returns the code that says so: a vector of another length is an invalid
  argument, a key that is there already exists, a key that is not there (or deleted) is not found, an owner that has as many
  keys as it has room is exhausted, and an owner that cannot log is an internal error; in all these cases nothing changes. If the call
  fails, its code is returned, and the store is the old one if the handler has not run and the one after the request if it has. The keys
  stay where the router looks for them.
\<close>

theorem cluster_is_one_store:
  assumes "cluster_ok D cfgs avx cl sts" "numShards = length cl"
  shows "\<exists>code cl' sts'. co_step net numShards req cl = Some (code, cl') \<and> cluster_ok D cfgs avx cl' sts' \<and> length cl' = length cl \<and>
    (case forwards req of None \<Rightarrow> code = Some InvalidArgument \<and> cl' = cl \<and> sts' = sts
     | Some key \<Rightarrow>
         let s = ShardFor numShards key; works = log_works (snd (cl ! s));
           spec = co_spec (fresh avx (cfgs ! s)) works (card (owned numShards s (cl_store sts))) req (cl_store sts) in
         s < length cl \<and>
         (case net s of
            Delivered \<Rightarrow> code = fst spec \<and> cl_store sts' = snd spec
          | Request_lost c \<Rightarrow> code = Some c \<and> cl' = cl \<and> sts' = sts
          | Answer_lost c \<Rightarrow> code = Some c \<and> cl_store sts' = snd spec))"
proof (cases "forwards req")
  case None
  then have "co_step net numShards req cl = Some (Some InvalidArgument, cl)"
    by (cases req) (auto simp: co_step_def co_Insert_def co_Delete_def split: if_splits option.split)
  then show ?thesis using None assms(1) by auto
next
  case (Some key)
  let ?s = "ShardFor numShards key"
  let ?c = "fresh avx (cfgs ! ?s)" and ?w = "log_works (snd (cl ! ?s))"
  have n: "?s < length cl" using assms ShardFor_less by (auto simp: cluster_ok_def)
  note sh = cluster_okD [OF assms(1) n]
  note oa = owner_answer [OF assms(1) Some, where works = ?w, folded assms(2)]
  let ?a = "sh_answer ?c ?w (sh_req req) (sts ! ?s)"
  obtain p' where p': "sh_step (sh_req req) (cl ! ?s) = Some (fst ?a, p')" "shard_ok (cfgs ! ?s) avx p' (snd ?a)"
    using sh_step_ok [OF sh(1), of "sh_req req"] by blast
  have ok: "cluster_ok D cfgs avx (cl[?s := p']) (sts[?s := snd ?a])"
    by (rule cluster_ok_upd [OF assms(1) n p'(2)], unfold assms(2) [symmetric], rule oa(3))
  have run: "co_step net numShards req cl = rpc net ?s Some (sh_step (sh_req req)) cl"
  proof (cases req)
    case (Co_Insert key' v)
    then have v: "key' = Some key" "v \<noteq> []" using Some by (simp_all split: if_splits)
    have "sh_step (Sh_Insert (Some key) v) = sh_Insert (Some key) v" by (simp add: fun_eq_iff sh_step_def)
    then show ?thesis by (simp add: Co_Insert v co_step_def co_Insert_def)
  next
    case (Co_Delete key')
    then have v: "key' = Some key" using Some by simp
    have "sh_step (Sh_Delete (Some key)) = sh_Delete (Some key)" by (simp add: fun_eq_iff sh_step_def)
    then show ?thesis by (simp add: Co_Delete v co_step_def co_Delete_def)
  qed
  have pool: "Pool_Shard cl ?s = Some (cl ! ?s)" using n by (simp add: Pool_Shard_def rd_Some)
  show ?thesis
  proof (cases "net ?s")
    case Delivered
    then have "co_step net numShards req cl = Some (fst ?a, cl[?s := p'])" using p'(1) by (simp add: run rpc_def pool)
    then show ?thesis using Some Delivered ok oa(1,2) n by (auto simp: Let_def)
  next
    case (Request_lost c)
    then have "co_step net numShards req cl = Some (Some c, cl)" by (simp add: run rpc_def pool)
    then show ?thesis using Some Request_lost assms(1) n by (auto simp: Let_def)
  next
    case (Answer_lost c)
    then have "co_step net numShards req cl = Some (Some c, cl[?s := p'])" using p'(1) by (simp add: run rpc_def pool)
    then show ?thesis using Some Answer_lost ok oa(2) n by (auto simp: Let_def)
  qed
qed

section \<open>Searching the cluster\<close>

text \<open>The distance of the query to a vector of shard \<open>i\<close>, and candidates that come from the shards of \<open>S\<close>.\<close>

definition cl_dist :: "d_config list \<Rightarrow> bool \<Rightarrow> f32 list \<Rightarrow> nat \<Rightarrow> f32 list \<Rightarrow> f32" where
  "cl_dist cfgs avx q i v = rawDistance (fresh avx (cfgs ! i)) (query_vec (fresh avx (cfgs ! i)) q) v"

definition pool_from :: "d_config list \<Rightarrow> bool \<Rightarrow> store list \<Rightarrow> f32 list \<Rightarrow> nat set \<Rightarrow> scored list \<Rightarrow> bool" where
  "pool_from cfgs avx sts q S pool \<longleftrightarrow> distinct (map sc_lab pool) \<and>
     (\<forall>x \<in> set pool. \<exists>i \<in> S. \<exists>v. (sts ! i) (sc_lab x) = Some (v, False) \<and> sc_distance x = cl_dist cfgs avx q i v)"

lemma candidate_simps [simp]: "sc_lab (candidate h) = fst h" "sc_distance (candidate h) = snd h"
  by (simp_all add: candidate_def sc_lab_def)

text \<open>The code with which the call of shard \<open>i\<close> fails, if it does: the network's, or that of a query of the wrong length.\<close>

definition fails :: "int \<Rightarrow> f32 list \<Rightarrow> (nat \<Rightarrow> fate) \<Rightarrow> nat \<Rightarrow> grpc_code option" where
  "fails D q net i =
     (case net i of Request_lost code \<Rightarrow> Some code | Answer_lost code \<Rightarrow> Some code
      | Delivered \<Rightarrow> if int (length q) = D then None else Some InvalidArgument)"

lemma rpc_search:
  assumes "cluster_ok D cfgs avx cl sts" "i < length cl" "0 < k" "k < 2 ^ 31" "ef < 2 ^ 32"
  shows "\<exists>r cl'. rpc net i Inl (sh_Search q k ef None) cl = Some (r, cl') \<and> cluster_ok D cfgs avx cl' sts \<and> length cl' = length cl \<and>
    (case fails D q net i of Some code \<Rightarrow> r = Inl code
     | None \<Rightarrow> \<exists>hits. r = Inr hits \<and> pool_from cfgs avx sts q {i} (map candidate hits))"
proof -
  note sh = cluster_okD [OF assms(1,2)]
  obtain r p' where h: "sh_Search q k ef None (cl ! i) = Some (r, p')" "shard_ok (cfgs ! i) avx p' (sts ! i)"
    "if int (length q) = D then \<exists>hits. r = Inr hits \<and> hits_ok (fresh avx (cfgs ! i)) (sts ! i) q k hits else r = Inl InvalidArgument"
  proof (cases "int (length q) = D")
    case True
    then show ?thesis using that sh_Search_ok [OF sh(1), of q k ef] assms(3-5) sh(2) by auto
  next
    case False
    then show ?thesis using that [of "Inl InvalidArgument" "cl ! i"] sh_Search_rejects [OF sh(1), of q k ef None] sh(1,2) by auto
  qed
  have ok: "cluster_ok D cfgs avx (cl[i := p']) sts" using cluster_ok_upd [OF assms(1,2) h(2) sh(3)] by simp
  have pool: "pool_from cfgs avx sts q {i} (map candidate hits)" if "hits_ok (fresh avx (cfgs ! i)) (sts ! i) q k hits" for hits
    using that by (auto simp: pool_from_def hits_ok_def cl_dist_def o_def)
  have cl: "Pool_Shard cl i = Some (cl ! i)" using assms(2) by (simp add: Pool_Shard_def rd_Some)
  show ?thesis
    using h ok pool assms(1) cl by (cases "net i") (auto simp: rpc_def fails_def split: if_splits)
qed

lemma pool_from_append:
  assumes "pool_from cfgs avx sts q {i} xs" "pool_from cfgs avx sts q S ys" "i \<notin> S"
    and "\<forall>j \<in> insert i S. \<forall>key \<in> dom (sts ! j). ShardFor n key = j"
  shows "pool_from cfgs avx sts q (insert i S) (xs @ ys)"
proof -
  have "ShardFor n (sc_lab x) = i" if "x \<in> set xs" for x using assms(1,4) that by (force simp: pool_from_def)
  moreover have "ShardFor n (sc_lab y) \<in> S" if "y \<in> set ys" for y
    using assms(2,4) that by (force simp: pool_from_def)
  ultimately have "sc_lab ` set xs \<inter> sc_lab ` set ys = {}" using assms(3) by force
  then show ?thesis using assms(1,2) by (auto simp: pool_from_def)
qed

lemma ask_shards_ok:
  assumes "cluster_ok D cfgs avx cl sts" "distinct order" "set order \<subseteq> {..<length cl}"
    and "0 < k" "k < 2 ^ 31" "ef < 2 ^ 32"
  shows "\<exists>res cl'. ask_shards net allowPartial q k ef order cl = Some (res, cl') \<and> cluster_ok D cfgs avx cl' sts \<and>
    (case res of
       Inl code \<Rightarrow> \<not> allowPartial \<and> (\<exists>i \<in> set order. fails D q net i = Some code)
     | Inr (pool, failed) \<Rightarrow> (allowPartial \<or> (\<forall>i \<in> set order. fails D q net i = None)) \<and>
         failed = length (filter (\<lambda>i. fails D q net i \<noteq> None) order) \<and>
         pool_from cfgs avx sts q {i \<in> set order. fails D q net i = None} pool)"
  using assms(1-3)
proof (induction order arbitrary: cl)
  case Nil
  then show ?case by (simp add: pool_from_def)
next
  case (Cons i order)
  let ?up = "\<lambda>i. fails D q net i = None"
  have i: "i < length cl" "i \<notin> set order" "distinct order" "set order \<subseteq> {..<length cl}" using Cons.prems(2,3) by auto
  obtain r cl1 where h: "rpc net i Inl (sh_Search q k ef None) cl = Some (r, cl1)" "cluster_ok D cfgs avx cl1 sts" "length cl1 = length cl"
    "case fails D q net i of Some code \<Rightarrow> r = Inl code
     | None \<Rightarrow> \<exists>hits. r = Inr hits \<and> pool_from cfgs avx sts q {i} (map candidate hits)"
    using rpc_search [OF Cons.prems(1) i(1) assms(4-6), of net q] by blast
  obtain res cl' where a: "ask_shards net allowPartial q k ef order cl1 = Some (res, cl')" "cluster_ok D cfgs avx cl' sts"
    "case res of Inl code \<Rightarrow> \<not> allowPartial \<and> (\<exists>i \<in> set order. fails D q net i = Some code)
     | Inr (pool, failed) \<Rightarrow> (allowPartial \<or> (\<forall>i \<in> set order. ?up i)) \<and> failed = length (filter (\<lambda>i. \<not> ?up i) order) \<and>
         pool_from cfgs avx sts q {i \<in> set order. ?up i} pool"
    using Cons.IH [OF h(2) i(3)] i(4) h(3) by auto
  show ?case
  proof (cases "fails D q net i")
    case None
    then obtain hits where hits: "r = Inr hits" "pool_from cfgs avx sts q {i} (map candidate hits)" using h(4) by auto
    have e: "{j \<in> set (i # order). ?up j} = insert i {j \<in> set order. ?up j}" using None by auto
    have own: "\<forall>j \<in> insert i {j \<in> set order. ?up j}. \<forall>key \<in> dom (sts ! j). ShardFor (length cl) key = j"
    proof
      fix j assume "j \<in> insert i {j \<in> set order. ?up j}"
      then have "j < length cl" using i(1,4) by blast
      then show "\<forall>key \<in> dom (sts ! j). ShardFor (length cl) key = j" using cluster_okD(3) [OF Cons.prems(1)] by blast
    qed
    show ?thesis
    proof (cases res)
      case (Inl code)
      then show ?thesis using a h(1) hits(1) by auto
    next
      case (Inr pf)
      obtain pool failed where pf: "pf = (pool, failed)" by (cases pf)
      have "pool_from cfgs avx sts q (insert i {j \<in> set order. ?up j}) (map candidate hits @ pool)"
        by (rule pool_from_append [OF hits(2) _ _ own]) (use a(3) Inr pf i(2) in auto)
      then show ?thesis using a h(1) hits(1) Inr pf None unfolding e by auto
    qed
  next
    case (Some code)
    then have f: "rpc net i Inl (sh_Search q k ef None) cl = Some (Inl code, cl1)" using h(1,4) by simp
    have e: "{j \<in> set (i # order). ?up j} = {j \<in> set order. ?up j}" using Some by auto
    show ?thesis
    proof (cases allowPartial)
      case True
      then show ?thesis using f a Some unfolding e by (cases res) auto
    qed (use f h(2) Some in auto)
  qed
qed

text \<open>
  C17: Searching through the coordinator, with \<open>k\<close> below \<open>2 ^ 31\<close>. A query without numbers or \<open>k = 0\<close> is an invalid
  argument. A shard fails if the network loses its request or its answer, or if the query has the wrong length. If one fails and
  partial answers are not allowed, the search ends with the code of a shard that failed (\<open>Internal\<close> if that is
  \<open>Unknown\<close>). Otherwise it counts the failed shards, and its at most \<open>k\<close> results are distinct keys of live vectors with their
  distances, each from the shard that owns the key, which has not failed, and ascending if no distance of the query to
  a live vector is a NaN. The stores do not change, in whatever order the shards answer.
\<close>

theorem coordinator_search:
  assumes "cluster_ok D cfgs avx cl sts" "sorter srt" "distinct order" "set order = {..<length cl}" "k < 2 ^ 31" "ef < 2 ^ 32"
  shows "\<exists>res cl'. co_Search srt order net defaultEf q k ef allowPartial cl = Some (res, cl') \<and> cluster_ok D cfgs avx cl' sts \<and>
    (if q = [] \<or> k = 0 then res = Inl InvalidArgument
     else if \<not> allowPartial \<and> (\<exists>i < length cl. fails D q net i \<noteq> None)
     then \<exists>i < length cl. \<exists>code. fails D q net i = Some code \<and> res = Inl (toGatherError code)
     else \<exists>r. res = Inr r \<and> shards_queried r = length cl \<and>
         shards_failed r = card {i. i < length cl \<and> fails D q net i \<noteq> None} \<and>
         length (rs_results r) \<le> k \<and> distinct (map sc_lab (rs_results r)) \<and>
         (\<forall>x \<in> set (rs_results r). fails D q net (ShardFor (length cl) (sc_lab x)) = None \<and>
            (\<exists>v. cl_store sts (sc_lab x) = Some (v, False) \<and> sc_distance x = cl_dist cfgs avx q (ShardFor (length cl) (sc_lab x)) v)) \<and>
         ((\<forall>key v. cl_store sts key = Some (v, False) \<longrightarrow> \<not> f32_is_nan (cl_dist cfgs avx q (ShardFor (length cl) key) v)) \<longrightarrow>
            sorted_wrt (\<lambda>x y. \<not> scored_less y x) (rs_results r)))"
proof (cases "q = [] \<or> k = 0")
  case True
  then show ?thesis using assms(1) by (auto simp: co_Search_def)
next
  case False
  let ?n = "length cl" and ?ef = "if ef = 0 then defaultEf mod 2 ^ 32 else ef" and ?up = "\<lambda>i. fails D q net i = None"
  have n: "set order \<subseteq> {..<?n}" "?ef < 2 ^ 32" "length sts = ?n" "0 < k" using assms False by (auto simp: cluster_ok_def)
  obtain res cl' where r: "ask_shards net allowPartial q k ?ef order cl = Some (res, cl')" "cluster_ok D cfgs avx cl' sts"
    "case res of Inl code \<Rightarrow> \<not> allowPartial \<and> (\<exists>i \<in> set order. fails D q net i = Some code)
     | Inr (pool, failed) \<Rightarrow> (allowPartial \<or> (\<forall>i \<in> set order. ?up i)) \<and> failed = length (filter (\<lambda>i. \<not> ?up i) order) \<and>
         pool_from cfgs avx sts q {i \<in> set order. ?up i} pool"
    using ask_shards_ok [OF assms(1,3) n(1,4) assms(5) n(2), of net allowPartial q] by blast
  show ?thesis
  proof (cases res)
    case (Inl code)
    then obtain i where "\<not> allowPartial" "i < ?n" "fails D q net i = Some code" using r(3) assms(4) by auto
    moreover have "co_Search srt order net defaultEf q k ef allowPartial cl = Some (Inl (toGatherError code), cl')"
      using r(1) Inl False by (simp add: co_Search_def Search_gather_def)
    ultimately show ?thesis using False r(2) by auto
  next
    case (Inr pf)
    obtain pool failed where pf: "pf = (pool, failed)" by (cases pf)
    let ?out = "gather srt k pool"
    let ?r = "\<lparr>rs_results = ?out, shards_queried = ?n, shards_failed = failed\<rparr>"
    have pool: "pool_from cfgs avx sts q {i \<in> set order. ?up i} pool" "allowPartial \<or> (\<forall>i < ?n. ?up i)"
      "failed = card {i. i < ?n \<and> \<not> ?up i}"
      using r(3) Inr pf assms(4) distinct_length_filter [OF assms(3), of "\<lambda>i. \<not> ?up i"] by (auto simp: Int_def conj_commute)
    note g = sorter.gather_take [OF assms(2), of k pool]
    have "distinct (map sc_lab (srt pool))"
      using pool(1) mset_eq_imp_distinct_iff [of "map sc_lab (srt pool)" "map sc_lab pool"] sorter.perm [OF assms(2), of pool]
      by (simp add: pool_from_def)
    then have d: "distinct (map sc_lab ?out)" unfolding g by (simp add: take_map [symmetric])
    have sub: "set ?out \<subseteq> set pool" using g sorter.srt_set [OF assms(2), of pool] set_take_subset by fastforce
    have hit: "?up (ShardFor ?n (sc_lab x)) \<and> (\<exists>v. cl_store sts (sc_lab x) = Some (v, False) \<and>
        sc_distance x = cl_dist cfgs avx q (ShardFor ?n (sc_lab x)) v)" if x: "x \<in> set pool" for x
    proof -
      obtain i v where i: "i < ?n" "?up i" "(sts ! i) (sc_lab x) = Some (v, False)" "sc_distance x = cl_dist cfgs avx q i v"
        using pool(1) x assms(4) unfolding pool_from_def by blast
      then have "ShardFor ?n (sc_lab x) = i" using cluster_okD(3) [OF assms(1) i(1)] by auto
      then show ?thesis using i n(3) by (simp add: cl_store_def)
    qed
    have srtd: "sorted_wrt (\<lambda>x y. \<not> scored_less y x) ?out"
      if "\<forall>key v. cl_store sts key = Some (v, False) \<longrightarrow> \<not> f32_is_nan (cl_dist cfgs avx q (ShardFor ?n key) v)"
    proof -
      have "no_nan pool" using hit that by (fastforce simp: no_nan_def)
      then show ?thesis unfolding g by (intro sorted_wrt_take sorter.sorted [OF assms(2)])
    qed
    have run: "co_Search srt order net defaultEf q k ef allowPartial cl = Some (Inr ?r, cl')"
      using r(1) Inr pf False by (simp add: co_Search_def Search_gather_def)
    have "\<not> (\<not> allowPartial \<and> (\<exists>i < ?n. fails D q net i \<noteq> None))" using pool(2) by auto
    moreover have "length ?out \<le> k" by (simp add: g)
    ultimately show ?thesis using run r(2) pool(3) d hit sub srtd False by (intro exI [of _ "Inr ?r"] exI [of _ cl']) auto
  qed
qed

section \<open>A concrete cluster\<close>

lemma ex_cluster: obtains cl where "length cl = 1" "cluster_ok 1 [ex_cfg] True cl [Map.empty]" "wd_plan (snd (cl ! 0)) = []"
proof -
  obtain d w where s: "service ex_cfg True w d Map.empty" by (rule ex_service)
  let ?cl = "[(\<lparr>sh_idx = d, sh_DefaultEf = 100\<rparr>, w)]"
  have "shard_ok ex_cfg True (?cl ! 0) Map.empty" using service_shard_ok [OF ex_cfg_ok(1) s, of 100] by simp
  moreover have "cf_Dim ex_cfg = 1" by (simp add: ex_cfg_def)
  ultimately have "cluster_ok 1 [ex_cfg] True ?cl [Map.empty]" by (simp add: cluster_ok_def)
  moreover have "wd_plan w = []" using service_inv [OF s ex_cfg_ok(1)] by (auto simp: d_inv_def)
  ultimately show thesis by (intro that [of ?cl]) simp_all
qed

lemma ShardFor_1 [simp]: "ShardFor 1 key = 0" "ShardFor (Suc 0) key = 0"
  by (simp_all add: ShardFor_def)

lemma ex_cfg_space: "ix_space (fresh avx ex_cfg) = L2" "ix_avx (fresh avx ex_cfg) = avx"
proof -
  have "Index avx L2 1 1 2 2 = Inr (fresh avx ex_cfg)"
    using fresh_ok(1) [OF ex_cfg_ok(1), of avx] by (simp add: ex_cfg_def size_t_def c_int_def to_i32_def HNSW_SPACE_L2_def)
  moreover have "ix_space ix = L2" if "Index avx L2 1 1 2 2 = Inr ix" for ix
    using that unfolding Index_def Let_def by (auto split: if_splits)
  ultimately show "ix_space (fresh avx ex_cfg) = L2" by blast
qed (rule fresh_ok(7) [OF ex_cfg_ok(1)])

lemma ex_cfg_dist: "\<not> f32_is_nan (cl_dist [ex_cfg] True [1] 0 (query_vec (fresh True ex_cfg) [1]))"
proof -
  have "\<not> f32_is_nan (l2SquaredDistance True [1 :: f32] [1] 1)"
    by (simp add: l2SquaredDistance_def l2_avx_loop.simps) code_simp
  then show ?thesis by (simp add: cl_dist_def rawDistance_def query_vec_def ex_cfg_space ex_cfg_ok)
qed

text \<open>The same cluster with a vector.\<close>

lemma ex_stored:
  obtains cl sts where "length cl = 1" "cluster_ok 1 [ex_cfg] True cl sts"
    "cl_store sts = [Label 1 7 \<mapsto> (query_vec (fresh True ex_cfg) [1], False)]"
proof -
  obtain cl where cl: "length cl = 1" "cluster_ok 1 [ex_cfg] True cl [Map.empty]" "wd_plan (snd (cl ! 0)) = []" by (rule ex_cluster)
  have w: "log_works (snd (cl ! 0))" using cl(3) by (simp add: log_works_def)
  have s: "shard_ok ex_cfg True (cl ! 0) Map.empty" using cluster_okD(1) [OF cl(2), of 0] cl(1) by simp
  let ?st = "[Label 1 7 \<mapsto> (query_vec (fresh True ex_cfg) [1], False)]"
  obtain p' where "shard_ok ex_cfg True p' ?st"
    using sh_step_ok [OF s, of "Sh_Insert (Some (Label 1 7)) [1]"] w
    by (auto simp: sh_answer_def accepted_def insert_codes_def ex_cfg_ok)
  then have "cluster_ok 1 [ex_cfg] True [p'] [?st]" by (auto simp: cluster_ok_def) (simp add: ex_cfg_def)
  then show ?thesis by (intro that [of "[p']" "[?st]"]) (auto simp: cl_store_def fun_eq_iff)
qed

theorem cluster_is_one_store_witness:
  "\<exists>cl cl' sts'. co_step (\<lambda>_. Answer_lost DeadlineExceeded) 1 (Co_Insert (Some (Label 1 7)) [1]) cl = Some (Some DeadlineExceeded, cl') \<and>
     cluster_ok 1 [ex_cfg] True cl' sts' \<and> cl_store sts' (Label 1 7) = Some (query_vec (fresh True ex_cfg) [1], False)"
proof -
  obtain cl where cl: "length cl = 1" "cluster_ok 1 [ex_cfg] True cl [Map.empty]" "wd_plan (snd (cl ! 0)) = []" by (rule ex_cluster)
  have e: "cl_store [Map.empty] = Map.empty" by (simp add: cl_store_def fun_eq_iff)
  have w: "log_works (snd (cl ! 0))" using cl(3) by (simp add: log_works_def)
  from cluster_is_one_store [OF cl(2), of 1 "\<lambda>_. Answer_lost DeadlineExceeded" "Co_Insert (Some (Label 1 7)) [1]"]
  show ?thesis using cl(1) w e by (fastforce simp: Let_def co_spec_def owned_def ex_cfg_ok)
qed

theorem coordinator_search_witness:
  "\<exists>cl sts r cl'. cluster_ok 1 [ex_cfg] True cl sts \<and> cl_store sts (Label 1 7) \<noteq> None \<and>
     co_Search (std_sort scored_less) [0] (\<lambda>_. Delivered) 100 [1] 5 0 False cl = Some (Inr r, cl') \<and> shards_failed r = 0 \<and>
     sorted_wrt (\<lambda>x y. \<not> scored_less y x) (rs_results r)"
proof -
  let ?v = "query_vec (fresh True ex_cfg) [1]" and ?net = "\<lambda>_ :: nat. Delivered"
  obtain cl sts where cl: "length cl = 1" "cluster_ok 1 [ex_cfg] True cl sts" "cl_store sts = [Label 1 7 \<mapsto> (?v, False)]" by (rule ex_stored)
  have nn: "\<not> f32_is_nan (cl_dist [ex_cfg] True [1] 0 ?v)" by (rule ex_cfg_dist)
  have o: "distinct [0 :: nat]" "set [0] = {..<length cl}" using cl(1) by auto
  have up: "fails 1 [1] ?net i = None" for i by (simp add: fails_def)
  have live: "\<forall>key v. cl_store sts key = Some (v, False) \<longrightarrow> \<not> f32_is_nan (cl_dist [ex_cfg] True [1] (ShardFor (length cl) key) v)"
    using nn cl(1) by (simp add: cl(3))
  have ready: "\<not> ([1 :: f32] = [] \<or> (5 :: nat) = 0)" "\<not> (\<not> False \<and> (\<exists>i < length cl. fails 1 [1] ?net i \<noteq> None))" by (simp_all add: up)
  obtain res cl' where res: "co_Search (std_sort scored_less) [0] ?net 100 [1] 5 0 False cl = Some (res, cl')"
    "\<exists>r. res = Inr r \<and> shards_failed r = card {i. i < length cl \<and> fails 1 [1] ?net i \<noteq> None} \<and>
       sorted_wrt (\<lambda>x y. \<not> scored_less y x) (rs_results r)"
    using coordinator_search [OF cl(2) ins.sorter_axioms o, of 5 0 ?net 100 "[1]" False, unfolded if_not_P [OF ready(1)] if_not_P [OF ready(2)]] live by auto
  then obtain r where "res = Inr r" "shards_failed r = 0" "sorted_wrt (\<lambda>x y. \<not> scored_less y x) (rs_results r)" by (auto simp: up)
  then show ?thesis using cl(2,3) res(1) by (intro exI [of _ cl] exI [of _ sts] exI [of _ r] exI [of _ cl']) simp
qed

end
