(* ===== verification/Spec2Isabelle.thy ===== *)
theory Spec2Isabelle
  imports Api_Process Link_Locks Sift_Bench Durable_Faults Durable_Writers Coordinator
begin

text \<open>
  A verification development of VectorSearchEngine: an approximate nearest neighbour index (HNSW) in
  C++ with a C interface, the Go servers over it (a durable index with a write-ahead log, shards and a coordinator), the
  simulation their cluster design was validated with, the benchmarks and the concurrent insertions of the stress test.

  \<^bold>\<open>The program.\<close> \<open>include/hnsw.hpp\<close> holds the distance kernels, the visited lists and the
  class \<open>hnsw::Index\<close>: vectors, labels, tombstones and levels in flat arrays, a graph of adjacency
  lists per layer in fixed-stride blocks, insertion, beam search, soft deletes and a binary snapshot.
  \<open>src/hnsw_c.cpp\<close> and \<open>include/hnsw_c.h\<close> wrap it for C and, through cgo, for the Go packages under
  \<open>src/go\<close>: \<open>hnsw\<close> is the binding, \<open>wal\<close> the log of operations, \<open>durable\<close> the index that
  survives a crash by snapshot and log, \<open>shard\<close> serves one such index, and \<open>coordinator\<close> routes writes to shards
  and merges their answers.
  \<open>src/shard_sim.cpp\<close> routes vectors to shards by a hash of client and label and merges the answers
  of all shards, as the Go coordinator does. \<open>src/benchmark.cpp\<close> measures recall on random vectors and
  checks deletes and snapshots; \<open>src/sift_bench.cpp\<close> does so on vector files, of which
  \<open>make_test_fvecs.cpp\<close> writes small ones. \<open>src/stress.cpp\<close> inserts from several threads.

  \<^bold>\<open>Theories.\<close> A partial operation returns an option; \<open>None\<close> is undefined behaviour (an access
  outside an array, a dangling handle, a division by zero). Exceptions are values of \<open>exn\<close> in a sum.
  Sizes are natural numbers with the wrap-around of \<open>size_t\<close> and \<open>idx_t\<close> written out.

  \<^item> \<open>VS_Prelude\<close>: checked array access, loops in the option monad (\<open>foldM\<close> with its induction
    rule and its rule for counting loops), fixed-stride blocks of a flat array.
  \<^item> \<open>Float32\<close>: binary32 as 32-bit words, its order, and addition, multiplication, division and
    square root correctly rounded to nearest even.
  \<^item> \<open>Distance\<close>: \<open>dotProduct\<close>, \<open>l2SquaredDistance\<close> and \<open>cosineDistance\<close>, with the AVX loop
    and the scalar loop. Over a commutative ring both compute the sum; in single precision the distances are
    symmetric, and the squared one is not negative and 0 from a vector to itself.
  \<^item> \<open>Prio_Queue\<close>: the binary heap of \<open>std::priority_queue\<close> and \<open>std::sort\<close>, against the
    locales \<open>weak_order\<close> and \<open>priority_queue\<close>.
  \<^item> \<open>Visited\<close>: \<open>VisitedList\<close> with its 16-bit stamp that wraps, and the pool.
  \<^item> \<open>Hnsw_Index\<close>: the fields of the class (record \<open>index\<close>), the constructor, block access,
    \<open>setLinks\<close>, soft deletes. \<open>wf_ix\<close> is the class invariant: array sizes, well-formed adjacency
    lists, entry point on the top layer, labels and ids in bijection, tombstones counted, unused slots blank.
    \<open>abs_ix\<close> is what clients see: a map from labels to a vector and a tombstone.
  \<^item> \<open>Hnsw_Search\<close>: \<open>greedyDescend\<close>, \<open>searchLayer\<close>, \<open>search\<close>. The beam invariant
    gives what a search returns; with all live nodes reachable and a beam as wide as the live count it is
    exactly the \<open>k\<close> nearest.
  \<^item> \<open>Hnsw_Build\<close>: \<open>selectNeighborsHeuristic\<close>, \<open>connectNewElement\<close>, \<open>addPoint\<close>. The
    relation \<open>relinked\<close> says what linking may change; the invariant is kept by every insertion.
  \<^item> \<open>Hnsw_Ops\<close>: the public operations as one state machine and its refinement of a bounded map
    with tombstones (\<open>spec_step\<close>), with the properties of the class.
  \<^item> \<open>Hnsw_Level\<close>: \<open>randomLevel\<close> in double arithmetic (\<open>f64\<close> rounds to 53 bits), over any logarithm
    with the accuracy of the C library (\<open>log_accurate\<close>): distribution and bounds; undefined for \<open>M = 1\<close>.
    \<open>drawn\<close> names the levels it can return.
  \<^item> \<open>Hnsw_Snapshot\<close>: \<open>save\<close> and \<open>load\<close>. The locale \<open>codec\<close> is the interface of an element
    encoding; every reachable index fits the types of the file format (\<open>typed\<close>) and is restored by
    loading what was saved; a truncated file is never loaded, but may be rejected for lack of memory, because a list is
    resized to a length that was not read (\<open>get_upper\<close>); what the code leaves unchecked is stated too.
  \<^item> \<open>Hnsw_Repeat\<close>: the visited lists never influence an answer: two searches that differ in their
    pools run in lock step. So queries can be repeated, and a reloaded index answers as the original.
  \<^item> \<open>Hnsw_C\<close>: every function of the C interface over a process with live handles, the last error and
    files. The locale \<open>index_method\<close> is what a wrapper relies on in a method of the index. The return codes refine
    the store.
  \<^item> \<open>Api_Process\<close>: sequences of calls of the C interface (\<open>exec\<close>, \<open>c_reach\<close>). No valid call is
    undefined, with the levels the index draws; an insertion into an index with \<open>M = 1\<close> is not valid.
  \<^item> \<open>Routing\<close>: the FNV-1a hash of a key, the shard it names, the assignment of vectors to shards.
  \<^item> \<open>Shard_Sim\<close>: the simulation. The locales \<open>sorter\<close> and \<open>partial_sorter\<close> are the
    contracts of the standard sorting functions. Sharding splits the store of the monolithic index, and
    merging the shards' answers for the full \<open>k\<close> is exact if each shard is, while asking for
    \<open>k / numShards\<close> is not.
  \<^item> \<open>Vec_Files\<close>: the \<open>fvecs\<close> and \<open>ivecs\<close> files of the benchmark. The locale \<open>cell\<close> is a
    codec that is a bijection on four bytes; the reader accepts exactly what the writer produces.
  \<^item> \<open>Float64\<close>: the double arithmetic of the benchmarks, rounded to 53 bits, and \<open>percentile\<close>.
  \<^item> \<open>Benchmark\<close>: \<open>src/benchmark.cpp\<close>. The locale \<open>pair_sorter\<close> is the contract of
    \<open>std::partial_sort\<close> on pairs, which determines the ground truth; the program runs to its end with both of
    its checks passing, because queries change nothing but the visited lists (\<open>kept\<close>).
  \<^item> \<open>Sift_Bench\<close>: \<open>src/sift_bench.cpp\<close> on files of any content, and \<open>make_test_fvecs.cpp\<close>,
    whose files it accepts.
  \<^item> \<open>Concurrent\<close>: threads that insert concurrently, as a step relation (\<open>reach\<close>) at the
    granularity of locks and atomic operations. Invariants by rule induction: call numbers and ids
    (\<open>ids_ok\<close>), the lock of the entry point (\<open>lock_ok\<close>), the slots and the entry point
    (\<open>entry_inv\<close>). No schedule blocks or runs forever, and writers with distinct labels insert everything
    exactly once; the duplicate check is not safe against a concurrent insertion of the same label.
  \<^item> \<open>Link_Locks\<close>: the same threads with the locks they take while linking, one per element, and that of the
    pool of visited lists: each acquisition and release is a step (\<open>link_step\<close>), and the scripts of
    \<open>greedyDescend\<close>, \<open>searchLayer\<close> and \<open>connectNewElement\<close> visit any elements. No deadlock, and
    no schedule without end.

  The Go servers, each layer over the one before:

  \<^item> \<open>Go_Os\<close>: error values, and the system calls on a disk. Each call may fail, a write after any number of bytes
    (\<open>wd_plan\<close>), and every state of the disk is recorded (\<open>wd_trace\<close>): a killed process leaves one of them.
  \<^item> \<open>Wal\<close>: \<open>src/go/wal/wal.go\<close>. Encoding and reading are inverse; torn and damaged records are never read,
    because the CRC-32 sees a changed byte; replay applies exactly the complete records.
  \<^item> \<open>Go_Hnsw\<close>: \<open>src/go/hnsw/hnsw.go\<close> over the C functions; what a method does to the store (\<open>refines\<close>).
  \<^item> \<open>Durable\<close>: \<open>src/go/durable/durable.go\<close>. The locale \<open>log_client\<close> is what the log needs of the component that
    applies its records.
  \<^item> \<open>Durable_Recovery\<close>: a service is a durable index that has gone through operations and crashes
    (\<open>service\<close>). Its invariant (\<open>d_inv\<close>, \<open>on_disk\<close>) says that snapshot and log stand for the store, and
    \<open>settled\<close> that the log may also be replayed over the newer snapshot. Every crash leaves the store before or after the
    interrupted operation.
  \<^item> \<open>Durable_Faults\<close>: one theorem for each condition of that result that the code does not establish by itself.
  \<^item> \<open>Durable_Writers\<close>: concurrent writers, each an append and a call of the index, in all interleavings
    (\<open>writers\<close>) with snapshots and crashes. Calls on different keys commute (\<open>on_keys\<close>); two on one key can swap.
  \<^item> \<open>Shard_Server\<close>: \<open>src/go/shard/server.go\<close>; the status codes tell what happened to the store in memory,
    for every request in every state of the disk (\<open>shard_ok\<close>), failing system calls and full indexes included.
  \<^item> \<open>Coordinator\<close>: \<open>src/go/coordinator\<close>, over a network that delivers a call, loses the request or loses the
    answer (\<open>fate\<close>); the cluster is one store to its writers, and a search returns the
    best of what the shards that answered have found. The merge is the one of the simulation and uses its locale \<open>sorter\<close>.

  \<^bold>\<open>Termination.\<close> Loops are recursion with a proof of termination and no fuel: the greedy descent by
  the rank of its distance, the beam search by unvisited nodes and frontier, the linking by the layer, replay by the bytes left.
  \<open>renameWithRetry\<close> has the ten attempts of the code.
  Bounds that appear as hypotheses (fewer than \<open>2 ^ 32\<close> elements, sizes in bytes below \<open>2 ^ 64\<close>,
  levels of at most \<open>2 ^ 24\<close>) are those of the C++ types; a drawn level is at most 1022. The lists of locks in
  \<open>Link_Locks\<close> are bounded by the capacity, since an element is expanded once per search.

  \<^bold>\<open>Parameters.\<close> The level an insertion draws (an argument of \<open>addPoint\<close>, where the code calls
  \<open>randomLevel\<close>; the class theorems hold for every level from 0, \<open>Api_Process\<close> and \<open>Sift_Bench\<close> for those that
  are \<open>drawn\<close>, of which there is none for \<open>M = 1\<close>), \<open>std::log\<close>, whether the build has AVX, the values of uninitialised
  variables and the allocation limit (\<open>junk\<close>), the device behind an output stream, the random data of the simulation and the benchmarks, the clock,
  \<open>std::hash\<close> and the sorting functions; in the Go servers which system calls fail, what becomes of a remote call and in what
  order the shards answer.

  \<^bold>\<open>Idealised.\<close> Reading an uninitialised variable gives an arbitrary value. \<open>std::sort\<close> and the heaps have a result also when
  distances are NaN, where their comparator is no order and the standard promises nothing; the properties of answers exclude
  that case (\<open>nan_free\<close>, \<open>comparable\<close>).

  \<^bold>\<open>Not modelled.\<close> The interleavings of linking: in \<open>Hnsw_Build\<close> an insertion is one atomic
  step, and \<open>Concurrent\<close> has everything but the adjacency lists; readers that run beside writers, and
  \<open>save\<close> beside writers (\<open>src/snapshot_race.cpp\<close>, whose writer is that of \<open>Concurrent\<close>).
  Allocation failure, except where a damaged file decides the size. The rounding of the double arithmetic in the averages of the
  simulation. Printing, argument parsing and clocks of the programs. In the Go servers: the two steps of a concurrent write
  are atomic, and searches beside it are not interleaved;
  power loss (a crash is that of a process, so what was written stays, and \<open>Sync\<close> has no effect on the model's disk); dialing,
  health checks and cancellation in the coordinator, and a call that is still running when its caller has gone on; finalizers; generated code, metrics, logging, the texts of statuses and the commands that start the processes.
\<close>

end
